(* ===== verification/Prelude.thy ===== *)
theory Prelude
  imports
    Main
    "HOL-Library.Word"
    "HOL-Library.Char_ord"
    "HOL-Library.List_Lexorder"
    "HOL-Library.Product_Lexorder"
    "HOL-Library.Sublist"
begin

text \<open>
  Shared vocabulary of the development: Go's byte strings, fixed-width integers, results with
  errors and panics, big-endian integers (package \<open>encoding/binary\<close>), slices, open files, and
  the lemmas about them that every component uses.

  A Go \<open>string\<close> is a sequence of bytes and \<open>[]byte(s)\<close>, \<open>string(b)\<close> copy the bytes, so
  both are the HOL type \<open>string\<close>: a list of \<open>char\<close>, of which HOL has exactly 256. Go compares
  strings bytewise and lexicographically, which is the order of \<open>List_Lexorder\<close> on lists over
  \<open>Char_ord\<close>. A Go \<open>int\<close> that counts or indexes is a \<open>nat\<close>; integers whose width matters
  (\<open>uint32\<close> lengths, \<open>uint64\<close> transaction ids) are words.
\<close>

unbundle bit_operations_syntax

section \<open>Types\<close>

type_synonym bytes = string
type_synonym u32 = "32 word"
type_synonym u64 = "64 word"

text \<open>
  Every error value the modelled code can return, by the message it carries: those of the SQL parser
  (a syntax error has what was expected and what was found), those of the catalog and the row codecs,
  and the rest.
\<close>

datatype parse_error =
    SyntaxError "string list" "string list"
  | DataTypeNotFound string
  | NoColumnDetail
  | PrimaryKeyColumnNotFound string
  | TooManySelectColumns
  | NoSelectColumn
  | TooManyConditions
  | NoCondition

datatype sql_error =
    PkPositionReadError
  | ColumnLengthReadError
  | ColumnNameReadError
  | ColumnNotFound string
  | NumIndexesReadError
  | IndexNameLenReadError
  | IndexNameReadError
  | NumIndexColumnsReadError
  | ColumnPositionReadError
  | ColumnPositionOutOfRange int int
  | AtoiSyntax string
  | AtoiRange string
  | BoolValueError
  | AllColumnsRequired
  | ColumnValuesNotFound
  | PkColumnValueNotFound
  | TableNotFound string
  | PkPositionIncorrect
  | IntDeserialiseError string
  | UnableToApplyConditions
  | QueryTypeNotSupported

datatype go_error =
    MissingUint64
  | MissingUint32
  | StringLengthExceedsPayload
  | UnexpectedTrailingBytes
  | UnknownWalCommand string
  | IoEOF
  | PartialLength
  | PartialPayload
  | PartialChecksum
  | LengthTooLarge
  | ChecksumMismatch
  | WriteFailed
  | ReadPastEnd
  | FileNotFound string
  | IndexBlockCorrupted
  | SsTableDataBlockError
  | TxnIdReadError
  | WriteLockHeldBy u64
  | ParseError parse_error
  | SqlError sql_error

text \<open>
  The outcome of a Go call: a value, an error value, or a run-time panic (a slice out of range, a
  nil dereference).
\<close>

datatype 'a result = Ok 'a | Err go_error | Panic

fun rbind :: "'a result \<Rightarrow> ('a \<Rightarrow> 'b result) \<Rightarrow> 'b result" where
  "rbind (Ok x) f = f x"
| "rbind (Err e) f = Err e"
| "rbind Panic f = Panic"

section \<open>Strings\<close>

text \<open>\<open>strings.Split\<close> with a separator of one character.\<close>

fun split_on :: "char \<Rightarrow> string \<Rightarrow> string list" where
  "split_on sep [] = [[]]"
| "split_on sep (c # s) =
     (if c = sep then [] # split_on sep s
      else case split_on sep s of [] \<Rightarrow> [[c]] | w # ws \<Rightarrow> (c # w) # ws)"

lemma split_on_no_sep: "sep \<notin> set s \<Longrightarrow> split_on sep s = [s]"
  by (induction s) auto

lemma split_on_append: "sep \<notin> set s \<Longrightarrow> split_on sep (s @ sep # s') = s # split_on sep s'"
  by (induction s) auto

section \<open>Lemma collections\<close>

named_theorems codec_simps "evaluation of encoders and decoders on encoded prefixes"
named_theorems len_simps "lengths of encoded values"

lemma rbind_Ok_iff: "rbind r f = Ok y \<longleftrightarrow> (\<exists>x. r = Ok x \<and> f x = Ok y)"
  by (cases r) auto

lemma rbind_Err_iff: "rbind r f = Err er \<longleftrightarrow> r = Err er \<or> (\<exists>x. r = Ok x \<and> f x = Err er)"
  by (cases r) auto

lemma rbind_eq_OkE:
  assumes "rbind r f = Ok y"
  obtains x where "r = Ok x" "f x = Ok y"
  using assms by (auto simp: rbind_Ok_iff)

section \<open>Slices\<close>

text \<open>
  The slice expression \<open>buf[lo:hi]\<close> for \<open>lo \<le> hi \<le> len(buf)\<close>. Where the code does not
  guard the bounds the model tests them and panics before it uses \<open>slice\<close>.
\<close>

definition slice :: "'a list \<Rightarrow> nat \<Rightarrow> nat \<Rightarrow> 'a list" where
  "slice xs lo hi = take (hi - lo) (drop lo xs)"

lemma length_slice [simp]: "hi \<le> length xs \<Longrightarrow> length (slice xs lo hi) = hi - lo"
  by (simp add: slice_def)

lemma slice_prefix: "slice (xs @ ys) 0 (length xs) = xs"
  by (simp add: slice_def)

lemma slice_append_drop:
  "n = length pre \<Longrightarrow> m = n + length xs \<Longrightarrow> slice (pre @ xs @ ys) n m = xs"
  by (simp add: slice_def)

lemma slice_drop: "slice (drop k xs) lo hi = slice xs (k + lo) (k + hi)"
  by (simp add: slice_def add.commute)

section \<open>Big-endian integers\<close>

text \<open>
  \<open>be_bytes n v\<close> is the \<open>n\<close>-byte big-endian form of \<open>v\<close>, most significant byte first, and
  \<open>of_be\<close> reads such bytes back. \<open>put_uint32\<close> and \<open>put_uint64\<close> are
  \<open>binary.BigEndian.AppendUint32\<close>/\<open>PutUint32\<close> and \<open>AppendUint64\<close>; \<open>get_uint32\<close> and
  \<open>get_uint64\<close> are \<open>binary.BigEndian.Uint32\<close> and \<open>Uint64\<close>, applied to 4 and 8 bytes.
\<close>

fun be_bytes :: "nat \<Rightarrow> nat \<Rightarrow> bytes" where
  "be_bytes 0 v = []"
| "be_bytes (Suc n) v = char_of (v div 256 ^ n) # be_bytes n v"

definition of_be :: "bytes \<Rightarrow> nat" where
  "of_be bs = foldl (\<lambda>a c. 256 * a + of_char c) 0 bs"

definition put_uint32 :: "u32 \<Rightarrow> bytes" where
  "put_uint32 w = be_bytes 4 (unat w)"

definition get_uint32 :: "bytes \<Rightarrow> u32" where
  "get_uint32 bs = word_of_nat (of_be bs)"

definition put_uint64 :: "u64 \<Rightarrow> bytes" where
  "put_uint64 w = be_bytes 8 (unat w)"

definition get_uint64 :: "bytes \<Rightarrow> u64" where
  "get_uint64 bs = word_of_nat (of_be bs)"

text \<open>The conversion \<open>uint32(len(s))\<close>: lengths of 4 GB and more wrap.\<close>

definition len32 :: "'a list \<Rightarrow> u32" where
  "len32 xs = word_of_nat (length xs)"

lemma length_be_bytes [simp]: "length (be_bytes n v) = n"
  by (induction n) auto

lemma foldl_be_shift:
  "foldl (\<lambda>a c. 256 * a + of_char c) (x::nat) bs =
     x * 256 ^ length bs + foldl (\<lambda>a c. 256 * a + of_char c) 0 bs"
proof (induction bs arbitrary: x)
  case Nil
  then show ?case by simp
next
  case (Cons b bs)
  show ?case
    using Cons.IH [of "256 * x + of_char b"] Cons.IH [of "of_char b"]
    by (simp add: algebra_simps)
qed

lemma of_be_Nil [simp]: "of_be [] = 0"
  by (simp add: of_be_def)

lemma of_be_Cons: "of_be (c # cs) = of_char c * 256 ^ length cs + of_be cs"
  by (simp add: of_be_def foldl_be_shift [of "of_char c"])

lemma of_be_be_bytes: "of_be (be_bytes n v) = v mod 256 ^ n"
proof (induction n)
  case 0
  then show ?case by simp
next
  case (Suc n)
  have "v mod 256 ^ Suc n = (v div 256 ^ n) mod 256 * 256 ^ n + v mod 256 ^ n"
    using mod_mult2_eq [of v "256 ^ n" 256]
    by (simp add: mult.commute algebra_simps)
  then show ?case
    by (simp add: of_be_Cons Suc.IH)
qed

lemma get_put_uint32 [codec_simps]: "get_uint32 (put_uint32 w) = w"
proof -
  have "unat w < 256 ^ 4"
    using unsigned_less [of w] by simp
  then show ?thesis
    by (simp add: get_uint32_def put_uint32_def of_be_be_bytes)
qed

lemma get_put_uint64 [codec_simps]: "get_uint64 (put_uint64 w) = w"
proof -
  have "unat w < 256 ^ 8"
    using unsigned_less [of w] by simp
  then show ?thesis
    by (simp add: get_uint64_def put_uint64_def of_be_be_bytes)
qed

lemma length_put_uint32 [simp, len_simps]: "length (put_uint32 w) = 4"
  by (simp add: put_uint32_def)

lemma length_put_uint64 [simp, len_simps]: "length (put_uint64 w) = 8"
  by (simp add: put_uint64_def)

lemma put_uint32_neq_Nil [simp]: "put_uint32 w \<noteq> []"
  by (metis length_put_uint32 list.size(3) zero_neq_numeral)

lemma unat_len32: "length xs < 2 ^ 32 \<Longrightarrow> unat (len32 xs) = length xs"
  by (simp add: len32_def unat_of_nat)

lemma unat_len32_le: "unat (len32 xs) \<le> length xs"
  by (simp add: len32_def unat_of_nat)

lemma word_of_nat_less_len32:
  "\<lbrakk>n < 2 ^ 32; length s < 2 ^ 32\<rbrakk> \<Longrightarrow> (word_of_nat n :: u32) < len32 s \<longleftrightarrow> n < length s"
  by (simp add: word_less_nat_alt unat_len32 unat_of_nat)

lemma slice_put_uint32 [codec_simps]:
  "get_uint32 (slice (pre @ put_uint32 w @ post) (length pre) (length pre + 4)) = w"
  by (simp add: slice_append_drop get_put_uint32)

lemma slice_put_uint64 [codec_simps]:
  "get_uint64 (slice (pre @ put_uint64 w @ post) (length pre) (length pre + 8)) = w"
  by (simp add: slice_append_drop get_put_uint64)

lemma be_bytes_of_be: "length bs = n \<Longrightarrow> be_bytes n (of_be bs + k * 256 ^ n) = bs"
proof (induction bs arbitrary: n k)
  case Nil
  then show ?case by simp
next
  case (Cons b bs)
  then obtain m where n: "n = Suc m" and m: "length bs = m" by auto
  have lt: "of_be bs < 256 ^ m"
    using of_be_be_bytes [of m "of_be bs"] Cons.IH [of m 0] m
    by (metis add.right_neutral mod_less_divisor mult_zero_left zero_less_numeral zero_less_power)
  have eq: "of_be (b # bs) + k * 256 ^ n = of_be bs + (of_char b + k * 256) * 256 ^ m"
    using m by (simp add: of_be_Cons n algebra_simps)
  have "(of_be bs + (of_char b + k * 256) * 256 ^ m) div 256 ^ m = of_char b + k * 256"
    using lt by simp
  moreover have "char_of (of_char b + k * 256 :: nat) = b"
    by (metis char_of_mod_256 char_of_char mod_mult_self1)
  moreover have "be_bytes n (of_be (b # bs) + k * 256 ^ n) =
      be_bytes (Suc m) (of_be bs + (of_char b + k * 256) * 256 ^ m)"
    by (subst eq) (simp only: n)
  ultimately show ?case
    using Cons.IH [of m "of_char b + k * 256"] m by simp
qed

lemma put_get_uint32: "length bs = 4 \<Longrightarrow> put_uint32 (get_uint32 bs) = bs"
  using of_be_be_bytes [of 4 "of_be bs"] be_bytes_of_be [of bs 4 0]
  by (simp add: put_uint32_def get_uint32_def unat_of_nat)

lemma put_get_uint64: "length bs = 8 \<Longrightarrow> put_uint64 (get_uint64 bs) = bs"
  using of_be_be_bytes [of 8 "of_be bs"] be_bytes_of_be [of bs 8 0]
  by (simp add: put_uint64_def get_uint64_def unat_of_nat)

lemma prefix_iff_take: "prefix xs ys \<longleftrightarrow> take (length xs) ys = xs"
  by (metis append_eq_conv_conj prefix_def take_is_prefix)

lemma prefix_iff_slice: "prefix xs (drop off buf) \<longleftrightarrow> slice buf off (off + length xs) = xs"
  by (simp add: prefix_iff_take slice_def)

lemma prefix_append_drop:
  "prefix (xs @ ys) zs \<longleftrightarrow> prefix xs zs \<and> prefix ys (drop (length xs) zs)"
  by (auto simp: prefix_def)

section \<open>Decimal numbers\<close>

text \<open>\<open>fmt\<close>'s \<open>%d\<close> and \<open>strconv.FormatUint(_, 10)\<close> for a natural number.\<close>

fun fmt_nat :: "nat \<Rightarrow> string" where
  "fmt_nat n = (if n < 10 then [char_of (48 + n)] else fmt_nat (n div 10) @ [char_of (48 + n mod 10)])"

declare fmt_nat.simps [simp del]

definition dec_value :: "string \<Rightarrow> nat" where
  "dec_value s = foldl (\<lambda>a c. 10 * a + (of_char c - 48)) 0 s"

lemma dec_value_fmt_nat: "dec_value (fmt_nat n) = n"
proof (induction n rule: fmt_nat.induct)
  case (1 n)
  show ?case
  proof (cases "n < 10")
    case True
    then show ?thesis by (simp add: fmt_nat.simps [of n] dec_value_def)
  next
    case False
    with "1.IH" show ?thesis
      by (subst fmt_nat.simps) (simp add: dec_value_def)
  qed
qed

lemma fmt_nat_inject [simp]: "fmt_nat m = fmt_nat n \<longleftrightarrow> m = n"
  by (metis dec_value_fmt_nat)

section \<open>Iterating over a map\<close>

text \<open>
  \<open>rng\<close> is the order in which Go's \<open>range\<close> visits the entries of a map, which the language leaves
  open: any function that enumerates its argument.
\<close>

definition enumerates :: "('k \<times> 'v) list \<Rightarrow> ('k \<rightharpoonup> 'v) \<Rightarrow> bool" where
  "enumerates xs m \<longleftrightarrow> distinct (map fst xs) \<and> map_of xs = m"

definition range_order :: "(('k \<rightharpoonup> 'v) \<Rightarrow> ('k \<times> 'v) list) \<Rightarrow> bool" where
  "range_order rng \<longleftrightarrow> (\<forall>m. finite (dom m) \<longrightarrow> enumerates (rng m) m)"

lemma enumerates_set: "enumerates xs m \<Longrightarrow> set xs = {(k, v). m k = Some v}"
  by (auto simp: enumerates_def)

text \<open>A range order that computes: by key.\<close>

definition sorted_range :: "(string \<rightharpoonup> 'v) \<Rightarrow> (string \<times> 'v) list" where
  "sorted_range m = map (\<lambda>k. (k, the (m k))) (sorted_list_of_set (dom m))"

lemma sorted_range_order: "range_order sorted_range"
proof -
  have "map_of (map (\<lambda>k. (k, the (m k))) (sorted_list_of_set (dom m))) k = m k" if "finite (dom m)" for m :: "string \<rightharpoonup> 'v" and k
    using that by (cases "m k") (auto simp: map_of_map_restrict restrict_map_def dom_def)
  then show ?thesis
    by (auto simp: range_order_def enumerates_def sorted_range_def comp_def)
qed

end
