(* ===== verification/Codec.thy ===== *)
theory Codec
  imports Prelude
begin

text \<open>
  The command encoding of \<open>db/db.go\<close> and \<open>db/transaction.go\<close>: length-prefixed strings, the
  \<open>PUT\<close> command and the \<open>TRANSACTION\<close> payload that a commit appends to the write-ahead log.
  A Go reader takes the buffer and a pointer to the offset; the model takes the offset and returns
  the new one beside the value.

  The locale \<open>codec\<close> is the contract between an encoder and the reader of its bytes: at any offset
  of any buffer the reader succeeds exactly when the encoding of some value lies there, returns
  that value and stops right behind it. Pairs and repetitions of codecs are codecs.
\<close>

section \<open>The code\<close>

definition CmdPut :: string where
  "CmdPut = ''PUT''"

definition CmdTransaction :: string where
  "CmdTransaction = ''TRANSACTION''"

record walPutCommand =
  cmd_key :: string
  cmd_value :: string

definition appendLengthPrefixedString :: "bytes \<Rightarrow> string \<Rightarrow> bytes" where
  "appendLengthPrefixedString buf value = buf @ put_uint32 (len32 value) @ value"

definition readUint64 :: "bytes \<Rightarrow> nat \<Rightarrow> (u64 \<times> nat) result" where
  "readUint64 buf offset =
     (if int (length buf) - int offset < 8 then Err MissingUint64
      else Ok (get_uint64 (slice buf offset (offset + 8)), offset + 8))"

definition readUint32 :: "bytes \<Rightarrow> nat \<Rightarrow> (u32 \<times> nat) result" where
  "readUint32 buf offset =
     (if int (length buf) - int offset < 4 then Err MissingUint32
      else Ok (get_uint32 (slice buf offset (offset + 4)), offset + 4))"

definition readLengthPrefixedString :: "bytes \<Rightarrow> nat \<Rightarrow> (string \<times> nat) result" where
  "readLengthPrefixedString buf offset =
     rbind (readUint32 buf offset) (\<lambda>(valueLen, offset).
       if word_of_nat (length buf - offset) < valueLen then Err StringLengthExceedsPayload
       else Ok (slice buf offset (offset + unat valueLen), offset + unat valueLen))"

definition serialisePutCommand :: "string \<Rightarrow> string \<Rightarrow> bytes" where
  "serialisePutCommand key value =
     (let buf = [];
          buf = appendLengthPrefixedString buf CmdPut;
          buf = appendLengthPrefixedString buf key;
          buf = appendLengthPrefixedString buf value
      in buf)"

definition deserialisePutCommand :: "bytes \<Rightarrow> nat \<Rightarrow> ((string \<times> string) \<times> nat) result" where
  "deserialisePutCommand buf offset =
     rbind (readLengthPrefixedString buf offset) (\<lambda>(key, offset).
     rbind (readLengthPrefixedString buf offset) (\<lambda>(value, offset).
       if offset \<noteq> length buf then Err UnexpectedTrailingBytes else Ok ((key, value), offset)))"

text \<open>
  Go ranges over the write map in an unspecified order; \<open>writeMap\<close> is the list of its entries in
  the order of this iteration (\<open>enumerates\<close>).
\<close>

definition serialiseTransactionCommitPayload :: "(string \<times> string) list \<Rightarrow> u64 \<Rightarrow> bytes" where
  "serialiseTransactionCommitPayload writeMap txnId =
     (let buf = [];
          buf = appendLengthPrefixedString buf CmdTransaction;
          buf = buf @ put_uint64 txnId;
          buf = buf @ put_uint32 (len32 writeMap)
      in foldl (\<lambda>buf (key, value).
           appendLengthPrefixedString (appendLengthPrefixedString buf key) value) buf writeMap)"

fun readPutCommands :: "nat \<Rightarrow> bytes \<Rightarrow> nat \<Rightarrow> walPutCommand list \<Rightarrow> (walPutCommand list \<times> nat) result" where
  "readPutCommands 0 buf offset putCmds = Ok (putCmds, offset)"
| "readPutCommands (Suc n) buf offset putCmds =
     rbind (readLengthPrefixedString buf offset) (\<lambda>(key, offset).
     rbind (readLengthPrefixedString buf offset) (\<lambda>(value, offset).
       readPutCommands n buf offset (putCmds @ [\<lparr>cmd_key = key, cmd_value = value\<rparr>])))"

definition deserialiseTransactionCommand :: "bytes \<Rightarrow> (u64 \<times> walPutCommand list) result" where
  "deserialiseTransactionCommand buf =
     rbind (readUint64 buf 0) (\<lambda>(txnId, offset).
     rbind (readUint32 buf offset) (\<lambda>(numWrites, offset).
     rbind (readPutCommands (unat numWrites) buf offset []) (\<lambda>(putCmds, offset).
       if offset \<noteq> length buf then Err UnexpectedTrailingBytes else Ok (txnId, putCmds))))"

section \<open>The contract of a codec\<close>

locale codec =
  fixes enc :: "'a \<Rightarrow> bytes"
    and dec :: "bytes \<Rightarrow> nat \<Rightarrow> ('a \<times> nat) result"
  assumes dec_iff: "\<lbrakk>length buf < 2 ^ 32; off \<le> length buf\<rbrakk> \<Longrightarrow>
    dec buf off = Ok (x, off') \<longleftrightarrow> prefix (enc x) (drop off buf) \<and> off' = off + length (enc x)"
begin

lemma dec_enc:
  assumes "length (pre @ enc x @ post) < 2 ^ 32"
  shows "dec (pre @ enc x @ post) (length pre) = Ok (x, length pre + length (enc x))"
  using assms by (simp add: dec_iff)

lemma dec_bound:
  assumes "dec buf off = Ok (x, off')" "length buf < 2 ^ 32" "off \<le> length buf"
  shows "off' \<le> length buf"
  using assms by (auto simp: dec_iff dest: prefix_length_le)

end

text \<open>Reading \<open>n\<close> items in a row.\<close>

fun read_many :: "(bytes \<Rightarrow> nat \<Rightarrow> ('a \<times> nat) result) \<Rightarrow> nat \<Rightarrow> bytes \<Rightarrow> nat \<Rightarrow> ('a list \<times> nat) result" where
  "read_many dec 0 buf off = Ok ([], off)"
| "read_many dec (Suc n) buf off =
     rbind (dec buf off) (\<lambda>(x, off).
     rbind (read_many dec n buf off) (\<lambda>(xs, off). Ok (x # xs, off)))"

context codec
begin

lemma read_many_iff:
  assumes "length buf < 2 ^ 32" "off \<le> length buf"
  shows "read_many dec n buf off = Ok (xs, off') \<longleftrightarrow>
    length xs = n \<and> prefix (concat (map enc xs)) (drop off buf) \<and>
    off' = off + length (concat (map enc xs))"
  using assms(2)
proof (induction n arbitrary: off xs off')
  case 0
  then show ?case by auto
next
  case (Suc n)
  show ?case
  proof (cases xs)
    case Nil
    then show ?thesis by (auto simp: rbind_Ok_iff)
  next
    case (Cons y ys)
    have "read_many dec (Suc n) buf off = Ok (y # ys, off') \<longleftrightarrow>
        (\<exists>o1. dec buf off = Ok (y, o1) \<and> read_many dec n buf o1 = Ok (ys, off'))"
      by (auto simp: rbind_Ok_iff)
    also have "\<dots> \<longleftrightarrow> prefix (enc y) (drop off buf) \<and>
        read_many dec n buf (off + length (enc y)) = Ok (ys, off')"
      using dec_iff [OF assms(1) Suc.prems] by auto
    also have "\<dots> \<longleftrightarrow> prefix (enc y) (drop off buf) \<and> length ys = n \<and>
        prefix (concat (map enc ys)) (drop (length (enc y)) (drop off buf)) \<and>
        off' = off + length (enc y) + length (concat (map enc ys))"
    proof (cases "prefix (enc y) (drop off buf)")
      case True
      then have "off + length (enc y) \<le> length buf"
        using Suc.prems by (auto dest: prefix_length_le)
      then show ?thesis
        using True Suc.IH [of "off + length (enc y)" ys off'] by (simp add: add.commute)
    qed simp
    finally show ?thesis
      by (auto simp: Cons prefix_append_drop)
  qed
qed

end

text \<open>Two codecs in sequence.\<close>

locale codec_pair = fst: codec enc1 dec1 + snd: codec enc2 dec2
  for enc1 :: "'a \<Rightarrow> bytes" and dec1 and enc2 :: "'b \<Rightarrow> bytes" and dec2
begin

lemma pair_iff:
  assumes "length buf < 2 ^ 32" "off \<le> length buf"
  shows "rbind (dec1 buf off) (\<lambda>(x, off). rbind (dec2 buf off) (\<lambda>(y, off). Ok ((x, y), off)))
      = Ok (p, off') \<longleftrightarrow>
    prefix (enc1 (fst p) @ enc2 (snd p)) (drop off buf) \<and>
    off' = off + length (enc1 (fst p) @ enc2 (snd p))"
proof -
  obtain x y where p: "p = (x, y)" by (cases p)
  have "rbind (dec1 buf off) (\<lambda>(x, off). rbind (dec2 buf off) (\<lambda>(y, off). Ok ((x, y), off)))
      = Ok (p, off') \<longleftrightarrow>
      (\<exists>o1. dec1 buf off = Ok (x, o1) \<and> dec2 buf o1 = Ok (y, off'))"
    by (auto simp: rbind_Ok_iff p)
  also have "\<dots> \<longleftrightarrow> prefix (enc1 x) (drop off buf) \<and> dec2 buf (off + length (enc1 x)) = Ok (y, off')"
    using fst.dec_iff [OF assms] by auto
  also have "\<dots> \<longleftrightarrow> prefix (enc1 x) (drop off buf) \<and>
      prefix (enc2 y) (drop (length (enc1 x)) (drop off buf)) \<and>
      off' = off + length (enc1 x) + length (enc2 y)"
  proof (cases "prefix (enc1 x) (drop off buf)")
    case True
    then have "off + length (enc1 x) \<le> length buf"
      using assms(2) by (auto dest: prefix_length_le)
    then show ?thesis
      using True snd.dec_iff [OF assms(1)] by (simp add: add.commute)
  qed simp
  finally show ?thesis
    by (simp add: p prefix_append_drop add.assoc)
qed

end

sublocale codec_pair \<subseteq> both: codec
  "\<lambda>p. enc1 (fst p) @ enc2 (snd p)"
  "\<lambda>buf off. rbind (dec1 buf off) (\<lambda>(x, off). rbind (dec2 buf off) (\<lambda>(y, off). Ok ((x, y), off)))"
  by unfold_locales (rule pair_iff)

section \<open>The code's readers are codecs\<close>

definition lengthPrefixed :: "string \<Rightarrow> bytes" where
  "lengthPrefixed s = put_uint32 (len32 s) @ s"

lemma appendLengthPrefixedString_eq [codec_simps]:
  "appendLengthPrefixedString buf s = buf @ lengthPrefixed s"
  by (simp add: appendLengthPrefixedString_def lengthPrefixed_def)

lemma length_lengthPrefixed [simp, len_simps]: "length (lengthPrefixed s) = 4 + length s"
  by (simp add: lengthPrefixed_def)

interpretation uint64: codec put_uint64 readUint64
proof
  fix buf :: bytes and off off' :: nat and x :: u64
  assume "length buf < 2 ^ 32" "off \<le> length buf"
  show "readUint64 buf off = Ok (x, off') \<longleftrightarrow>
      prefix (put_uint64 x) (drop off buf) \<and> off' = off + length (put_uint64 x)"
  proof (cases "off + 8 \<le> length buf")
    case True
    then have "length (slice buf off (off + 8)) = 8" by simp
    then have "get_uint64 (slice buf off (off + 8)) = x \<longleftrightarrow> slice buf off (off + 8) = put_uint64 x"
      using put_get_uint64 get_put_uint64 by metis
    with True show ?thesis
      by (auto simp: readUint64_def prefix_iff_slice)
  next
    case False
    then show ?thesis
      using \<open>off \<le> length buf\<close> by (auto simp: readUint64_def dest!: prefix_length_le)
  qed
qed

interpretation uint32: codec put_uint32 readUint32
proof
  fix buf :: bytes and off off' :: nat and x :: u32
  assume "length buf < 2 ^ 32" "off \<le> length buf"
  show "readUint32 buf off = Ok (x, off') \<longleftrightarrow>
      prefix (put_uint32 x) (drop off buf) \<and> off' = off + length (put_uint32 x)"
  proof (cases "off + 4 \<le> length buf")
    case True
    then have "length (slice buf off (off + 4)) = 4" by simp
    then have "get_uint32 (slice buf off (off + 4)) = x \<longleftrightarrow> slice buf off (off + 4) = put_uint32 x"
      using put_get_uint32 get_put_uint32 by metis
    with True show ?thesis
      by (auto simp: readUint32_def prefix_iff_slice)
  next
    case False
    then show ?thesis
      using \<open>off \<le> length buf\<close> by (auto simp: readUint32_def dest!: prefix_length_le)
  qed
qed

lemma readLengthPrefixedString_iff:
  assumes "length buf < 2 ^ 32" "off \<le> length buf"
  shows "readLengthPrefixedString buf off = Ok (s, off') \<longleftrightarrow>
    prefix (lengthPrefixed s) (drop off buf) \<and> off' = off + length (lengthPrefixed s)"
    (is "?L \<longleftrightarrow> ?R")
proof
  assume ?L
  then obtain n o1 where n: "readUint32 buf off = Ok (n, o1)"
    and le: "\<not> word_of_nat (length buf - o1) < n"
    and s: "s = slice buf o1 (o1 + unat n)" and off': "off' = o1 + unat n"
    by (auto simp: readLengthPrefixedString_def rbind_Ok_iff split: if_splits)
  from n have pre: "prefix (put_uint32 n) (drop off buf)" and o1: "o1 = off + 4"
    by (simp_all add: uint32.dec_iff [OF assms])
  have "unat (word_of_nat (length buf - o1) :: u32) = length buf - o1"
    using assms(1) by (simp add: unat_of_nat)
  with le have "unat n \<le> length buf - o1"
    by (metis word_less_nat_alt linorder_not_less)
  moreover from pre have "off + 4 \<le> length buf"
    using assms(2) by (auto dest!: prefix_length_le)
  ultimately have len: "length s = unat n"
    using s o1 by simp
  then have n': "n = len32 s"
    by (simp add: len32_def)
  have "prefix s (drop o1 buf)"
    using s len by (simp add: prefix_iff_slice)
  with pre o1 off' n' len show ?R
    by (simp add: lengthPrefixed_def prefix_append_drop add.commute)
next
  assume R: ?R
  then have pre: "prefix (put_uint32 (len32 s)) (drop off buf)"
    and s: "prefix s (drop (off + 4) buf)" and off': "off' = off + 4 + length s"
    by (simp_all add: lengthPrefixed_def prefix_append_drop add.commute)
  from R assms(2) have "off + 4 + length s \<le> length buf"
    by (auto dest!: prefix_length_le)
  moreover from this assms(1) have "length s < 2 ^ 32" "length buf - (off + 4) < 2 ^ 32" by simp_all
  ultimately have "\<not> word_of_nat (length buf - (off + 4)) < len32 s"
    using word_of_nat_less_len32 [of "length buf - (off + 4)" s] by linarith
  moreover have "readUint32 buf off = Ok (len32 s, off + 4)"
    using pre by (simp add: uint32.dec_iff [OF assms])
  ultimately show ?L
    using s off' \<open>length s < 2 ^ 32\<close>
    by (simp add: readLengthPrefixedString_def unat_len32 prefix_iff_slice)
qed

interpretation lps: codec lengthPrefixed readLengthPrefixedString
  by unfold_locales (rule readLengthPrefixedString_iff)

interpretation kv: codec_pair lengthPrefixed readLengthPrefixedString lengthPrefixed readLengthPrefixedString
  by unfold_locales

text \<open>One entry of the transaction payload: key and value, length-prefixed.\<close>

definition enc_kv :: "string \<times> string \<Rightarrow> bytes" where
  "enc_kv p = lengthPrefixed (fst p) @ lengthPrefixed (snd p)"

definition cmd_of :: "string \<times> string \<Rightarrow> walPutCommand" where
  "cmd_of p = \<lparr>cmd_key = fst p, cmd_value = snd p\<rparr>"

definition read_kv :: "bytes \<Rightarrow> nat \<Rightarrow> ((string \<times> string) \<times> nat) result" where
  "read_kv buf off = rbind (readLengthPrefixedString buf off) (\<lambda>(x, off).
     rbind (readLengthPrefixedString buf off) (\<lambda>(y, off). Ok ((x, y), off)))"

interpretation kv_entry: codec enc_kv read_kv
  unfolding enc_kv_def read_kv_def by (rule kv.both.codec_axioms)

lemma readPutCommands_eq:
  "readPutCommands n buf off acc =
     rbind (read_many read_kv n buf off) (\<lambda>(ps, off). Ok (acc @ map cmd_of ps, off))"
proof (induction n arbitrary: off acc)
  case 0
  then show ?case by simp
next
  case (Suc n)
  show ?case
  proof (cases "read_kv buf off")
    case (Ok p)
    then obtain k v o2 o1 where "p = ((k, v), o2)"
      and "readLengthPrefixedString buf off = Ok (k, o1)"
      and "readLengthPrefixedString buf o1 = Ok (v, o2)"
      by (cases p) (auto simp: read_kv_def rbind_Ok_iff)
    with Ok show ?thesis
      by (cases "read_many read_kv n buf o2") (auto simp: Suc.IH cmd_of_def)
  next
    case (Err e)
    then show ?thesis
      by (cases "readLengthPrefixedString buf off")
        (auto simp: read_kv_def elim!: rbind.elims)
  next
    case Panic
    then show ?thesis
      by (cases "readLengthPrefixedString buf off")
        (auto simp: read_kv_def elim!: rbind.elims)
  qed
qed

lemma serialiseTransactionCommitPayload_eq:
  "serialiseTransactionCommitPayload ws txnId =
     lengthPrefixed CmdTransaction @ put_uint64 txnId @ put_uint32 (len32 ws) @ concat (map enc_kv ws)"
proof -
  have "foldl (\<lambda>buf (key, value). appendLengthPrefixedString
      (appendLengthPrefixedString buf key) value) b ws = b @ concat (map enc_kv ws)" for b
    by (induction ws arbitrary: b) (auto simp: codec_simps enc_kv_def)
  then show ?thesis
    by (simp add: serialiseTransactionCommitPayload_def codec_simps Let_def)
qed

section \<open>Payloads and their readers\<close>

definition kv_of :: "walPutCommand \<Rightarrow> string \<times> string" where
  "kv_of c = (cmd_key c, cmd_value c)"

lemma kv_of_cmd_of [simp]: "kv_of (cmd_of p) = p" "cmd_of (kv_of c) = c"
  by (simp_all add: kv_of_def cmd_of_def)

lemma map_kv_cmd [simp]: "map (kv_of \<circ> cmd_of) ps = ps" "map (cmd_of \<circ> kv_of) cs = cs"
  by (simp_all add: map_idI)

lemma prefix_full: "prefix xs ys \<and> length xs = length ys \<longleftrightarrow> xs = ys"
  by (auto simp: prefix_def)

lemma deserialiseTransactionCommand_iff:
  assumes "length buf < 2 ^ 32"
  shows "deserialiseTransactionCommand buf = Ok (txnId, cmds) \<longleftrightarrow>
    buf = put_uint64 txnId @ put_uint32 (len32 cmds) @ concat (map enc_kv (map kv_of cmds))"
    (is "?L \<longleftrightarrow> ?R")
proof
  assume ?L
  then obtain o1 n o2 o3 where 1: "readUint64 buf 0 = Ok (txnId, o1)"
    and 2: "readUint32 buf o1 = Ok (n, o2)"
    and 3: "readPutCommands (unat n) buf o2 [] = Ok (cmds, o3)" and o3: "o3 = length buf"
    by (auto simp: deserialiseTransactionCommand_def rbind_Ok_iff split: if_splits)
  from 1 have p1: "prefix (put_uint64 txnId) buf" and o1: "o1 = 8"
    using uint64.dec_iff [OF assms, of 0] by simp_all
  have "o1 \<le> length buf"
    using uint64.dec_bound [OF 1 assms] by simp
  note two = uint32.dec_iff [OF assms this, of n o2]
  have p2: "prefix (put_uint32 n) (drop 8 buf)" and o2: "o2 = 12"
    using 2 two o1 by simp_all
  have le2: "o2 \<le> length buf"
    using uint32.dec_bound [OF 2 assms \<open>o1 \<le> length buf\<close>] .
  from 3 obtain ps where ps: "read_many read_kv (unat n) buf o2 = Ok (ps, o3)"
    and cmds: "cmds = map cmd_of ps"
    by (auto simp: readPutCommands_eq rbind_Ok_iff)
  then have len: "length ps = unat n" and p3: "prefix (concat (map enc_kv ps)) (drop 12 buf)"
    and o3': "o3 = 12 + length (concat (map enc_kv ps))"
    using kv_entry.read_many_iff [OF assms le2] o2 by auto
  have "concat (map enc_kv ps) = drop 12 buf"
  proof -
    have "length (concat (map enc_kv ps)) = length (drop 12 buf)"
      unfolding length_drop using o3 o3' by linarith
    with p3 prefix_full show ?thesis by blast
  qed
  moreover have "n = len32 cmds"
    using len by (simp add: cmds len32_def)
  ultimately show ?R
    using p1 p2 by (auto simp: cmds prefix_def)
next
  let ?ps = "map kv_of cmds"
  assume buf: ?R
  have len: "length cmds < 2 ^ 32"
  proof -
    have "length cmds \<le> length (concat (map enc_kv ?ps))"
      by (induction cmds) (auto simp: enc_kv_def)
    with buf assms show ?thesis by simp
  qed
  have 1: "readUint64 buf 0 = Ok (txnId, 8)"
    using uint64.dec_iff [OF assms, of 0] buf by simp
  have 2: "readUint32 buf 8 = Ok (len32 cmds, 12)"
    using uint32.dec_iff [OF assms, of 8] buf by simp
  have 3: "read_many read_kv (length cmds) buf 12 = Ok (?ps, length buf)"
    using kv_entry.read_many_iff [OF assms, of 12 "length cmds" ?ps "length buf"] buf by simp
  show ?L
    using len by (simp add: deserialiseTransactionCommand_def 1 2 readPutCommands_eq 3 unat_len32)
qed

text \<open>
  C31. The transaction record's encoder and decoder are inverse in the strongest sense: the recovery
  code accepts a payload as transaction \<open>txnId\<close> with writes \<open>cmds\<close> exactly when the payload is
  what the commit of that transaction with those writes serialises to. So every commit is read back
  as it was, and no other byte string (shorter, longer or altered) is taken for it.
\<close>

theorem transaction_payload_exact:
  assumes "length payload < 2 ^ 32"
  shows "(\<exists>offset. readLengthPrefixedString payload 0 = Ok (CmdTransaction, offset) \<and>
            deserialiseTransactionCommand (drop offset payload) = Ok (txnId, cmds)) \<longleftrightarrow>
    payload = serialiseTransactionCommitPayload (map kv_of cmds) txnId"
proof -
  have "length (drop offset payload) < 2 ^ 32" for offset
    using assms by simp
  note des = deserialiseTransactionCommand_iff [OF this]
  show ?thesis
    using lps.dec_iff [OF assms, of 0 CmdTransaction]
    by (auto simp: des serialiseTransactionCommitPayload_eq len32_def prefix_def)
qed

theorem transaction_payload_exact_witness:
  "\<exists>offset. readLengthPrefixedString (serialiseTransactionCommitPayload [(''k'', ''v'')] 7) 0 =
        Ok (CmdTransaction, offset) \<and>
      deserialiseTransactionCommand (drop offset (serialiseTransactionCommitPayload [(''k'', ''v'')] 7)) =
        Ok (7, [\<lparr>cmd_key = ''k'', cmd_value = ''v''\<rparr>])"
  using transaction_payload_exact [of "serialiseTransactionCommitPayload [(''k'', ''v'')] 7" 7
      "[\<lparr>cmd_key = ''k'', cmd_value = ''v''\<rparr>]"]
  by (simp add: serialiseTransactionCommitPayload_eq kv_of_def enc_kv_def CmdTransaction_def)

text \<open>The PUT command, read at the offset behind its name, accepts exactly the serialised form.\<close>

lemma deserialisePutCommand_iff:
  assumes "length buf < 2 ^ 32" "off \<le> length buf"
  shows "deserialisePutCommand buf off = Ok ((key, value), off') \<longleftrightarrow>
    drop off buf = enc_kv (key, value) \<and> off' = length buf"
proof -
  have "deserialisePutCommand buf off = rbind (read_kv buf off) (\<lambda>(kv, off).
      if off \<noteq> length buf then Err UnexpectedTrailingBytes else Ok (kv, off))"
  proof (cases "readLengthPrefixedString buf off")
    case (Ok p)
    then show ?thesis
      by (cases p; cases "readLengthPrefixedString buf (snd p)")
        (auto simp: deserialisePutCommand_def read_kv_def)
  qed (simp_all add: deserialisePutCommand_def read_kv_def)
  then have "deserialisePutCommand buf off = Ok ((key, value), off') \<longleftrightarrow>
      read_kv buf off = Ok ((key, value), off') \<and> off' = length buf"
    by (auto simp: rbind_Ok_iff split: if_splits)
  also have "\<dots> \<longleftrightarrow> prefix (enc_kv (key, value)) (drop off buf) \<and>
      off' = off + length (enc_kv (key, value)) \<and> off' = length buf"
    by (simp add: kv_entry.dec_iff [OF assms])
  also have "\<dots> \<longleftrightarrow> drop off buf = enc_kv (key, value) \<and> off' = length buf"
    using assms(2) prefix_full [of "enc_kv (key, value)" "drop off buf"] by auto
  finally show ?thesis .
qed

end
