(* ===== verification/Wal.thy ===== *)
theory Wal
  imports Codec
begin

text \<open>
  The write-ahead log of \<open>wal/wal.go\<close>: records \<open>[length][payload][checksum]\<close> appended to a file
  opened with \<open>O_APPEND\<close> and read back from the start, CRC-32 (IEEE) as the checksum.

  An open file is its content and its read position. \<open>WriteEntry\<close> takes the outcome of the
  operating system's write as an argument: the whole buffer is written and synced, or the call
  fails with some prefix of the buffer in the file.
\<close>

section \<open>Files\<close>

record gofile =
  f_content :: bytes
  f_pos :: nat

datatype io_outcome = IoOk | IoFail nat

text \<open>\<open>io.ReadFull(file, buf)\<close> with a buffer of \<open>n\<close> bytes.\<close>

datatype read_full = Full bytes | EOF | UnexpectedEOF

definition io_ReadFull :: "gofile \<Rightarrow> nat \<Rightarrow> read_full \<times> gofile" where
  "io_ReadFull f n =
     (let got = take n (drop (f_pos f) (f_content f));
          f' = f\<lparr>f_pos := f_pos f + length got\<rparr>
      in if length got = n then (Full got, f')
         else if got = [] then (EOF, f')
         else (UnexpectedEOF, f'))"

section \<open>CRC-32\<close>

text \<open>
  \<open>crc32.ChecksumIEEE\<close>: the reflected CRC with polynomial \<open>0xEDB88320\<close>, initial value and final
  complement all ones, one bit at a time.
\<close>

definition crc_bit :: "u32 \<Rightarrow> u32" where
  "crc_bit c = (if bit c 0 then drop_bit 1 c XOR 0xEDB88320 else drop_bit 1 c)"

definition crc_byte :: "u32 \<Rightarrow> char \<Rightarrow> u32" where
  "crc_byte c b = (crc_bit ^^ 8) (c XOR word_of_nat (of_char b))"

definition ChecksumIEEE :: "bytes \<Rightarrow> u32" where
  "ChecksumIEEE payload = NOT (foldl crc_byte (NOT 0) payload)"

section \<open>The log\<close>

record Wal =
  wal_file :: gofile

definition defaultWalPath :: string where
  "defaultWalPath = ''wal.log''"

text \<open>
  \<open>NewWal\<close> opens the file at the path, or at the default path if it is empty, creating it when it
  does not exist; the read position is the start. \<open>disk\<close> gives the contents of the existing files.
\<close>

definition NewWal :: "(string \<rightharpoonup> bytes) \<Rightarrow> string \<Rightarrow> Wal" where
  "NewWal disk filePath =
     (let filePath = (if filePath = '''' then defaultWalPath else filePath)
      in \<lparr>wal_file = \<lparr>f_content = (case disk filePath of None \<Rightarrow> [] | Some c \<Rightarrow> c), f_pos = 0\<rparr>\<rparr>)"

definition walRecord :: "bytes \<Rightarrow> bytes" where
  "walRecord payload = put_uint32 (len32 payload) @ payload @ put_uint32 (ChecksumIEEE payload)"

text \<open>With \<open>O_APPEND\<close> a write goes to the end of the file and leaves the position there.\<close>

definition WriteEntry :: "io_outcome \<Rightarrow> Wal \<Rightarrow> bytes \<Rightarrow> unit result \<times> Wal" where
  "WriteEntry io w payload =
     (let buf = walRecord payload;
          written = (case io of IoOk \<Rightarrow> buf | IoFail n \<Rightarrow> take n buf);
          content = f_content (wal_file w) @ written;
          w' = w\<lparr>wal_file := \<lparr>f_content = content, f_pos = length content\<rparr>\<rparr>
      in case io of IoOk \<Rightarrow> (Ok (), w') | IoFail n \<Rightarrow> (Err WriteFailed, w'))"

definition ReadEntry :: "Wal \<Rightarrow> bytes result \<times> Wal" where
  "ReadEntry w =
     (case io_ReadFull (wal_file w) 4 of
        (EOF, f) \<Rightarrow> (Err IoEOF, w\<lparr>wal_file := f\<rparr>)
      | (UnexpectedEOF, f) \<Rightarrow> (Err PartialLength, w\<lparr>wal_file := f\<rparr>)
      | (Full lengthBuf, f) \<Rightarrow>
         (let payloadLength = get_uint32 lengthBuf in
          if 1000000 < payloadLength then (Err LengthTooLarge, w\<lparr>wal_file := f\<rparr>)
          else (case io_ReadFull f (unat payloadLength) of
             (UnexpectedEOF, f) \<Rightarrow> (Err PartialPayload, w\<lparr>wal_file := f\<rparr>)
           | (EOF, f) \<Rightarrow> (Err IoEOF, w\<lparr>wal_file := f\<rparr>)
           | (Full payload, f) \<Rightarrow>
              (case io_ReadFull f 4 of
                 (UnexpectedEOF, f) \<Rightarrow> (Err PartialChecksum, w\<lparr>wal_file := f\<rparr>)
               | (EOF, f) \<Rightarrow> (Err IoEOF, w\<lparr>wal_file := f\<rparr>)
               | (Full checksumBuf, f) \<Rightarrow>
                  (let storedChecksum = get_uint32 checksumBuf;
                       computedChecksum = ChecksumIEEE payload
                   in if storedChecksum \<noteq> computedChecksum then (Err ChecksumMismatch, w\<lparr>wal_file := f\<rparr>)
                      else (Ok payload, w\<lparr>wal_file := f\<rparr>))))))"

definition Wal_Clear :: "Wal \<Rightarrow> Wal" where
  "Wal_Clear w = w\<lparr>wal_file := \<lparr>f_content = [], f_pos = 0\<rparr>\<rparr>"

section \<open>The checksum detects a changed byte\<close>

lemma crc_bit_31: "bit (crc_bit c) 31 \<longleftrightarrow> bit c 0"
  by (auto simp: crc_bit_def bit_simps dest: bit_imp_le_length)

lemma crc_bit_inj: "crc_bit c = crc_bit d \<Longrightarrow> c = d"
proof -
  assume eq: "crc_bit c = crc_bit d"
  then have b0: "bit c 0 = bit d 0"
    by (metis crc_bit_31)
  have "drop_bit 1 c = drop_bit 1 d"
  proof (cases "bit c 0")
    case True
    with eq b0 have "drop_bit 1 c XOR 0xEDB88320 = drop_bit 1 d XOR 0xEDB88320"
      by (simp add: crc_bit_def)
    then have "(drop_bit 1 c XOR 0xEDB88320) XOR 0xEDB88320 = (drop_bit 1 d XOR 0xEDB88320) XOR 0xEDB88320"
      by (rule arg_cong)
    then show ?thesis
      by (simp only: xor.assoc xor_self_eq xor.right_neutral)
  next
    case False
    with eq b0 show ?thesis by (simp add: crc_bit_def)
  qed
  then have shifted: "bit c (Suc n) = bit d (Suc n)" for n
    by (metis bit_drop_bit_eq comp_apply plus_1_eq_Suc)
  show "c = d"
  proof (rule bit_word_eqI)
    fix n
    show "bit c n = bit d n"
      by (cases n) (simp_all only: b0 shifted)
  qed
qed

lemma inj_crc_bits: "inj (crc_bit ^^ n)"
  by (induction n) (auto simp: inj_def dest: crc_bit_inj)

lemma crc_byte_inj: "crc_byte c b = crc_byte d b \<Longrightarrow> c = d"
proof -
  let ?b = "word_of_nat (of_char b) :: u32"
  assume "crc_byte c b = crc_byte d b"
  then have "c XOR ?b = d XOR ?b"
    using inj_crc_bits [of 8] by (auto simp: crc_byte_def inj_def)
  then have "(c XOR ?b) XOR ?b = (d XOR ?b) XOR ?b"
    by (rule arg_cong)
  then show "c = d"
    by (simp only: xor.assoc xor_self_eq xor.right_neutral)
qed

lemma crc_byte_neq:
  assumes "a \<noteq> b"
  shows "crc_byte c a \<noteq> crc_byte c b"
proof
  let ?w = "\<lambda>x. word_of_nat (of_char x) :: u32"
  assume "crc_byte c a = crc_byte c b"
  then have "c XOR ?w a = c XOR ?w b"
    using inj_crc_bits [of 8] by (auto simp: crc_byte_def inj_def)
  then have "c XOR (c XOR ?w a) = c XOR (c XOR ?w b)"
    by (rule arg_cong)
  then have "?w a = ?w b"
    by (simp only: xor_self_eq xor.left_neutral flip: xor.assoc)
  then have "unat (?w a) = unat (?w b)"
    by (rule arg_cong)
  moreover have "unat (?w x) = of_char x" for x
  proof -
    have "of_char x < (2 :: nat) ^ 32"
      by (rule less_trans [OF nat_of_char_less_256]) simp
    then show ?thesis
      by (simp add: unat_of_nat)
  qed
  ultimately show False
    using assms by simp
qed

lemma foldl_crc_inj: "foldl crc_byte c bs = foldl crc_byte d bs \<Longrightarrow> c = d"
  by (induction bs arbitrary: c d) (auto dest: crc_byte_inj)

lemma ChecksumIEEE_detects:
  assumes "a \<noteq> b"
  shows "ChecksumIEEE (pre @ a # post) \<noteq> ChecksumIEEE (pre @ b # post)"
  using crc_byte_neq [OF assms] foldl_crc_inj
  by (auto simp: ChecksumIEEE_def)

text \<open>
  Evaluation of the checksum on literals, with the standard check value of CRC-32 as a test.
\<close>

lemma crc_byte_eval: "crc_byte c b =
  crc_bit (crc_bit (crc_bit (crc_bit (crc_bit (crc_bit (crc_bit (crc_bit
    (c XOR word_of_nat (of_char b)))))))))"
  by (simp add: crc_byte_def numeral_eq_Suc)

lemmas ChecksumIEEE_eval = ChecksumIEEE_def crc_byte_eval crc_bit_def

lemma ChecksumIEEE_check_value: "ChecksumIEEE ''123456789'' = 0xCBF43926"
  by (simp add: ChecksumIEEE_eval)

section \<open>Reading records\<close>

lemma length_walRecord [simp, len_simps]: "length (walRecord payload) = length payload + 8"
  by (simp add: walRecord_def)

lemma walRecord_neq_Nil [simp]: "walRecord payload \<noteq> []"
  by (simp add: walRecord_def)

lemma io_ReadFull_Full:
  "drop (f_pos f) (f_content f) = xs @ rest \<Longrightarrow> length xs = n \<Longrightarrow>
   io_ReadFull f n = (Full xs, f\<lparr>f_pos := f_pos f + n\<rparr>)"
  by (simp add: io_ReadFull_def Let_def)

lemma drop_add_append: "drop k xs = ys @ zs \<Longrightarrow> n = length ys \<Longrightarrow> drop (k + n) xs = zs"
  by (metis add.commute append_eq_conv_conj drop_drop)

text \<open>
  A complete frame at the read position: the position moves behind it, and the payload is returned
  if the stored checksum is right.
\<close>

lemma ReadEntry_frame:
  assumes "drop (f_pos (wal_file w)) (f_content (wal_file w)) = put_uint32 (len32 p) @ p @ cs @ post"
    and "length cs = 4" and "length p \<le> 1000000"
  shows "ReadEntry w =
    (if get_uint32 cs \<noteq> ChecksumIEEE p then Err ChecksumMismatch else Ok p,
     w\<lparr>wal_file := (wal_file w)\<lparr>f_pos := f_pos (wal_file w) + (length p + 8)\<rparr>\<rparr>)"
proof -
  let ?f = "wal_file w" and ?k = "f_pos (wal_file w)"
  have unat: "unat (len32 p) = length p"
    using assms(3) by (simp add: unat_len32)
  then have small: "\<not> 1000000 < len32 p"
    using assms(3) by (simp add: word_less_nat_alt)
  have 1: "io_ReadFull ?f 4 = (Full (put_uint32 (len32 p)), ?f\<lparr>f_pos := ?k + 4\<rparr>)"
    using assms(1) by (intro io_ReadFull_Full) auto
  have d2: "drop (?k + 4) (f_content ?f) = p @ cs @ post"
    using assms(1) by (rule drop_add_append) simp
  then have 2: "io_ReadFull (?f\<lparr>f_pos := ?k + 4\<rparr>) (length p) = (Full p, ?f\<lparr>f_pos := ?k + 4 + length p\<rparr>)"
    by (subst io_ReadFull_Full [where xs = p and rest = "cs @ post"]) auto
  have "drop (?k + 4 + length p) (f_content ?f) = cs @ post"
    using d2 by (rule drop_add_append) simp
  then have 3: "io_ReadFull (?f\<lparr>f_pos := ?k + 4 + length p\<rparr>) 4 = (Full cs, ?f\<lparr>f_pos := ?k + 4 + length p + 4\<rparr>)"
    using assms(2) by (subst io_ReadFull_Full [where xs = cs and rest = post]) auto
  show ?thesis
    by (simp add: ReadEntry_def 1 2 3 unat small get_put_uint32)
qed

lemma ReadEntry_record:
  assumes "drop (f_pos (wal_file w)) (f_content (wal_file w)) = walRecord p @ post"
    and "length p \<le> 1000000"
  shows "ReadEntry w = (Ok p, w\<lparr>wal_file := (wal_file w)\<lparr>f_pos := f_pos (wal_file w) + length (walRecord p)\<rparr>\<rparr>)"
  using assms ReadEntry_frame [of w p "put_uint32 (ChecksumIEEE p)" post]
  by (simp add: walRecord_def get_put_uint32 add.commute)

lemma ReadEntry_at_end:
  assumes "length (f_content (wal_file w)) \<le> f_pos (wal_file w)"
  shows "ReadEntry w = (Err IoEOF, w)"
  using assms by (simp add: ReadEntry_def io_ReadFull_def)

lemma ReadEntry_Ok:
  assumes "ReadEntry w = (Ok p, w')"
  shows "drop (f_pos (wal_file w)) (f_content (wal_file w)) =
      walRecord p @ drop (f_pos (wal_file w')) (f_content (wal_file w)) \<and>
    length p \<le> 1000000 \<and>
    w' = w\<lparr>wal_file := (wal_file w)\<lparr>f_pos := f_pos (wal_file w) + length (walRecord p)\<rparr>\<rparr>"
proof -
  let ?k = "f_pos (wal_file w)" and ?c = "f_content (wal_file w)"
  define lb where "lb = take 4 (drop ?k ?c)"
  define cs where "cs = take 4 (drop (?k + 4 + length p) ?c)"
  from assms have lens: "length lb = 4" "unat (get_uint32 lb) = length p" "length cs = 4"
    and small: "\<not> 1000000 < get_uint32 lb"
    and p: "p = take (length p) (drop (?k + 4) ?c)"
    and crc: "get_uint32 cs = ChecksumIEEE p"
    and w': "w' = w\<lparr>wal_file := (wal_file w)\<lparr>f_pos := ?k + 4 + length p + 4\<rparr>\<rparr>"
    unfolding lb_def cs_def
    by (auto simp: ReadEntry_def io_ReadFull_def Let_def add.commute add.left_commute
        split: if_splits read_full.splits prod.splits)
  have le: "length p \<le> 1000000"
    using small lens(2) by (simp add: word_less_nat_alt)
  have "get_uint32 lb = len32 p"
    using lens(2) by (simp add: len32_def flip: lens(2))
  then have lb: "lb = put_uint32 (len32 p)"
    using lens(1) put_get_uint32 by metis
  have cs: "cs = put_uint32 (ChecksumIEEE p)"
    using crc lens(3) put_get_uint32 by metis
  have "drop ?k ?c = lb @ drop (?k + 4) ?c"
    unfolding lb_def by (metis add.commute append_take_drop_id drop_drop)
  also have "drop (?k + 4) ?c = p @ drop (?k + 4 + length p) ?c"
    using p by (metis add.commute append_take_drop_id drop_drop)
  also have "drop (?k + 4 + length p) ?c = cs @ drop (?k + 4 + length p + 4) ?c"
    unfolding cs_def by (metis add.commute append_take_drop_id drop_drop)
  finally have "drop ?k ?c = walRecord p @ drop (?k + 4 + length p + 4) ?c"
    by (simp add: lb cs walRecord_def)
  with le w' show ?thesis
    by (simp add: ac_simps)
qed

section \<open>Damaged logs\<close>

lemma ReadEntry_cut:
  assumes "drop (f_pos (wal_file w)) (f_content (wal_file w)) = take n (walRecord p)"
    and "n < length (walRecord p)" and "length p \<le> 1000000"
  shows "fst (ReadEntry w) =
    Err (if n = 0 \<or> n = 4 \<or> n = 4 + length p then IoEOF
         else if n < 4 then PartialLength
         else if n < 4 + length p then PartialPayload
         else PartialChecksum)"
proof (cases "n < 4")
  case True
  then show ?thesis
    using assms(1,2) by (auto simp: ReadEntry_def io_ReadFull_def Let_def)
next
  case False
  let ?f = "wal_file w" and ?k = "f_pos (wal_file w)"
  have unat: "unat (len32 p) = length p"
    using assms(3) by (simp add: unat_len32)
  then have small: "\<not> 1000000 < len32 p"
    using assms(3) by (simp add: word_less_nat_alt)
  have torn: "drop ?k (f_content ?f) =
      put_uint32 (len32 p) @ take (n - 4) (p @ put_uint32 (ChecksumIEEE p))"
    using assms(1) False by (simp add: walRecord_def)
  have 1: "io_ReadFull ?f 4 = (Full (put_uint32 (len32 p)), ?f\<lparr>f_pos := ?k + 4\<rparr>)"
    using torn by (intro io_ReadFull_Full) auto
  have d2: "drop (?k + 4) (f_content ?f) = take (n - 4) (p @ put_uint32 (ChecksumIEEE p))"
    using torn by (rule drop_add_append) simp
  show ?thesis
  proof (cases "n < 4 + length p")
    case True
    have "n - 4 < length p"
      using True False by arith
    then have "fst (io_ReadFull (?f\<lparr>f_pos := ?k + 4\<rparr>) (length p)) = (if n = 4 then EOF else UnexpectedEOF)"
      using True False d2 by (auto simp: io_ReadFull_def Let_def)
    then show ?thesis
      using True False by (auto simp: ReadEntry_def 1 unat small get_put_uint32 Let_def split: prod.splits)
  next
    case beyond: False
    then have d2': "drop (?k + 4) (f_content ?f) = p @ take (n - 4 - length p) (put_uint32 (ChecksumIEEE p))"
      using d2 by simp
    then have 2: "io_ReadFull (?f\<lparr>f_pos := ?k + 4\<rparr>) (length p) = (Full p, ?f\<lparr>f_pos := ?k + 4 + length p\<rparr>)"
      by (subst io_ReadFull_Full [OF _ refl]) auto
    have "drop (?k + 4 + length p) (f_content ?f) = take (n - 4 - length p) (put_uint32 (ChecksumIEEE p))"
      using d2' by (rule drop_add_append) simp
    then have "fst (io_ReadFull (?f\<lparr>f_pos := ?k + 4 + length p\<rparr>) 4) =
        (if n = 4 + length p then EOF else UnexpectedEOF)"
      using beyond assms(2) by (auto simp: io_ReadFull_def Let_def)
    then show ?thesis
      using beyond False by (auto simp: ReadEntry_def 1 2 unat small get_put_uint32 Let_def split: prod.splits)
  qed
qed

text \<open>
  The tail of a log that ends in the middle of a record. The reader names the part that is cut,
  but at two boundaries inside the record, right after the length and right after the payload,
  \<open>io.ReadFull\<close> finds nothing to read and reports a plain end of file, the same answer as for an
  intact log.
\<close>

theorem ReadEntry_torn:
  assumes "drop (f_pos (wal_file w)) (f_content (wal_file w)) = take n (walRecord p)"
    and "n < length (walRecord p)" and "length p \<le> 1000000"
  shows "fst (ReadEntry w) =
    Err (if n = 0 \<or> n = 4 \<or> n = 4 + length p then IoEOF
         else if n < 4 then PartialLength
         else if n < 4 + length p then PartialPayload
         else PartialChecksum)"
  using assms by (rule ReadEntry_cut)

theorem ReadEntry_torn_witness:
  "fst (ReadEntry \<lparr>wal_file = \<lparr>f_content = take 6 (walRecord ''abc''), f_pos = 0\<rparr>\<rparr>) = Err PartialPayload"
  using ReadEntry_torn [of "\<lparr>wal_file = \<lparr>f_content = take 6 (walRecord ''abc''), f_pos = 0\<rparr>\<rparr>" 6 "''abc''"]
  by simp

text \<open>
  C32. One damaged byte anywhere in the payload or the checksum of a record is detected, whatever
  the byte was and whatever it became.
\<close>

theorem ReadEntry_detects_damage:
  assumes "drop (f_pos (wal_file w)) (f_content (wal_file w)) = (walRecord p)[i := b] @ post"
    and "4 \<le> i" and "i < length (walRecord p)" and "b \<noteq> walRecord p ! i"
    and "length p \<le> 1000000"
  shows "fst (ReadEntry w) = Err ChecksumMismatch"
proof (cases "i < 4 + length p")
  case True
  define j where "j = i - 4"
  define q where "q = p[j := b]"
  have j1: "j < length p"
    using True assms(2) unfolding j_def by arith
  then have j2: "b \<noteq> p ! j"
    using assms(2,4) by (simp add: j_def walRecord_def nth_append)
  have upd: "(walRecord p)[i := b] = put_uint32 (len32 p) @ q @ put_uint32 (ChecksumIEEE p)"
    using j1 assms(2) by (simp add: walRecord_def list_update_append q_def j_def)
  have "p = take j p @ p ! j # drop (Suc j) p" "q = take j p @ b # drop (Suc j) p"
    using j1 by (simp_all add: id_take_nth_drop q_def upd_conv_take_nth_drop)
  then have "ChecksumIEEE q \<noteq> ChecksumIEEE p"
    using ChecksumIEEE_detects [OF j2] by metis
  moreover have "len32 q = len32 p" "length q = length p"
    by (simp_all add: len32_def q_def)
  ultimately show ?thesis
    using assms(1,5) upd ReadEntry_frame [of w q "put_uint32 (ChecksumIEEE p)" post]
    by (simp add: get_put_uint32)
next
  case False
  define j where "j = i - 4 - length p"
  define cs where "cs = (put_uint32 (ChecksumIEEE p))[j := b]"
  have "\<not> i - 4 < length p" "j < 4"
    using False assms(3) by (simp_all add: j_def)
  then have j: "j < 4" "b \<noteq> put_uint32 (ChecksumIEEE p) ! j"
    using False assms(2,4) by (simp_all add: j_def walRecord_def nth_append)
  have upd: "(walRecord p)[i := b] = put_uint32 (len32 p) @ p @ cs"
    using False \<open>\<not> i - 4 < length p\<close> by (simp add: walRecord_def list_update_append cs_def j_def)
  have cs: "length cs = 4" "cs \<noteq> put_uint32 (ChecksumIEEE p)"
    using j by (auto simp: cs_def) (metis length_put_uint32 nth_list_update_eq)
  then have "get_uint32 cs \<noteq> ChecksumIEEE p"
    using put_get_uint32 [of cs] by auto
  with cs(1) show ?thesis
    using assms(1,5) upd ReadEntry_frame [of w p cs post] by simp
qed

theorem ReadEntry_detects_damage_witness:
  "fst (ReadEntry \<lparr>wal_file = \<lparr>f_content = (walRecord ''abc'')[5 := CHR ''x''], f_pos = 0\<rparr>\<rparr>) =
     Err ChecksumMismatch"
  using ReadEntry_detects_damage [of "\<lparr>wal_file = \<lparr>f_content = (walRecord ''abc'')[5 := CHR ''x''], f_pos = 0\<rparr>\<rparr>"
      "''abc''" 5 "CHR ''x''" "[]"]
  by (simp add: walRecord_def nth_append)

end
