(* ===== verification/Versions.thy ===== *)
theory Versions
  imports Prelude
begin

text \<open>
  Multi-version entries and the read rule that the memtable and the SSTables implement.

  Every write is an entry: key, value and the id of the transaction that wrote it. A reader is its
  transaction id and the set of ids that were active when it began; it sees a version if it wrote
  it itself or if the writer has a smaller id and was not active then. \<open>latest_version\<close> is the
  specification of a read: the visible version with the largest id. The locales \<open>version_store\<close>
  and \<open>scannable_store\<close> are the contract of a component that holds versions.
\<close>

section \<open>Entries\<close>

record Entry =
  Key :: string
  Value :: string
  TxnId :: u64

definition mk_entry :: "string \<Rightarrow> string \<Rightarrow> u64 \<Rightarrow> Entry" where
  "mk_entry k v i = \<lparr>Key = k, Value = v, TxnId = i\<rparr>"

lemma mk_entry_simps [simp]:
  "Key (mk_entry k v i) = k" "Value (mk_entry k v i) = v" "TxnId (mk_entry k v i) = i"
  by (simp_all add: mk_entry_def)

lemma mk_entry_eta [simp]: "mk_entry (Key e) (Value e) (TxnId e) = e"
  by (simp add: mk_entry_def)

text \<open>\<open>func (e *Entry) Less(than btree.Item) bool\<close> of the memtable, and its order.\<close>

definition Entry_Less :: "Entry \<Rightarrow> Entry \<Rightarrow> bool" where
  "Entry_Less e than =
     (if Key e = Key than then TxnId e < TxnId than else Key e < Key than)"

definition version_of :: "Entry \<Rightarrow> string \<times> u64" where
  "version_of e = (Key e, TxnId e)"

lemma Entry_Less_iff: "Entry_Less e f \<longleftrightarrow> version_of e < version_of f"
  by (auto simp: Entry_Less_def version_of_def less_prod_def)

lemma Entry_Less_irrefl [simp]: "\<not> Entry_Less e e"
  by (simp add: Entry_Less_iff)

lemma Entry_Less_trans: "Entry_Less e f \<Longrightarrow> Entry_Less f g \<Longrightarrow> Entry_Less e g"
  unfolding Entry_Less_iff by (rule less_trans)

lemma Entry_Less_Key: "Entry_Less e f \<Longrightarrow> Key e \<le> Key f"
  by (auto simp: Entry_Less_def split: if_splits)

abbreviation ordered :: "Entry list \<Rightarrow> bool" where
  "ordered \<equiv> sorted_wrt Entry_Less"

definition unique_versions :: "Entry list \<Rightarrow> bool" where
  "unique_versions es \<longleftrightarrow> distinct (map version_of es)"

lemma ordered_unique: "ordered es \<Longrightarrow> unique_versions es"
  by (induction es) (auto simp: unique_versions_def Entry_Less_iff)

lemma unique_versionsD:
  "\<lbrakk>unique_versions es; e \<in> set es; f \<in> set es; Key e = Key f; TxnId e = TxnId f\<rbrakk> \<Longrightarrow> e = f"
  unfolding unique_versions_def distinct_map
  by (auto dest: inj_onD [where x = e and y = f] simp: version_of_def)

section \<open>Visibility and the read rule\<close>

definition visible :: "u64 \<Rightarrow> u64 set \<Rightarrow> u64 \<Rightarrow> bool" where
  "visible txnId activeTxns writer \<longleftrightarrow> writer = txnId \<or> writer < txnId \<and> writer \<notin> activeTxns"

fun better :: "Entry option \<Rightarrow> Entry \<Rightarrow> Entry option" where
  "better None e = Some e"
| "better (Some b) e = (if TxnId b \<le> TxnId e then Some e else Some b)"

definition candidates :: "string \<Rightarrow> u64 \<Rightarrow> u64 set \<Rightarrow> Entry list \<Rightarrow> Entry list" where
  "candidates k txnId activeTxns es = filter (\<lambda>e. Key e = k \<and> visible txnId activeTxns (TxnId e)) es"

definition latest_version :: "string \<Rightarrow> u64 \<Rightarrow> u64 set \<Rightarrow> Entry list \<Rightarrow> Entry option" where
  "latest_version k txnId activeTxns es = foldl better None (candidates k txnId activeTxns es)"

lemma foldl_better_Some:
  "\<exists>e. foldl better (Some b) es = Some e \<and> e \<in> set (b # es) \<and> (\<forall>f \<in> set (b # es). TxnId f \<le> TxnId e)"
proof (induction es arbitrary: b)
  case Nil
  then show ?case by simp
next
  case (Cons e es)
  show ?case
  proof (cases "TxnId b \<le> TxnId e")
    case True
    then show ?thesis using Cons.IH [of e] by auto
  next
    case False
    then show ?thesis using Cons.IH [of b] by auto
  qed
qed

lemma foldl_better_None: "foldl better None es = None \<longleftrightarrow> es = []"
proof (cases es)
  case (Cons e es')
  then show ?thesis using foldl_better_Some [of e es'] by auto
qed simp

lemma latest_version_None:
  "latest_version k t a es = None \<longleftrightarrow> (\<forall>e \<in> set es. Key e = k \<longrightarrow> \<not> visible t a (TxnId e))"
  by (auto simp: latest_version_def foldl_better_None candidates_def filter_empty_conv)

lemma latest_version_SomeD:
  assumes "latest_version k t a es = Some e"
  shows "e \<in> set es" "Key e = k" "visible t a (TxnId e)"
    "\<And>f. \<lbrakk>f \<in> set es; Key f = k; visible t a (TxnId f)\<rbrakk> \<Longrightarrow> TxnId f \<le> TxnId e"
proof -
  obtain c cs where c: "candidates k t a es = c # cs"
    using assms by (cases "candidates k t a es") (auto simp: latest_version_def)
  then have "e \<in> set (candidates k t a es) \<and> (\<forall>f \<in> set (candidates k t a es). TxnId f \<le> TxnId e)"
    using assms foldl_better_Some [of c cs] by (auto simp: latest_version_def)
  then show "e \<in> set es" "Key e = k" "visible t a (TxnId e)"
    "\<And>f. \<lbrakk>f \<in> set es; Key f = k; visible t a (TxnId f)\<rbrakk> \<Longrightarrow> TxnId f \<le> TxnId e"
    by (auto simp: candidates_def)
qed

lemma latest_versionI:
  assumes "unique_versions es" "e \<in> set es" "Key e = k" "visible t a (TxnId e)"
    and "\<And>f. \<lbrakk>f \<in> set es; Key f = k; visible t a (TxnId f)\<rbrakk> \<Longrightarrow> TxnId f \<le> TxnId e"
  shows "latest_version k t a es = Some e"
proof (cases "latest_version k t a es")
  case None
  with assms(2-4) show ?thesis by (auto simp: latest_version_None)
next
  case (Some f)
  note f = latest_version_SomeD [OF Some]
  have "TxnId e = TxnId f"
    using assms(2-5) f by (intro order_antisym) auto
  with assms(1-3) f have "f = e"
    by (auto dest: unique_versionsD)
  with Some show ?thesis by simp
qed

text \<open>The answer depends on the set of versions only.\<close>

lemma latest_version_cong:
  assumes "unique_versions es" "unique_versions fs"
    and "\<And>e. \<lbrakk>Key e = k; visible t a (TxnId e)\<rbrakk> \<Longrightarrow> e \<in> set es \<longleftrightarrow> e \<in> set fs"
  shows "latest_version k t a es = latest_version k t a fs"
proof (cases "latest_version k t a fs")
  case None
  then have "latest_version k t a es = None"
    using assms(3) by (auto simp: latest_version_None)
  with None show ?thesis by simp
next
  case (Some e)
  note e = latest_version_SomeD [OF Some]
  have "latest_version k t a es = Some e"
    using e assms(3) by (intro latest_versionI [OF assms(1)]) auto
  with Some show ?thesis by simp
qed

section \<open>Ordered lists of entries\<close>

text \<open>The versions of one key are contiguous, oldest first.\<close>

lemma ordered_Key_ge:
  "ordered (e # es) \<Longrightarrow> \<forall>f \<in> set es. Key e \<le> Key f"
  by (auto dest: Entry_Less_Key)

lemma ordered_key_segment:
  "ordered es \<Longrightarrow> takeWhile (\<lambda>e. Key e = k) (filter (\<lambda>e. k \<le> Key e) es) = filter (\<lambda>e. Key e = k) es"
proof (induction es)
  case Nil
  then show ?case by simp
next
  case (Cons e es)
  show ?case
  proof (cases "Key e \<le> k")
    case True
    with Cons show ?thesis by auto
  next
    case False
    then have "\<forall>f \<in> set es. Key f \<noteq> k"
      using ordered_Key_ge [OF Cons.prems] by auto
    with False show ?thesis by (auto simp: filter_empty_conv)
  qed
qed

text \<open>A prefix range of keys is contiguous too.\<close>

lemma prefix_le: "prefix p s \<Longrightarrow> p \<le> (s :: string)"
  by (induction p arbitrary: s) (auto simp: prefix_def)

lemma prefix_between:
  "\<lbrakk>p \<le> s; s \<le> r; prefix p r\<rbrakk> \<Longrightarrow> prefix p (s :: string)"
proof (induction p arbitrary: s r)
  case Nil
  then show ?case by simp
next
  case (Cons c p)
  obtain r' where r: "r = c # r'" "prefix p r'"
    using Cons.prems(3) by (cases r) auto
  obtain d s' where s: "s = d # s'"
    using Cons.prems(1) by (cases s) auto
  have "d = c" "p \<le> s'" "s' \<le> r'"
    using Cons.prems(1,2) r(1) s by auto
  with Cons.IH r(2) s show ?case by auto
qed

lemma ordered_prefix_segment:
  "ordered es \<Longrightarrow>
   takeWhile (\<lambda>e. prefix p (Key e)) (filter (\<lambda>e. p \<le> Key e) es) = filter (\<lambda>e. prefix p (Key e)) es"
proof (induction es)
  case Nil
  then show ?case by simp
next
  case (Cons e es)
  show ?case
  proof (cases "p \<le> Key e \<and> \<not> prefix p (Key e)")
    case True
    then have "\<not> prefix p (Key f)" if "f \<in> set es" for f
      using that ordered_Key_ge [OF Cons.prems] prefix_between by blast
    with True show ?thesis by (auto simp: filter_empty_conv)
  next
    case False
    with Cons prefix_le [of p "Key e"] show ?thesis by auto
  qed
qed

text \<open>In an ordered list the latest version is the last candidate.\<close>

lemma foldl_better_ordered:
  "sorted_wrt (\<lambda>e f. TxnId e \<le> TxnId f) es \<Longrightarrow> es \<noteq> [] \<Longrightarrow> foldl better None es = Some (last es)"
proof (induction es rule: rev_induct)
  case Nil
  then show ?case by simp
next
  case (snoc e es)
  then show ?case
    by (cases "es = []") (auto simp: sorted_wrt_append)
qed

lemma ordered_same_key:
  "ordered es \<Longrightarrow> \<forall>e \<in> set es. Key e = k \<Longrightarrow> sorted_wrt (\<lambda>e f. TxnId e \<le> TxnId f) es"
  by (induction es) (auto simp: Entry_Less_def)

lemma ordered_filter: "ordered es \<Longrightarrow> ordered (filter P es)"
  by (rule sorted_wrt_filter)

lemma latest_version_ordered:
  assumes "ordered es"
  shows "latest_version k t a es =
    (case candidates k t a es of [] \<Rightarrow> None | _ \<Rightarrow> Some (last (candidates k t a es)))"
proof -
  have "sorted_wrt (\<lambda>e f. TxnId e \<le> TxnId f) (candidates k t a es)"
    by (rule ordered_same_key [where k = k])
      (auto simp: candidates_def intro: ordered_filter assms)
  from foldl_better_ordered [OF this] show ?thesis
    by (cases "candidates k t a es") (simp_all add: latest_version_def)
qed

text \<open>The latest version of two lists when the second holds only later versions of the key.\<close>

lemma candidates_append: "candidates k t a (es @ fs) = candidates k t a es @ candidates k t a fs"
  by (simp add: candidates_def)

lemma foldl_better_later:
  assumes "foldl better None es = Some b" "\<And>e f. \<lbrakk>e \<in> set es; f \<in> set fs\<rbrakk> \<Longrightarrow> TxnId e \<le> TxnId f"
    "fs \<noteq> []"
  shows "foldl better (Some b) fs = foldl better None fs"
proof -
  obtain c cs where "es = c # cs"
    using assms(1) by (cases es) auto
  then have "b \<in> set es"
    using foldl_better_Some [of c cs] assms(1) by auto
  with assms(2,3) show ?thesis
    by (cases fs) auto
qed

lemma latest_version_append:
  assumes "\<And>e f. \<lbrakk>e \<in> set es; f \<in> set fs; Key e = k; Key f = k\<rbrakk> \<Longrightarrow> TxnId e \<le> TxnId f"
  shows "latest_version k t a (es @ fs) =
    (case latest_version k t a fs of None \<Rightarrow> latest_version k t a es | Some e \<Rightarrow> Some e)"
proof (cases "candidates k t a fs = []")
  case True
  then show ?thesis
    by (simp add: latest_version_def candidates_append)
next
  case False
  then have some: "latest_version k t a fs \<noteq> None"
    by (simp add: latest_version_def foldl_better_None)
  have "foldl better (latest_version k t a es) (candidates k t a fs) = latest_version k t a fs"
  proof (cases "latest_version k t a es")
    case None
    then show ?thesis by (simp add: latest_version_def)
  next
    case (Some b)
    have "TxnId e \<le> TxnId f" if "e \<in> set (candidates k t a es)" "f \<in> set (candidates k t a fs)" for e f
      using that assms by (simp add: candidates_def)
    from foldl_better_later [OF Some [unfolded latest_version_def] this False] Some show ?thesis
      by (simp add: latest_version_def)
  qed
  then show ?thesis
    using some by (auto simp: latest_version_def candidates_append)
qed

text \<open>In general the latest version of two lists is the later of the two.\<close>

fun later :: "Entry option \<Rightarrow> Entry option \<Rightarrow> Entry option" where
  "later x None = x"
| "later x (Some c) = better x c"

lemma foldl_better_later_of: "foldl better x es = later x (foldl better None es)"
proof (induction es rule: rev_induct)
  case (snoc e es)
  then show ?case
    by (cases x; cases "foldl better None es") auto
qed simp

lemma latest_version_later:
  "latest_version k t a (es @ fs) = later (latest_version k t a es) (latest_version k t a fs)"
  by (simp add: latest_version_def candidates_append flip: foldl_better_later_of)

text \<open>An ordered list is determined by its elements.\<close>

lemma ordered_set_eq: "\<lbrakk>ordered es; ordered fs; set es = set fs\<rbrakk> \<Longrightarrow> es = fs"
proof (induction es arbitrary: fs)
  case Nil
  then show ?case by simp
next
  case (Cons e es)
  then obtain f fs' where fs: "fs = f # fs'" by (cases fs) auto
  have "e = f"
  proof (rule ccontr)
    assume "e \<noteq> f"
    with Cons.prems(3) fs have "e \<in> set fs'" "f \<in> set es"
      by auto
    with Cons.prems(1,2) fs have "Entry_Less f e" "Entry_Less e f"
      by auto
    then show False using Entry_Less_trans Entry_Less_irrefl by blast
  qed
  moreover have "e \<notin> set es" "f \<notin> set fs'"
    using Cons.prems(1,2) fs by auto
  ultimately have "set es = set fs'"
    using Cons.prems(3) fs by auto
  with Cons.IH [of fs'] Cons.prems(1,2) fs \<open>e = f\<close> show ?case by simp
qed

lemma ordered_distinct: "ordered es \<Longrightarrow> distinct es"
  by (induction es) auto

text \<open>A list of entries as a map from versions to values.\<close>

definition vmap :: "Entry list \<Rightarrow> string \<times> u64 \<rightharpoonup> string" where
  "vmap es = map_of (map (\<lambda>e. (version_of e, Value e)) es)"

lemma vmap_Some_iff:
  assumes "unique_versions es"
  shows "vmap es (k, i) = Some v \<longleftrightarrow> mk_entry k v i \<in> set es"
proof -
  have "distinct (map fst (map (\<lambda>e. (version_of e, Value e)) es))"
    using assms by (simp add: unique_versions_def comp_def)
  then have "vmap es (k, i) = Some v \<longleftrightarrow> ((k, i), v) \<in> (\<lambda>e. (version_of e, Value e)) ` set es"
    by (simp add: vmap_def)
  also have "\<dots> \<longleftrightarrow> mk_entry k v i \<in> set es"
    by (auto simp: version_of_def image_iff intro: bexI [where x = "mk_entry k v i"])
  finally show ?thesis .
qed

section \<open>The contract of a store of versions\<close>

locale version_store =
  fixes inv :: "'s \<Rightarrow> bool"
    and entries :: "'s \<Rightarrow> Entry list"
    and get :: "'s \<Rightarrow> string \<Rightarrow> u64 \<Rightarrow> u64 set \<Rightarrow> string option"
  assumes entries_unique: "inv s \<Longrightarrow> unique_versions (entries s)"
    and get_latest: "inv s \<Longrightarrow> get s k t a = map_option Value (latest_version k t a (entries s))"
begin

text \<open>A read is repeatable: versions the reader cannot see do not change it.\<close>

lemma get_stable:
  assumes "inv s" "inv s'"
    and "\<And>e. \<lbrakk>Key e = k; visible t a (TxnId e)\<rbrakk> \<Longrightarrow> e \<in> set (entries s) \<longleftrightarrow> e \<in> set (entries s')"
  shows "get s k t a = get s' k t a"
  using assms latest_version_cong [of "entries s" "entries s'" k t a]
  by (simp add: get_latest entries_unique)

lemma get_None_iff:
  "inv s \<Longrightarrow> get s k t a = None \<longleftrightarrow> (\<forall>e \<in> set (entries s). Key e = k \<longrightarrow> \<not> visible t a (TxnId e))"
  by (simp add: get_latest latest_version_None)

lemma get_maximal:
  assumes "inv s" "e \<in> set (entries s)" "Key e = k" "visible t a (TxnId e)"
    and "\<And>f. \<lbrakk>f \<in> set (entries s); Key f = k; visible t a (TxnId f)\<rbrakk> \<Longrightarrow> TxnId f \<le> TxnId e"
  shows "get s k t a = Some (Value e)"
  using assms by (simp add: get_latest latest_versionI entries_unique)

lemma get_SomeD:
  assumes "inv s" "get s k t a = Some v"
  obtains e where "e \<in> set (entries s)" "Key e = k" "Value e = v" "visible t a (TxnId e)"
  using assms by (auto simp: get_latest dest: latest_version_SomeD)

end

locale scannable_store = version_store +
  fixes scan :: "'s \<Rightarrow> string \<Rightarrow> u64 \<Rightarrow> u64 set \<Rightarrow> string \<Rightarrow> string option"
  assumes scan_get: "inv s \<Longrightarrow> scan s p t a k = (if prefix p k then get s k t a else None)"
begin

lemma scan_stable:
  assumes "inv s" "inv s'"
    and "\<And>e. \<lbrakk>prefix p (Key e); visible t a (TxnId e)\<rbrakk> \<Longrightarrow> e \<in> set (entries s) \<longleftrightarrow> e \<in> set (entries s')"
  shows "scan s p t a = scan s' p t a"
proof
  fix k
  show "scan s p t a k = scan s' p t a k"
    using assms get_stable [OF assms(1,2), of k t a] by (auto simp: scan_get)
qed

end

end
