(* ===== verification/Memtable.thy ===== *)
theory Memtable
  imports Versions
begin

text \<open>
  The in-memory write buffer of \<open>memtable/memtable.go\<close>: a B-tree of entries ordered by key and
  transaction id, with a running size that decides when it is flushed.

  The tree is the third-party package \<open>github.com/google/btree\<close>, so it is a parameter: a record of
  the operations the memtable calls, and \<open>btree_ok\<close>, what the package documents of them. An
  iteration \<open>Ascend(iterator)\<close> calls the iterator on the items in order until it returns false;
  the parameter gives the sequence of items, and where the code's iterator returns false is part
  of the model.
\<close>

section \<open>The tree package\<close>

record 't btree =
  bt_New :: 't
  bt_ReplaceOrInsert :: "'t \<Rightarrow> Entry \<Rightarrow> 't \<times> Entry option"
  bt_Ascend :: "'t \<Rightarrow> Entry list"
  bt_AscendGreaterOrEqual :: "'t \<Rightarrow> Entry \<Rightarrow> Entry list"
  bt_Clear :: "'t \<Rightarrow> 't"

text \<open>
  The documented behaviour: items come in the order of \<open>Less\<close>, no two of them equal;
  \<open>ReplaceOrInsert\<close> adds an item and removes and returns the one equal to it, if any;
  \<open>AscendGreaterOrEqual\<close> visits the items from the pivot on; \<open>Clear\<close> and \<open>New\<close> are empty.
\<close>

definition same_version :: "Entry \<Rightarrow> Entry \<Rightarrow> bool" where
  "same_version e f \<longleftrightarrow> \<not> Entry_Less e f \<and> \<not> Entry_Less f e"

definition btree_ok :: "'t btree \<Rightarrow> bool" where
  "btree_ok bt \<longleftrightarrow>
     bt_Ascend bt (bt_New bt) = [] \<and>
     (\<forall>t. ordered (bt_Ascend bt t)) \<and>
     (\<forall>t e. set (bt_Ascend bt (fst (bt_ReplaceOrInsert bt t e))) =
        insert e {f \<in> set (bt_Ascend bt t). \<not> same_version e f}) \<and>
     (\<forall>t e. snd (bt_ReplaceOrInsert bt t e) = find (same_version e) (bt_Ascend bt t)) \<and>
     (\<forall>t p. bt_AscendGreaterOrEqual bt t p = filter (\<lambda>e. \<not> Entry_Less e p) (bt_Ascend bt t)) \<and>
     (\<forall>t. bt_Ascend bt (bt_Clear bt t) = [])"

section \<open>The memtable\<close>

record 't Memtable =
  mt_tree :: 't
  mt_size :: int

definition memtableSizeLimit :: int where
  "memtableSizeLimit = 1000"

definition NewMemtable :: "'t btree \<Rightarrow> 't Memtable" where
  "NewMemtable bt = \<lparr>mt_tree = bt_New bt, mt_size = 0\<rparr>"

text \<open>The iterator of \<open>Get\<close>, run over the items from the pivot on.\<close>

fun Memtable_Get_iter :: "string \<Rightarrow> u64 \<Rightarrow> u64 set \<Rightarrow> Entry list \<Rightarrow> string \<times> bool \<Rightarrow> string \<times> bool" where
  "Memtable_Get_iter key txnId activeTxnMap [] (value, found) = (value, found)"
| "Memtable_Get_iter key txnId activeTxnMap (e # es) (value, found) =
     (if Key e \<noteq> key then (value, found)
      else let isTxnActive = TxnId e \<in> activeTxnMap in
        if TxnId e = txnId \<or> TxnId e < txnId \<and> \<not> isTxnActive
        then Memtable_Get_iter key txnId activeTxnMap es (Value e, True)
        else Memtable_Get_iter key txnId activeTxnMap es (value, found))"

definition Memtable_Get :: "'t btree \<Rightarrow> 't Memtable \<Rightarrow> string \<Rightarrow> u64 \<Rightarrow> u64 set \<Rightarrow> string \<times> bool" where
  "Memtable_Get bt m key txnId activeTxnMap =
     Memtable_Get_iter key txnId activeTxnMap
       (bt_AscendGreaterOrEqual bt (mt_tree m) \<lparr>Key = key, Value = '''', TxnId = 0\<rparr>) ('''', False)"

text \<open>\<open>Iterate(fn)\<close> calls \<open>fn\<close> on every entry; the model returns the calls in order.\<close>

definition Memtable_Iterate :: "'t btree \<Rightarrow> 't Memtable \<Rightarrow> (string \<times> string \<times> u64) list" where
  "Memtable_Iterate bt m = map (\<lambda>e. (Key e, Value e, TxnId e)) (bt_Ascend bt (mt_tree m))"

definition Memtable_Put :: "'t btree \<Rightarrow> 't Memtable \<Rightarrow> string \<Rightarrow> string \<Rightarrow> u64 \<Rightarrow> 't Memtable" where
  "Memtable_Put bt m key value txnId =
     (let entry = \<lparr>Key = key, Value = value, TxnId = txnId\<rparr>;
          (tree, old) = bt_ReplaceOrInsert bt (mt_tree m) entry
      in case old of
           Some old \<Rightarrow> m\<lparr>mt_tree := tree, mt_size := mt_size m + int (length value) - int (length (Value old))\<rparr>
         | None \<Rightarrow> m\<lparr>mt_tree := tree, mt_size := mt_size m + (int (length key) + int (length value))\<rparr>)"

fun Memtable_PrefixScan_iter ::
  "string \<Rightarrow> u64 \<Rightarrow> u64 set \<Rightarrow> Entry list \<Rightarrow> (string \<rightharpoonup> string) \<Rightarrow> (string \<rightharpoonup> string)" where
  "Memtable_PrefixScan_iter prefixKey txnId activeTxnMap [] tableMap = tableMap"
| "Memtable_PrefixScan_iter prefixKey txnId activeTxnMap (e # es) tableMap =
     (let key = Key e in
      if \<not> prefix prefixKey key then tableMap
      else let isTxnActive = TxnId e \<in> activeTxnMap in
        if TxnId e = txnId \<or> TxnId e < txnId \<and> \<not> isTxnActive
        then Memtable_PrefixScan_iter prefixKey txnId activeTxnMap es (tableMap(key \<mapsto> Value e))
        else Memtable_PrefixScan_iter prefixKey txnId activeTxnMap es tableMap)"

definition Memtable_PrefixScan ::
  "'t btree \<Rightarrow> 't Memtable \<Rightarrow> string \<Rightarrow> u64 \<Rightarrow> u64 set \<Rightarrow> (string \<rightharpoonup> string)" where
  "Memtable_PrefixScan bt m prefixKey txnId activeTxnMap =
     Memtable_PrefixScan_iter prefixKey txnId activeTxnMap
       (bt_AscendGreaterOrEqual bt (mt_tree m) \<lparr>Key = prefixKey, Value = '''', TxnId = 0\<rparr>) Map.empty"

definition ShouldFlush :: "'t Memtable \<Rightarrow> bool" where
  "ShouldFlush m \<longleftrightarrow> mt_size m \<ge> memtableSizeLimit"

definition GetSize :: "'t Memtable \<Rightarrow> int" where
  "GetSize m = mt_size m"

definition Memtable_Clear :: "'t btree \<Rightarrow> 't Memtable \<Rightarrow> 't Memtable" where
  "Memtable_Clear bt m = m\<lparr>mt_tree := bt_Clear bt (mt_tree m), mt_size := 0\<rparr>"

section \<open>Reading\<close>

definition mt_entries :: "'t btree \<Rightarrow> 't Memtable \<Rightarrow> Entry list" where
  "mt_entries bt m = bt_Ascend bt (mt_tree m)"

lemma btree_okD:
  assumes "btree_ok bt"
  shows "bt_Ascend bt (bt_New bt) = []"
    and "ordered (bt_Ascend bt t)"
    and "set (bt_Ascend bt (fst (bt_ReplaceOrInsert bt t e))) =
      insert e {f \<in> set (bt_Ascend bt t). \<not> same_version e f}"
    and "snd (bt_ReplaceOrInsert bt t e) = find (same_version e) (bt_Ascend bt t)"
    and "bt_AscendGreaterOrEqual bt t p = filter (\<lambda>e. \<not> Entry_Less e p) (bt_Ascend bt t)"
    and "bt_Ascend bt (bt_Clear bt t) = []"
  using assms unfolding btree_ok_def by blast+

lemma same_version_iff: "same_version e f \<longleftrightarrow> Key e = Key f \<and> TxnId e = TxnId f"
  by (auto simp: same_version_def Entry_Less_def)

lemma not_less_pivot: "\<not> Entry_Less e \<lparr>Key = k, Value = v, TxnId = 0\<rparr> \<longleftrightarrow> k \<le> Key e"
  by (auto simp: Entry_Less_def not_less)

lemma Memtable_Get_iter_eq:
  "Memtable_Get_iter k t a es vf =
     (case candidates k t a (takeWhile (\<lambda>e. Key e = k) es) of
        [] \<Rightarrow> vf | cs \<Rightarrow> (Value (last cs), True))"
  by (induction k t a es vf rule: Memtable_Get_iter.induct)
    (auto simp: candidates_def visible_def split: list.splits)

lemma candidates_key_filter: "candidates k t a (filter (\<lambda>e. Key e = k) es) = candidates k t a es"
  by (simp add: candidates_def conj_commute)

lemma candidates_prefix_filter:
  "candidates k t a (filter (\<lambda>e. prefix p (Key e)) es) = (if prefix p k then candidates k t a es else [])"
  by (auto simp: candidates_def filter_empty_conv intro!: filter_cong)

lemma mt_from_pivot:
  assumes "btree_ok bt"
  shows "bt_AscendGreaterOrEqual bt (mt_tree m) \<lparr>Key = k, Value = v, TxnId = 0\<rparr> =
    filter (\<lambda>e. k \<le> Key e) (mt_entries bt m)"
  by (simp add: btree_okD(5) [OF assms] not_less_pivot mt_entries_def)

lemma mt_entries_ordered: "btree_ok bt \<Longrightarrow> ordered (mt_entries bt m)"
  by (simp add: mt_entries_def btree_okD(2))

lemma Memtable_Get_eq:
  assumes "btree_ok bt"
  shows "Memtable_Get bt m k t a =
    (case latest_version k t a (mt_entries bt m) of None \<Rightarrow> ('''', False) | Some e \<Rightarrow> (Value e, True))"
  using mt_entries_ordered [OF assms, of m]
  by (auto simp: Memtable_Get_def mt_from_pivot [OF assms] Memtable_Get_iter_eq ordered_key_segment
      candidates_key_filter latest_version_ordered split: list.splits)

lemma Memtable_PrefixScan_iter_eq:
  "Memtable_PrefixScan_iter p t a es m k =
     (case candidates k t a (takeWhile (\<lambda>e. prefix p (Key e)) es) of
        [] \<Rightarrow> m k | cs \<Rightarrow> Some (Value (last cs)))"
  by (induction es arbitrary: m) (auto simp: candidates_def visible_def Let_def split: list.splits)

lemma Memtable_PrefixScan_eq:
  assumes "btree_ok bt"
  shows "Memtable_PrefixScan bt m p t a k =
    (if prefix p k then map_option Value (latest_version k t a (mt_entries bt m)) else None)"
  using mt_entries_ordered [OF assms, of m]
  by (auto simp: Memtable_PrefixScan_def mt_from_pivot [OF assms] Memtable_PrefixScan_iter_eq
      ordered_prefix_segment candidates_prefix_filter latest_version_ordered split: list.splits)

text \<open>The memtable as a store of versions: the tree's operations and the memtable together.\<close>

definition mem_inv :: "'t btree \<times> 't Memtable \<Rightarrow> bool" where
  "mem_inv s \<longleftrightarrow> btree_ok (fst s)"

definition mem_entries :: "'t btree \<times> 't Memtable \<Rightarrow> Entry list" where
  "mem_entries s = mt_entries (fst s) (snd s)"

definition mem_get :: "'t btree \<times> 't Memtable \<Rightarrow> string \<Rightarrow> u64 \<Rightarrow> u64 set \<Rightarrow> string option" where
  "mem_get s k t a = (case Memtable_Get (fst s) (snd s) k t a of (v, ok) \<Rightarrow> if ok then Some v else None)"

definition mem_scan :: "'t btree \<times> 't Memtable \<Rightarrow> string \<Rightarrow> u64 \<Rightarrow> u64 set \<Rightarrow> string \<Rightarrow> string option" where
  "mem_scan s p t a = Memtable_PrefixScan (fst s) (snd s) p t a"

lemma mem_get_eq:
  "mem_inv s \<Longrightarrow> mem_get s k t a = map_option Value (latest_version k t a (mem_entries s))"
  by (simp add: mem_inv_def mem_get_def mem_entries_def Memtable_Get_eq split: option.splits)

interpretation mem: scannable_store mem_inv mem_entries mem_get mem_scan
proof
  fix s :: "'t btree \<times> 't Memtable" and k p t a
  assume inv: "mem_inv s"
  show "unique_versions (mem_entries s)"
    using inv by (simp add: mem_inv_def mem_entries_def mt_entries_ordered ordered_unique)
  show "mem_get s k t a = map_option Value (latest_version k t a (mem_entries s))"
    using inv by (rule mem_get_eq)
  show "mem_scan s p t a k = (if prefix p k then mem_get s k t a else None)"
    unfolding mem_get_eq [OF inv]
    using inv by (simp add: mem_scan_def mem_inv_def mem_entries_def Memtable_PrefixScan_eq)
qed

section \<open>Writing\<close>

definition total_size :: "Entry list \<Rightarrow> int" where
  "total_size es = (\<Sum>e\<leftarrow>es. int (length (Key e)) + int (length (Value e)))"

lemma Memtable_Put_tree:
  "mt_tree (Memtable_Put bt m k v i) = fst (bt_ReplaceOrInsert bt (mt_tree m) (mk_entry k v i))"
  by (simp add: Memtable_Put_def mk_entry_def split: prod.splits option.splits)

lemma mt_size_Put:
  "mt_size (Memtable_Put bt m k v i) =
    (case snd (bt_ReplaceOrInsert bt (mt_tree m) (mk_entry k v i)) of
       Some old \<Rightarrow> mt_size m + int (length v) - int (length (Value old))
     | None \<Rightarrow> mt_size m + (int (length k) + int (length v)))"
  by (simp add: Memtable_Put_def mk_entry_def split_beta split: option.splits)

lemma set_mt_entries_Put:
  assumes "btree_ok bt"
  shows "set (mt_entries bt (Memtable_Put bt m k v i)) =
    insert (mk_entry k v i) {f \<in> set (mt_entries bt m). \<not> (Key f = k \<and> TxnId f = i)}"
  by (auto simp: mt_entries_def Memtable_Put_tree btree_okD(3) [OF assms] same_version_iff)

lemma total_size_set: "distinct es \<Longrightarrow>
  total_size es = (\<Sum>e\<in>set es. int (length (Key e)) + int (length (Value e)))"
  by (simp add: total_size_def sum_list_distinct_conv_sum_set)

lemma Memtable_Put_size:
  assumes ok: "btree_ok bt" and size: "mt_size m = total_size (mt_entries bt m)"
  shows "mt_size (Memtable_Put bt m k v i) = total_size (mt_entries bt (Memtable_Put bt m k v i))"
proof -
  let ?S = "set (mt_entries bt m)" and ?e = "mk_entry k v i"
  let ?m' = "Memtable_Put bt m k v i"
  let ?w = "\<lambda>e. int (length (Key e)) + int (length (Value e))"
  have d: "distinct (mt_entries bt x)" for x
    by (rule ordered_distinct [OF mt_entries_ordered [OF ok]])
  have old: "snd (bt_ReplaceOrInsert bt (mt_tree m) ?e) = find (same_version ?e) (mt_entries bt m)"
    by (simp add: btree_okD(4) [OF ok] mt_entries_def)
  show ?thesis
  proof (cases "find (same_version ?e) (mt_entries bt m)")
    case None
    then have none: "\<not> (Key f = k \<and> TxnId f = i)" if "f \<in> ?S" for f
      using that by (auto simp: find_None_iff same_version_iff)
    then have "set (mt_entries bt ?m') = insert ?e ?S" "?e \<notin> ?S"
      using none [of ?e] by (auto simp: set_mt_entries_Put [OF ok])
    then have "total_size (mt_entries bt ?m') = ?w ?e + total_size (mt_entries bt m)"
      by (simp add: total_size_set [OF d])
    moreover have "mt_size ?m' = mt_size m + ?w ?e"
      using None old by (simp add: mt_size_Put)
    ultimately show ?thesis using size by simp
  next
    case (Some f)
    then have f: "f \<in> ?S" "Key f = k" "TxnId f = i"
      by (auto simp: find_Some_iff same_version_iff)
    have "{g \<in> ?S. \<not> (Key g = k \<and> TxnId g = i)} = ?S - {f}"
      using f ordered_unique [OF mt_entries_ordered [OF ok]] by (auto dest: unique_versionsD)
    moreover have "?e = f" if "?e \<in> ?S"
      using unique_versionsD [OF ordered_unique [OF mt_entries_ordered [OF ok]] that f(1)] f(2,3)
      by simp
    ultimately have "set (mt_entries bt ?m') = insert ?e (?S - {f})" "?e \<notin> ?S - {f}"
      using set_mt_entries_Put [OF ok, of m k v i] by auto
    then have "total_size (mt_entries bt ?m') = ?w ?e + (total_size (mt_entries bt m) - ?w f)"
      using f(1) by (simp add: total_size_set [OF d] sum_diff1)
    moreover have "mt_size ?m' = mt_size m + int (length v) - int (length (Value f))"
      using Some old by (simp add: mt_size_Put)
    ultimately show ?thesis using size f(2) by simp
  qed
qed

text \<open>
  The refinement of the tree by a map from versions to values: \<open>Put\<close> is the map update and
  \<open>Clear\<close> the empty map. The ordered list is determined by it.
\<close>

definition mt_map :: "'t btree \<Rightarrow> 't Memtable \<Rightarrow> string \<times> u64 \<rightharpoonup> string" where
  "mt_map bt m = vmap (mt_entries bt m)"

lemma mt_map_Some_iff:
  "btree_ok bt \<Longrightarrow> mt_map bt m (k, i) = Some v \<longleftrightarrow> mk_entry k v i \<in> set (mt_entries bt m)"
  by (simp add: mt_map_def vmap_Some_iff ordered_unique mt_entries_ordered)

lemma mt_map_Put:
  assumes "btree_ok bt"
  shows "mt_map bt (Memtable_Put bt m k v i) = (mt_map bt m)((k, i) \<mapsto> v)"
proof -
  have "mt_map bt (Memtable_Put bt m k v i) (k', i') = Some v' \<longleftrightarrow>
      ((mt_map bt m)((k, i) \<mapsto> v)) (k', i') = Some v'" for k' i' v'
    using mk_entry_def
    by (auto simp: mt_map_Some_iff [OF assms] set_mt_entries_Put [OF assms] mk_entry_def)
  then show ?thesis
    by (metis not_Some_eq option.exhaust surj_pair ext)
qed

lemma mt_map_New: "btree_ok bt \<Longrightarrow> mt_map bt (NewMemtable bt) = Map.empty"
  by (simp add: mt_map_def NewMemtable_def mt_entries_def btree_okD(1) vmap_def)

lemma mt_map_Clear: "btree_ok bt \<Longrightarrow> mt_map bt (Memtable_Clear bt m) = Map.empty"
  by (simp add: mt_map_def Memtable_Clear_def mt_entries_def btree_okD(6) vmap_def)

lemma mt_entries_eqI:
  assumes "btree_ok bt" "mt_map bt m = mt_map bt m'"
  shows "mt_entries bt m = mt_entries bt m'"
proof -
  have "mk_entry (Key e) (Value e) (TxnId e) \<in> set (mt_entries bt m) \<longleftrightarrow>
      mk_entry (Key e) (Value e) (TxnId e) \<in> set (mt_entries bt m')" for e :: Entry
    unfolding mt_map_Some_iff [OF assms(1), symmetric] by (simp only: assms(2))
  then have "set (mt_entries bt m) = set (mt_entries bt m')"
    by auto
  then show ?thesis
    by (intro ordered_set_eq mt_entries_ordered assms(1))
qed

section \<open>A concrete tree\<close>

text \<open>
  Ordered lists of entries satisfy what the package documents, so the hypothesis \<open>btree_ok\<close> can
  hold; examples are evaluated with this instance.
\<close>

typedef entry_tree = "{es. ordered es}"
  by (intro exI [of _ "[]"]) simp

setup_lifting type_definition_entry_tree

fun ins_entry :: "Entry \<Rightarrow> Entry list \<Rightarrow> Entry list" where
  "ins_entry e [] = [e]"
| "ins_entry e (f # fs) =
     (if Entry_Less e f then e # f # fs
      else if Entry_Less f e then f # ins_entry e fs
      else e # fs)"

lemma Entry_Less_total: "\<not> Entry_Less e f \<Longrightarrow> \<not> Entry_Less f e \<Longrightarrow> version_of e = version_of f"
  by (simp add: Entry_Less_iff)

lemma set_ins_entry:
  "ordered es \<Longrightarrow> set (ins_entry e es) = insert e {f \<in> set es. \<not> same_version e f}"
proof (induction es)
  case Nil
  then show ?case by simp
next
  case (Cons f fs)
  then have fs: "\<forall>g \<in> set fs. Entry_Less f g" by simp
  have "\<not> same_version e g" if "Entry_Less e f \<or> same_version e f" "g \<in> set fs" for g
    using that fs by (auto simp: same_version_def Entry_Less_iff)
  with Cons show ?case
    by (auto simp: same_version_def)
qed

lemma ordered_ins_entry: "ordered es \<Longrightarrow> ordered (ins_entry e es)"
proof (induction es)
  case Nil
  then show ?case by simp
next
  case (Cons f fs)
  then have "set (ins_entry e fs) = insert e {g \<in> set fs. \<not> same_version e g}"
    by (simp add: set_ins_entry)
  with Cons show ?case
    by (auto simp: Entry_Less_iff)
qed

lift_definition et_New :: entry_tree is "[]"
  by simp

lift_definition et_ins :: "entry_tree \<Rightarrow> Entry \<Rightarrow> entry_tree" is "\<lambda>es e. ins_entry e es"
  by (rule ordered_ins_entry)

lift_definition et_list :: "entry_tree \<Rightarrow> Entry list" is "\<lambda>es. es" .

definition list_btree :: "entry_tree btree" where
  "list_btree =
     \<lparr>bt_New = et_New,
      bt_ReplaceOrInsert = (\<lambda>t e. (et_ins t e, find (same_version e) (et_list t))),
      bt_Ascend = et_list,
      bt_AscendGreaterOrEqual = (\<lambda>t p. filter (\<lambda>e. \<not> Entry_Less e p) (et_list t)),
      bt_Clear = (\<lambda>t. et_New)\<rparr>"

lemma et_list_simps [simp]:
  "et_list et_New = []" "et_list (et_ins t e) = ins_entry e (et_list t)"
  by (simp_all add: et_list.rep_eq et_New.rep_eq et_ins.rep_eq)

lemma ordered_et_list: "ordered (et_list t)"
  using Rep_entry_tree [of t] by (simp add: et_list.rep_eq)

lemma list_btree_simps [simp]:
  "bt_New list_btree = et_New"
  "bt_ReplaceOrInsert list_btree t e = (et_ins t e, find (same_version e) (et_list t))"
  "bt_Ascend list_btree t = et_list t"
  "bt_AscendGreaterOrEqual list_btree t p = filter (\<lambda>e. \<not> Entry_Less e p) (et_list t)"
  "bt_Clear list_btree t = et_New"
  by (simp_all add: list_btree_def)

lemma list_btree_ok: "btree_ok list_btree"
  by (simp add: btree_ok_def ordered_et_list set_ins_entry)

section \<open>Properties of the memtable\<close>

lemma latest_version_map:
  assumes "unique_versions es"
  shows "map_option Value (latest_version k t a es) = Some v \<longleftrightarrow>
    (\<exists>i. vmap es (k, i) = Some v \<and> visible t a i \<and>
      (\<forall>j w. vmap es (k, j) = Some w \<and> visible t a j \<longrightarrow> j \<le> i))" (is "?L \<longleftrightarrow> ?R")
proof
  assume ?L
  then obtain e where e: "latest_version k t a es = Some e" "Value e = v" by auto
  note D = latest_version_SomeD [OF e(1)]
  have "mk_entry k v (TxnId e) = e"
    using D(2) e(2) mk_entry_eta [of e] by simp
  moreover have "j \<le> TxnId e" if "mk_entry k w j \<in> set es" "visible t a j" for j w
    using D(4) [of "mk_entry k w j"] that by simp
  ultimately show ?R
    using D by (intro exI [of _ "TxnId e"]) (auto simp: vmap_Some_iff [OF assms])
next
  assume ?R
  then obtain i where i: "mk_entry k v i \<in> set es" "visible t a i"
    and max: "\<And>j w. mk_entry k w j \<in> set es \<Longrightarrow> visible t a j \<Longrightarrow> j \<le> i"
    by (auto simp: vmap_Some_iff [OF assms])
  have "latest_version k t a es = Some (mk_entry k v i)"
  proof (rule latest_versionI [OF assms])
    fix f assume f: "f \<in> set es" "Key f = k" "visible t a (TxnId f)"
    have "mk_entry (Key f) (Value f) (TxnId f) \<in> set es"
      using f(1) by simp
    then have "mk_entry k (Value f) (TxnId f) \<in> set es"
      by (simp only: f(2))
    from max [OF this f(3)] show "TxnId f \<le> TxnId (mk_entry k v i)"
      by simp
  qed (use i in simp_all)
  then show ?L by simp
qed

text \<open>
  A read of the memtable returns the value of the visible version of the key with the largest
  transaction id, and reports "not found" exactly when no version of the key is visible.
\<close>

theorem Memtable_Get_correct:
  assumes "btree_ok bt"
  shows "(Memtable_Get bt m k t a = (v, True) \<longleftrightarrow>
      (\<exists>i. mt_map bt m (k, i) = Some v \<and> visible t a i \<and>
        (\<forall>j w. mt_map bt m (k, j) = Some w \<and> visible t a j \<longrightarrow> j \<le> i))) \<and>
    (Memtable_Get bt m k t a = (v, False) \<longleftrightarrow>
      v = '''' \<and> (\<forall>i w. mt_map bt m (k, i) = Some w \<longrightarrow> \<not> visible t a i))"
proof -
  have u: "unique_versions (mt_entries bt m)"
    by (rule ordered_unique [OF mt_entries_ordered [OF assms]])
  note lm = latest_version_map [OF u, of k t a v, folded mt_map_def]
  have "Memtable_Get bt m k t a = (v, True) \<longleftrightarrow>
      map_option Value (latest_version k t a (mt_entries bt m)) = Some v"
    by (auto simp: Memtable_Get_eq [OF assms] split: option.splits)
  moreover have "Memtable_Get bt m k t a = (v, False) \<longleftrightarrow>
      v = '''' \<and> latest_version k t a (mt_entries bt m) = None"
    by (auto simp: Memtable_Get_eq [OF assms] split: option.splits)
  moreover have "latest_version k t a (mt_entries bt m) = None \<longleftrightarrow>
      (\<forall>i w. mt_map bt m (k, i) = Some w \<longrightarrow> \<not> visible t a i)"
    unfolding latest_version_None mt_map_Some_iff [OF assms]
    by (metis mk_entry_eta mk_entry_simps)
  ultimately show ?thesis
    by (simp only: lm simp_thms)
qed

definition sample_memtable :: "entry_tree Memtable" where
  "sample_memtable = Memtable_Put list_btree (Memtable_Put list_btree
     (Memtable_Put list_btree (NewMemtable list_btree) ''k'' ''new'' 5) ''k'' ''old'' 1) ''ka'' ''x'' 2"

lemma sample_memtable_eval: "mt_entries list_btree sample_memtable =
    [mk_entry ''k'' ''old'' 1, mk_entry ''k'' ''new'' 5, mk_entry ''ka'' ''x'' 2]"
  by (simp add: sample_memtable_def mt_entries_def Memtable_Put_tree NewMemtable_def
      Entry_Less_def mk_entry_def)

theorem Memtable_Get_correct_witness:
  "Memtable_Get list_btree sample_memtable ''k'' 7 {5} = (''old'', True) \<and>
   Memtable_Get list_btree sample_memtable ''z'' 7 {5} = ('''', False)"
  unfolding Memtable_Get_correct [OF list_btree_ok, THEN conjunct1]
    Memtable_Get_correct [OF list_btree_ok, THEN conjunct2]
    mt_map_Some_iff [OF list_btree_ok] sample_memtable_eval visible_def
  by (auto simp: mk_entry_def)

text \<open>
  A prefix scan of the memtable maps every key with the prefix to what a read of that key
  returns, and contains no other key.
\<close>

theorem Memtable_PrefixScan_correct:
  assumes "btree_ok bt"
  shows "Memtable_PrefixScan bt m p t a k =
    (if prefix p k \<and> snd (Memtable_Get bt m k t a) then Some (fst (Memtable_Get bt m k t a)) else None)"
  using mem.scan_get [of "(bt, m)" p t a k] assms
  by (auto simp: mem_inv_def mem_scan_def mem_get_def split: prod.splits)

theorem Memtable_PrefixScan_correct_witness:
  "Memtable_PrefixScan list_btree sample_memtable ''k'' 7 {5} ''ka'' = Some ''x''"
  unfolding Memtable_PrefixScan_correct [OF list_btree_ok] Memtable_Get_eq [OF list_btree_ok]
    sample_memtable_eval
  by (simp add: latest_version_def candidates_def visible_def)

definition Memtable_Puts :: "'t btree \<Rightarrow> 't Memtable \<Rightarrow> (string \<times> string \<times> u64) list \<Rightarrow> 't Memtable" where
  "Memtable_Puts bt m puts = foldl (\<lambda>m (k, v, i). Memtable_Put bt m k v i) m puts"

lemma Memtable_Puts_simps [simp]:
  "Memtable_Puts bt m [] = m"
  "Memtable_Puts bt m ((k, v, i) # ps) = Memtable_Puts bt (Memtable_Put bt m k v i) ps"
  by (simp_all add: Memtable_Puts_def)

lemma Memtable_Puts_append:
  "Memtable_Puts bt m (ps @ qs) = Memtable_Puts bt (Memtable_Puts bt m ps) qs"
  by (simp add: Memtable_Puts_def)

lemma Memtable_Puts_size:
  "\<lbrakk>btree_ok bt; mt_size m = total_size (mt_entries bt m)\<rbrakk> \<Longrightarrow>
   mt_size (Memtable_Puts bt m ps) = total_size (mt_entries bt (Memtable_Puts bt m ps))"
  by (induction ps arbitrary: m) (auto simp: Memtable_Put_size)

lemma mt_size_New: "btree_ok bt \<Longrightarrow> mt_size (NewMemtable bt) = total_size (mt_entries bt (NewMemtable bt))"
  by (simp add: NewMemtable_def mt_entries_def btree_okD(1) total_size_def)

lemma Memtable_Puts_map:
  "btree_ok bt \<Longrightarrow>
   mt_map bt (Memtable_Puts bt m ps) = foldl (\<lambda>M (k, v, i). M((k, i) \<mapsto> v)) (mt_map bt m) ps"
  by (induction ps arbitrary: m) (auto simp: mt_map_Put)

text \<open>
  Any sequence of \<open>Put\<close>s is the sequence of updates of the map from (key, transaction id) to
  value, and the size that decides about flushing is the number of key and value bytes stored, each
  version counted once however often it was overwritten.
\<close>

theorem Memtable_Puts_correct:
  fixes bt :: "'t btree" and ps :: "(string \<times> string \<times> u64) list"
  assumes "btree_ok bt"
  defines "m \<equiv> Memtable_Puts bt (NewMemtable bt) ps"
  shows "mt_map bt m = foldl (\<lambda>M (k, v, i). M((k, i) \<mapsto> v)) Map.empty ps \<and>
    GetSize m = total_size (mt_entries bt m) \<and>
    (ShouldFlush m \<longleftrightarrow> total_size (mt_entries bt m) \<ge> 1000)"
proof -
  have "mt_size m = total_size (mt_entries bt m)"
    unfolding m_def by (rule Memtable_Puts_size [OF assms(1) mt_size_New [OF assms(1)]])
  then show ?thesis
    by (simp add: m_def GetSize_def ShouldFlush_def memtableSizeLimit_def
        Memtable_Puts_map [OF assms(1)] mt_map_New [OF assms(1)])
qed

theorem Memtable_Puts_correct_witness:
  "GetSize (Memtable_Puts list_btree (NewMemtable list_btree)
     [(''k'', ''old'', 1), (''k'', ''longer'', 1)]) = 7"
  using Memtable_Puts_correct [OF list_btree_ok, of "[(''k'', ''old'', 1), (''k'', ''longer'', 1)]"]
  by (simp add: mt_entries_def Memtable_Put_tree NewMemtable_def Entry_Less_def mk_entry_def total_size_def)

end
