(* ===== verification/SsTable.thy ===== *)
theory SsTable
  imports Codec Versions
begin

text \<open>
  The on-disk tables of \<open>sstable/sstable.go\<close> and \<open>sstable/manifest.go\<close>: the file format
  \<open>[data blocks][index block][footer]\<close>, writing a file from an iterator, rebuilding the in-memory
  index of a file, and opening a directory of files.

  The disk is a map from file names to contents, and the manifest is kept as the record that the
  code encodes as JSON. A Go file handle is its name: a handle is unusable once its file is closed
  and removed, which the code does together. Operating-system failures of table files are not
  modelled. \<open>ReadAt\<close> past the end fills what it can; the rest of a fresh buffer is zero.
\<close>

section \<open>State\<close>

record indexBlockEntry =
  ib_key :: string
  ib_offset :: nat

record manifest =
  NextFileId :: nat
  FileNames :: "string list"

record SsTable =
  dataFilesDirectory :: string
  firstLevelFiles :: "string list"
  indexOffsets :: "nat list"
  blockLength :: int
  indexBlocks :: "indexBlockEntry list list"
  st_manifest :: manifest
  skipIndex :: bool
  compacting :: bool

record SsTableConfig =
  cfg_DataFilesDirectory :: string
  cfg_BlockLength :: int
  cfg_SkipIndex :: bool

record disk =
  d_files :: "string \<rightharpoonup> bytes"
  d_manifests :: "string \<rightharpoonup> manifest"

definition defaultBlockLength :: int where
  "defaultBlockLength = 100"

definition dataFilesDefaultDirectory :: string where
  "dataFilesDefaultDirectory = ''data_files_sstable''"

definition manifestJsonFileName :: string where
  "manifestJsonFileName = ''manifest.json''"

section \<open>Writing a file\<close>



definition ssTableFilePath :: "string \<Rightarrow> nat \<Rightarrow> string" where
  "ssTableFilePath dir i = dir @ ''/'' @ fmt_nat i @ ''.log''"

text \<open>Opens the file of the next id for appending, creating it if it does not exist.\<close>

definition NewFile :: "SsTable \<Rightarrow> disk \<Rightarrow> string \<times> SsTable \<times> disk" where
  "NewFile st d =
     (let i = NextFileId (st_manifest st);
          st = st\<lparr>st_manifest := (st_manifest st)\<lparr>NextFileId := i + 1\<rparr>\<rparr>;
          path = ssTableFilePath (dataFilesDirectory st) i;
          content = (case d_files d path of None \<Rightarrow> [] | Some c \<Rightarrow> c)
      in (path, st, d\<lparr>d_files := (d_files d)(path \<mapsto> content)\<rparr>))"

text \<open>\<open>[64_bit_txnId][length_of_key][key][length_of_value][value]\<close>\<close>

definition encodeEntry :: "string \<Rightarrow> string \<Rightarrow> u64 \<Rightarrow> bytes" where
  "encodeEntry key value txnId =
     put_uint64 txnId @ put_uint32 (len32 key) @ key @ put_uint32 (len32 value) @ value"

text \<open>The variables of \<open>writeDataBlocks\<close> that its callback updates, and the bytes written so far.\<close>

record block_writer =
  bw_blockLength :: nat
  bw_blockStartOffset :: nat
  bw_blockFirstKey :: string
  bw_blockBuf :: bytes
  bw_offset :: nat
  bw_indexBlock :: "indexBlockEntry list"
  bw_written :: bytes

definition writeDataBlocks_callback ::
  "int \<Rightarrow> block_writer \<Rightarrow> string \<times> string \<times> u64 \<Rightarrow> block_writer" where
  "writeDataBlocks_callback stBlockLength s = (\<lambda>(key, value, txnId).
     let firstKey = (if bw_blockFirstKey s = '''' then key else bw_blockFirstKey s);
         entryBuf = encodeEntry key value txnId;
         offset = bw_offset s + length entryBuf;
         blockLen = bw_blockLength s + length entryBuf;
         blockBuf = bw_blockBuf s @ entryBuf
     in if int blockLen > stBlockLength
        then \<lparr>bw_blockLength = 0, bw_blockStartOffset = offset, bw_blockFirstKey = '''',
              bw_blockBuf = [], bw_offset = offset,
              bw_indexBlock = bw_indexBlock s @
                [\<lparr>ib_key = firstKey, ib_offset = bw_blockStartOffset s\<rparr>],
              bw_written = bw_written s @ blockBuf\<rparr>
        else s\<lparr>bw_blockLength := blockLen, bw_blockFirstKey := firstKey,
               bw_blockBuf := blockBuf, bw_offset := offset\<rparr>)"

definition block_writer_init :: block_writer where
  "block_writer_init = \<lparr>bw_blockLength = 0, bw_blockStartOffset = 0, bw_blockFirstKey = '''',
     bw_blockBuf = [], bw_offset = 0, bw_indexBlock = [], bw_written = []\<rparr>"

text \<open>The offset of the index block, the index block, and the bytes the calls wrote to the file.\<close>

definition writeDataBlocks ::
  "int \<Rightarrow> (string \<times> string \<times> u64) list \<Rightarrow> nat \<times> indexBlockEntry list \<times> bytes" where
  "writeDataBlocks stBlockLength calls =
     (let s = foldl (writeDataBlocks_callback stBlockLength) block_writer_init calls
      in if bw_blockFirstKey s \<noteq> ''''
         then (bw_offset s,
               bw_indexBlock s @ [\<lparr>ib_key = bw_blockFirstKey s, ib_offset = bw_blockStartOffset s\<rparr>],
               bw_written s @ bw_blockBuf s)
         else (bw_offset s, bw_indexBlock s, bw_written s))"

definition encodeIndexEntry :: "indexBlockEntry \<Rightarrow> bytes" where
  "encodeIndexEntry ib =
     put_uint32 (len32 (ib_key ib)) @ ib_key ib @ put_uint32 (word_of_nat (ib_offset ib))"

definition writeIndexBlock :: "indexBlockEntry list \<Rightarrow> bytes" where
  "writeIndexBlock indexBlock = concat (map encodeIndexEntry indexBlock)"

definition writeFooter :: "nat \<Rightarrow> bytes" where
  "writeFooter indexBlockStartOffset = put_uint32 (word_of_nat indexBlockStartOffset)"

text \<open>The bytes are appended to the content the file has (\<open>O_APPEND\<close>).\<close>

definition append_file :: "disk \<Rightarrow> string \<Rightarrow> bytes \<Rightarrow> disk" where
  "append_file d f bs =
     d\<lparr>d_files := (d_files d)(f \<mapsto> (case d_files d f of None \<Rightarrow> [] | Some c \<Rightarrow> c) @ bs)\<rparr>"

definition writeToFile ::
  "SsTable \<Rightarrow> disk \<Rightarrow> string \<Rightarrow> (string \<times> string \<times> u64) list \<Rightarrow> nat \<times> indexBlockEntry list \<times> disk" where
  "writeToFile st d f calls =
     (let (indexOffset, indexBlock, dataBytes) = writeDataBlocks (blockLength st) calls;
          tail = (if skipIndex st then [] else writeIndexBlock indexBlock @ writeFooter indexOffset)
      in (indexOffset, indexBlock, append_file d f (dataBytes @ tail)))"

definition manifestPath :: "string \<Rightarrow> string" where
  "manifestPath dir = dir @ ''/'' @ manifestJsonFileName"

definition saveManifest :: "SsTable \<Rightarrow> disk \<Rightarrow> disk" where
  "saveManifest st d =
     d\<lparr>d_manifests := (d_manifests d)(manifestPath (dataFilesDirectory st) \<mapsto> st_manifest st)\<rparr>"

definition SsTable_Write ::
  "SsTable \<Rightarrow> disk \<Rightarrow> string \<Rightarrow> (string \<times> string \<times> u64) list \<Rightarrow> SsTable \<times> disk" where
  "SsTable_Write st d f calls =
     (let (indexOffset, indexBlock, d) = writeToFile st d f calls;
          st = st\<lparr>firstLevelFiles := firstLevelFiles st @ [f]\<rparr>;
          st = (if skipIndex st then st else st\<lparr>indexBlocks := indexBlocks st @ [indexBlock]\<rparr>);
          st = st\<lparr>st_manifest := (st_manifest st)\<lparr>FileNames := FileNames (st_manifest st) @ [f]\<rparr>\<rparr>;
          st = st\<lparr>indexOffsets := indexOffsets st @ [indexOffset]\<rparr>
      in (st, saveManifest st d))"

section \<open>Reading a file\<close>

text \<open>
  \<open>file.ReadAt(buf, off)\<close> on a fresh buffer of \<open>n\<close> bytes: the buffer afterwards, and whether the
  call returned \<open>io.EOF\<close> because the file ended before the buffer was full.
\<close>

definition ReadAt :: "bytes \<Rightarrow> nat \<Rightarrow> nat \<Rightarrow> bytes \<times> bool" where
  "ReadAt content n off =
     (let got = take n (drop off content)
      in (got @ replicate (n - length got) (char_of (0::nat)), length got < n))"

text \<open>
  \<open>os.Stat\<close> of a missing file leaves \<open>info\<close> nil and \<open>info.Size()\<close> panics; a file of less than four
  bytes makes \<open>ReadAt\<close> fail on a negative offset.
\<close>

definition getIndexOffset :: "disk \<Rightarrow> string \<Rightarrow> u32 result" where
  "getIndexOffset d f =
     (case d_files d f of
        None \<Rightarrow> Panic
      | Some content \<Rightarrow>
          if int (length content) - 4 < 0 then Err ReadPastEnd
          else (case ReadAt content 4 (length content - 4) of
                  (buf, eof) \<Rightarrow> if eof then Err ReadPastEnd else Ok (get_uint32 buf)))"

text \<open>
  The loop over the index block. Slice expressions out of range panic; the two explicit checks
  report a truncated entry.
\<close>

function buildIndex_loop :: "bytes \<Rightarrow> nat \<Rightarrow> indexBlockEntry list \<Rightarrow> indexBlockEntry list result" where
  "buildIndex_loop buf i ssTableIndex =
     (if i < length buf then
        if length buf < i + 4 then Panic
        else let keyLength = unat (get_uint32 (slice buf i (i + 4))); i1 = i + 4
          in if i1 \<ge> length buf then Err IndexBlockCorrupted
             else if length buf < i1 + keyLength then Panic
             else let key = slice buf i1 (i1 + keyLength); i2 = i1 + keyLength
               in if i2 \<ge> length buf then Err IndexBlockCorrupted
                  else if length buf < i2 + 4 then Panic
                  else let off = get_uint32 (slice buf i2 (i2 + 4))
                    in buildIndex_loop buf (i2 + 4)
                         (ssTableIndex @ [\<lparr>ib_key = key, ib_offset = unat off\<rparr>])
      else Ok ssTableIndex)"
  by pat_completeness auto
termination
  by (relation "measure (\<lambda>(buf, i, _). length buf - i)") (auto simp: Let_def)

declare buildIndex_loop.simps [simp del]

definition buildIndexFromFile :: "disk \<Rightarrow> string \<Rightarrow> (nat \<times> indexBlockEntry list) result" where
  "buildIndexFromFile d f =
     (case d_files d f of
        None \<Rightarrow> Err (FileNotFound f)
      | Some content \<Rightarrow>
          rbind (getIndexOffset d f) (\<lambda>indexOffset.
            let fileSize = int (length content);
                indexBlockLength = (fileSize - 4) - int (unat indexOffset)
            in if indexBlockLength < 0 then Panic
               else (case ReadAt content (nat indexBlockLength) (unat indexOffset) of
                       (buf, eof) \<Rightarrow>
                         if eof then Err ReadPastEnd
                         else rbind (buildIndex_loop buf 0 []) (\<lambda>ssTableIndex.
                                Ok (unat indexOffset, ssTableIndex)))))"

fun buildIndexes :: "disk \<Rightarrow> string list \<Rightarrow> (nat list \<times> indexBlockEntry list list) result" where
  "buildIndexes d [] = Ok ([], [])"
| "buildIndexes d (f # fs) =
     rbind (buildIndexFromFile d f) (\<lambda>(indexOffset, ssTableIndex).
     rbind (buildIndexes d fs) (\<lambda>(offs, idxs). Ok (indexOffset # offs, ssTableIndex # idxs)))"

section \<open>Opening a directory\<close>

definition getManifest :: "string \<Rightarrow> disk \<Rightarrow> manifest" where
  "getManifest dir d =
     (case d_manifests d (manifestPath dir) of
        None \<Rightarrow> \<lparr>NextFileId = 0, FileNames = []\<rparr>
      | Some m \<Rightarrow> m)"

fun getAllFiles :: "disk \<Rightarrow> string list \<Rightarrow> string list result" where
  "getAllFiles d [] = Ok []"
| "getAllFiles d (p # ps) =
     (case d_files d p of
        None \<Rightarrow> Err (FileNotFound p)
      | Some _ \<Rightarrow> rbind (getAllFiles d ps) (\<lambda>fs. Ok (p # fs)))"

definition getDirectoryMetadata :: "string \<Rightarrow> disk \<Rightarrow> (manifest \<times> string list) result" where
  "getDirectoryMetadata dir d =
     (let m = getManifest dir d
      in rbind (getAllFiles d (FileNames m)) (\<lambda>files. Ok (m, files)))"

definition NewSsTable :: "SsTableConfig \<Rightarrow> disk \<Rightarrow> SsTable result" where
  "NewSsTable config d =
     (let dir = (if cfg_DataFilesDirectory config = '''' then dataFilesDefaultDirectory
                 else cfg_DataFilesDirectory config);
          bl = (if cfg_BlockLength config = 0 then defaultBlockLength else cfg_BlockLength config);
          st = \<lparr>dataFilesDirectory = dir, firstLevelFiles = [], indexOffsets = [], blockLength = bl,
                indexBlocks = [], st_manifest = \<lparr>NextFileId = 0, FileNames = []\<rparr>,
                skipIndex = cfg_SkipIndex config, compacting = False\<rparr>
      in rbind (getDirectoryMetadata dir d) (\<lambda>(m, files).
           let st = st\<lparr>firstLevelFiles := files, st_manifest := m\<rparr>
           in if skipIndex st then Ok st
              else rbind (buildIndexes d files) (\<lambda>(indexOffsets, indexBlocks).
                     Ok (st\<lparr>indexBlocks := indexBlocks, indexOffsets := indexOffsets\<rparr>))))"

section \<open>Entries of a data region\<close>

definition extractValueFromSsTable :: "bytes \<Rightarrow> nat \<Rightarrow> string result" where
  "extractValueFromSsTable buf i =
     (if length buf < i + 4 then Err SsTableDataBlockError
      else let keyLen = unat (get_uint32 (slice buf i (i + 4))); i = i + 4
        in if length buf < i + keyLen then Err SsTableDataBlockError
           else Ok (slice buf i (i + keyLen)))"

text \<open>
  One entry at offset \<open>i\<close>, as the three loops over data regions (lookup, prefix scan, compaction)
  read it, and the offset behind it.
\<close>

definition readSsTableEntry :: "bytes \<Rightarrow> nat \<Rightarrow> (Entry \<times> nat) result" where
  "readSsTableEntry buf i =
     (if length buf < i + 8 then Err TxnIdReadError
      else let txnId = get_uint64 (slice buf i (i + 8)); i = i + 8
        in rbind (extractValueFromSsTable buf i) (\<lambda>key.
           let i = i + (4 + length key)
           in rbind (extractValueFromSsTable buf i) (\<lambda>value.
              Ok (\<lparr>Key = key, Value = value, TxnId = txnId\<rparr>, i + (4 + length value)))))"

lemma readSsTableEntry_progress:
  "readSsTableEntry buf i = Ok (e, j) \<Longrightarrow> i + 16 \<le> j \<and> i < length buf"
  by (auto simp: readSsTableEntry_def rbind_Ok_iff Let_def split: if_splits)

text \<open>The loop of \<open>getValueFromSsTableDataBlock\<close> over the buffer it read.\<close>

function getValue_loop :: "string \<Rightarrow> u64 \<Rightarrow> u64 set \<Rightarrow> bytes \<Rightarrow> nat \<Rightarrow> string \<Rightarrow> string result" where
  "getValue_loop key readTxnId activeTxnMap buf i maxTxnIdValue =
     (if i < length buf then
        (case readSsTableEntry buf i of
           Err er \<Rightarrow> Err er
         | Panic \<Rightarrow> Panic
         | Ok (e, i) \<Rightarrow>
             let isTxnActive = TxnId e \<in> activeTxnMap
             in if Key e = key \<and> (TxnId e = readTxnId \<or> TxnId e < readTxnId \<and> \<not> isTxnActive)
                then getValue_loop key readTxnId activeTxnMap buf i (Value e)
                else if Key e > key then Ok maxTxnIdValue
                else getValue_loop key readTxnId activeTxnMap buf i maxTxnIdValue)
      else Ok maxTxnIdValue)"
  by pat_completeness auto
termination
  by (relation "measure (\<lambda>(_, _, _, buf, i, _). length buf - i)")
    (auto dest!: readSsTableEntry_progress)

declare getValue_loop.simps [simp del]

text \<open>A negative length panics in \<open>make\<close>.\<close>

definition getValueFromSsTableDataBlock ::
  "disk \<Rightarrow> string \<Rightarrow> string \<Rightarrow> nat \<Rightarrow> nat \<Rightarrow> u64 \<Rightarrow> u64 set \<Rightarrow> string result" where
  "getValueFromSsTableDataBlock d f key dataBlockStartOffset dataBlockEndOffset readTxnId activeTxnMap =
     (if dataBlockEndOffset < dataBlockStartOffset then Panic
      else case d_files d f of
        None \<Rightarrow> Err (FileNotFound f)
      | Some content \<Rightarrow>
          getValue_loop key readTxnId activeTxnMap
            (fst (ReadAt content (dataBlockEndOffset - dataBlockStartOffset) dataBlockStartOffset)) 0 '''')"

text \<open>Binary search for the last index entry whose key is at most \<open>key\<close>; \<open>-1\<close> if there is none.\<close>

function getLowerBound_loop :: "string \<Rightarrow> indexBlockEntry list \<Rightarrow> int \<Rightarrow> int \<Rightarrow> int \<Rightarrow> int" where
  "getLowerBound_loop key index low high lowerBoundSliceIndex =
     (if low \<le> high then
        let mid = low + (high - low) div 2
        in if ib_key (index ! nat mid) \<le> key
           then getLowerBound_loop key index (mid + 1) high mid
           else getLowerBound_loop key index low (mid - 1) lowerBoundSliceIndex
      else lowerBoundSliceIndex)"
  by pat_completeness auto
termination
  by (relation "measure (\<lambda>(_, _, low, high, _). nat (high - low + 1))") auto

declare getLowerBound_loop.simps [simp del]

definition getLowerBound :: "string \<Rightarrow> indexBlockEntry list \<Rightarrow> int" where
  "getLowerBound key index = getLowerBound_loop key index 0 (int (length index) - 1) (- 1)"

section \<open>Lookup and prefix scan\<close>

text \<open>
  The loop of \<open>Get\<close> over the files from index \<open>n - 1\<close> down to 0: newest to oldest. An empty value
  without an error continues with the next older file.
\<close>

fun SsTable_Get_loop :: "SsTable \<Rightarrow> disk \<Rightarrow> string \<Rightarrow> u64 \<Rightarrow> u64 set \<Rightarrow> nat \<Rightarrow> string result" where
  "SsTable_Get_loop st d key txnId activeTxnMap 0 = Ok ''''"
| "SsTable_Get_loop st d key txnId activeTxnMap (Suc i) =
     (if length (indexBlocks st) \<le> i then Panic
      else let f = firstLevelFiles st ! i;
               ssTableIndex = indexBlocks st ! i;
               lowerBoundSliceIndex = getLowerBound key ssTableIndex
        in if lowerBoundSliceIndex = - 1 then SsTable_Get_loop st d key txnId activeTxnMap i
           else if length (indexOffsets st) \<le> i then Panic
           else let endOffset = indexOffsets st ! i
             in case getValueFromSsTableDataBlock d f key
                       (ib_offset (ssTableIndex ! nat lowerBoundSliceIndex)) endOffset txnId activeTxnMap of
                  Ok value \<Rightarrow> if value = '''' then SsTable_Get_loop st d key txnId activeTxnMap i else Ok value
                | Err er \<Rightarrow> Err er
                | Panic \<Rightarrow> Panic)"

definition SsTable_Get :: "SsTable \<Rightarrow> disk \<Rightarrow> string \<Rightarrow> u64 \<Rightarrow> u64 set \<Rightarrow> string result" where
  "SsTable_Get st d key txnId activeTxnMap =
     SsTable_Get_loop st d key txnId activeTxnMap (length (firstLevelFiles st))"

record valueTxnId =
  vt_value :: string
  vt_txnId :: u64

function scan_loop ::
  "string \<Rightarrow> u64 \<Rightarrow> u64 set \<Rightarrow> bytes \<Rightarrow> nat \<Rightarrow> (string \<rightharpoonup> valueTxnId) \<Rightarrow> (string \<rightharpoonup> valueTxnId) result" where
  "scan_loop tableKey readTxnId activeTxnMap buf i tableMap =
     (if i < length buf then
        (case readSsTableEntry buf i of
           Err er \<Rightarrow> Err er
         | Panic \<Rightarrow> Panic
         | Ok (e, i) \<Rightarrow>
             let key = Key e; txnId = TxnId e
             in if prefix tableKey key then
                  let isTxnActive = txnId \<in> activeTxnMap;
                      newer = (case tableMap key of None \<Rightarrow> True | Some c \<Rightarrow> vt_txnId c < txnId)
                  in if newer \<and> (txnId = readTxnId \<or> txnId < readTxnId \<and> \<not> isTxnActive)
                     then scan_loop tableKey readTxnId activeTxnMap buf i
                            (tableMap(key \<mapsto> \<lparr>vt_value = Value e, vt_txnId = txnId\<rparr>))
                     else scan_loop tableKey readTxnId activeTxnMap buf i tableMap
                else
                  let keyPrefix = slice key 0 (min (length tableKey) (length key))
                  in if keyPrefix > tableKey then Ok tableMap
                     else scan_loop tableKey readTxnId activeTxnMap buf i tableMap)
      else Ok tableMap)"
  by pat_completeness auto
termination
  by (relation "measure (\<lambda>(_, _, _, buf, i, _). length buf - i)")
    (auto dest!: readSsTableEntry_progress)

declare scan_loop.simps [simp del]

definition sequentiallyScanTableAndUpdateMap ::
  "disk \<Rightarrow> string \<Rightarrow> string \<Rightarrow> nat \<Rightarrow> nat \<Rightarrow> (string \<rightharpoonup> valueTxnId) \<Rightarrow> u64 \<Rightarrow> u64 set \<Rightarrow>
   (string \<rightharpoonup> valueTxnId) result" where
  "sequentiallyScanTableAndUpdateMap d f tableKey dataBlockStartOffset fileEndOffset tableMap
       readTxnId activeTxnMap =
     (if fileEndOffset < dataBlockStartOffset then Panic
      else case d_files d f of
        None \<Rightarrow> Err (FileNotFound f)
      | Some content \<Rightarrow>
          scan_loop tableKey readTxnId activeTxnMap
            (fst (ReadAt content (fileEndOffset - dataBlockStartOffset) dataBlockStartOffset)) 0 tableMap)"

fun SsTable_PrefixScan_loop ::
  "SsTable \<Rightarrow> disk \<Rightarrow> string \<Rightarrow> u64 \<Rightarrow> u64 set \<Rightarrow> nat \<Rightarrow> (string \<rightharpoonup> valueTxnId) \<Rightarrow>
   (string \<rightharpoonup> valueTxnId) result" where
  "SsTable_PrefixScan_loop st d prefixKey readTxnId activeTxnMap 0 tableMap = Ok tableMap"
| "SsTable_PrefixScan_loop st d prefixKey readTxnId activeTxnMap (Suc i) tableMap =
     (if length (indexBlocks st) \<le> i then Panic
      else let f = firstLevelFiles st ! i;
               ssTableIndex = indexBlocks st ! i;
               lowerBoundSliceIndex = getLowerBound prefixKey ssTableIndex
        in if lowerBoundSliceIndex = - 1 \<and>
              (ssTableIndex = [] \<or> \<not> prefix prefixKey (ib_key (ssTableIndex ! 0)))
           then SsTable_PrefixScan_loop st d prefixKey readTxnId activeTxnMap i tableMap
           else let lowerBoundSliceIndex = (if lowerBoundSliceIndex = - 1 then 0 else lowerBoundSliceIndex)
             in if length (indexOffsets st) \<le> i then Panic
                else let endOffset = indexOffsets st ! i
                  in rbind (sequentiallyScanTableAndUpdateMap d f prefixKey
                              (ib_offset (ssTableIndex ! nat lowerBoundSliceIndex)) endOffset tableMap
                              readTxnId activeTxnMap)
                       (\<lambda>tableMap. SsTable_PrefixScan_loop st d prefixKey readTxnId activeTxnMap i tableMap))"

definition SsTable_PrefixScan ::
  "SsTable \<Rightarrow> disk \<Rightarrow> string \<Rightarrow> u64 \<Rightarrow> u64 set \<Rightarrow> (string \<rightharpoonup> valueTxnId) result" where
  "SsTable_PrefixScan st d prefixKey readTxnId activeTxnMap =
     SsTable_PrefixScan_loop st d prefixKey readTxnId activeTxnMap (length (firstLevelFiles st)) Map.empty"

end
