(* ===== verification/SsTableFormat.thy ===== *)
theory SsTableFormat
  imports SsTable
begin

text \<open>
  The table files as the code lays them out: a data region is a sequence of encoded entries cut
  into blocks, the index block names the first key and the offset of each block, and rebuilding the
  index of a file gives back the index that was written.
\<close>

section \<open>Entries as a codec\<close>

definition enc_entry :: "Entry \<Rightarrow> bytes" where
  "enc_entry e = encodeEntry (Key e) (Value e) (TxnId e)"

definition enc_entries :: "Entry list \<Rightarrow> bytes" where
  "enc_entries es = concat (map enc_entry es)"

definition calls_of :: "Entry list \<Rightarrow> (string \<times> string \<times> u64) list" where
  "calls_of es = map (\<lambda>e. (Key e, Value e, TxnId e)) es"

lemma enc_entry_eq:
  "enc_entry e = put_uint64 (TxnId e) @ lengthPrefixed (Key e) @ lengthPrefixed (Value e)"
  by (simp add: enc_entry_def encodeEntry_def lengthPrefixed_def)

lemma length_enc_entry: "length (enc_entry e) = 16 + length (Key e) + length (Value e)"
  by (simp add: enc_entry_eq)

lemma enc_entry_neq_Nil [simp]: "enc_entry e \<noteq> []"
  using length_enc_entry [of e] by auto

lemma enc_entries_simps [simp]:
  "enc_entries [] = []"
  "enc_entries (e # es) = enc_entry e @ enc_entries es"
  "enc_entries (es @ fs) = enc_entries es @ enc_entries fs"
  by (simp_all add: enc_entries_def)

definition read_lp :: "bytes \<Rightarrow> nat \<Rightarrow> (string \<times> nat) result" where
  "read_lp buf i = rbind (extractValueFromSsTable buf i) (\<lambda>s. Ok (s, i + (4 + length s)))"

lemma read_lp_eq:
  assumes "length buf < 2 ^ 32" "off \<le> length buf"
  shows "read_lp buf off = Ok (s, off') \<longleftrightarrow> readLengthPrefixedString buf off = Ok (s, off')"
proof (cases "length buf < off + 4")
  case True
  then show ?thesis
    by (auto simp: read_lp_def extractValueFromSsTable_def readLengthPrefixedString_def readUint32_def)
next
  case False
  let ?n = "get_uint32 (slice buf off (off + 4))"
  have "unat (word_of_nat (length buf - (off + 4)) :: u32) = length buf - (off + 4)"
  proof -
    have "length buf - (off + 4) < 2 ^ 32" using assms(1) by linarith
    then show ?thesis by (subst unat_of_nat) simp
  qed
  then have "word_of_nat (length buf - (off + 4)) < ?n \<longleftrightarrow> length buf - (off + 4) < unat ?n"
    unfolding word_less_nat_alt by (simp only:)
  also have "\<dots> \<longleftrightarrow> length buf < off + 4 + unat ?n"
    using False by linarith
  finally show ?thesis
    using False
    by (auto simp: read_lp_def extractValueFromSsTable_def readLengthPrefixedString_def readUint32_def
        Let_def)
qed

interpretation ext: codec lengthPrefixed read_lp
  by unfold_locales (simp add: read_lp_eq lps.dec_iff)

interpretation ext_kv: codec_pair lengthPrefixed read_lp lengthPrefixed read_lp
  by unfold_locales

lemma readSsTableEntry_Ok_iff:
  "readSsTableEntry buf i = Ok (e, j) \<longleftrightarrow>
    i + 8 \<le> length buf \<and> TxnId e = get_uint64 (slice buf i (i + 8)) \<and>
    rbind (read_lp buf (i + 8)) (\<lambda>(x, off). rbind (read_lp buf off) (\<lambda>(y, off). Ok ((x, y), off)))
      = Ok ((Key e, Value e), j)"
  by (cases e) (auto simp: readSsTableEntry_def read_lp_def rbind_Ok_iff Let_def split: if_splits)

interpretation entry: codec enc_entry readSsTableEntry
proof
  fix buf :: bytes and off off' :: nat and e :: Entry
  assume len: "length buf < 2 ^ 32" and off: "off \<le> length buf"
  show "readSsTableEntry buf off = Ok (e, off') \<longleftrightarrow>
      prefix (enc_entry e) (drop off buf) \<and> off' = off + length (enc_entry e)"
  proof (cases "off + 8 \<le> length buf")
    case True
    then have "length (slice buf off (off + 8)) = 8" by simp
    then have "TxnId e = get_uint64 (slice buf off (off + 8)) \<longleftrightarrow>
        slice buf off (off + 8) = put_uint64 (TxnId e)"
      using put_get_uint64 get_put_uint64 by metis
    also have "\<dots> \<longleftrightarrow> prefix (put_uint64 (TxnId e)) (drop off buf)"
      by (simp add: prefix_iff_slice)
    finally show ?thesis
      using True ext_kv.pair_iff [OF len True, of "(Key e, Value e)" off']
      by (simp add: readSsTableEntry_Ok_iff enc_entry_eq prefix_append_drop ac_simps)
  next
    case False
    then have "\<not> prefix (enc_entry e) (drop off buf)"
      using off by (auto simp: length_enc_entry dest!: prefix_length_le)
    with False show ?thesis
      by (simp add: readSsTableEntry_Ok_iff)
  qed
qed

section \<open>Blocks\<close>

text \<open>The index block of a data region cut into blocks, the first at offset \<open>off\<close>.\<close>

fun index_of :: "nat \<Rightarrow> Entry list list \<Rightarrow> indexBlockEntry list" where
  "index_of off [] = []"
| "index_of off (b # bs) =
     \<lparr>ib_key = Key (hd b), ib_offset = off\<rparr> # index_of (off + length (enc_entries b)) bs"

lemma index_of_append:
  "index_of off (bs @ cs) = index_of off bs @ index_of (off + length (enc_entries (concat bs))) cs"
  by (induction bs arbitrary: off) (auto simp: add.assoc)

lemma length_index_of [simp]: "length (index_of off bs) = length bs"
  by (induction bs arbitrary: off) auto

lemma index_of_nth:
  "j < length bs \<Longrightarrow> index_of off bs ! j =
     \<lparr>ib_key = Key (hd (bs ! j)), ib_offset = off + length (enc_entries (concat (take j bs)))\<rparr>"
proof (induction bs arbitrary: off j)
  case (Cons b bs)
  then show ?case by (cases j) (auto simp: add.assoc)
qed simp

text \<open>
  What the variables of \<open>writeDataBlocks\<close> mean after some calls: \<open>bs\<close> are the blocks written,
  \<open>cur\<close> is the block being filled.
\<close>

definition writer_inv :: "block_writer \<Rightarrow> Entry list list \<Rightarrow> Entry list \<Rightarrow> bool" where
  "writer_inv s bs cur \<longleftrightarrow>
     (\<forall>b \<in> set bs. b \<noteq> []) \<and>
     bw_written s = enc_entries (concat bs) \<and>
     bw_blockBuf s = enc_entries cur \<and>
     bw_offset s = length (enc_entries (concat bs @ cur)) \<and>
     bw_blockStartOffset s = length (enc_entries (concat bs)) \<and>
     bw_blockLength s = length (enc_entries cur) \<and>
     bw_indexBlock s = index_of 0 bs \<and>
     bw_blockFirstKey s = (if cur = [] then '''' else Key (hd cur))"

lemma writer_inv_init: "writer_inv block_writer_init [] []"
  by (simp add: writer_inv_def block_writer_init_def)

text \<open>
  The reference definition of the block structure: entries are collected until their encoding is
  longer than the block length; what is left at the end is the last block.
\<close>

fun cut_blocks :: "int \<Rightarrow> Entry list \<Rightarrow> Entry list \<Rightarrow> Entry list list" where
  "cut_blocks n cur [] = (if cur = [] then [] else [cur])"
| "cut_blocks n cur (e # es) =
     (if int (length (enc_entries (cur @ [e]))) > n then (cur @ [e]) # cut_blocks n [] es
      else cut_blocks n (cur @ [e]) es)"

definition blocks_of :: "int \<Rightarrow> Entry list \<Rightarrow> Entry list list" where
  "blocks_of n es = cut_blocks n [] es"

lemma concat_cut_blocks: "concat (cut_blocks n cur es) = cur @ es"
  by (induction es arbitrary: cur) auto

lemma cut_blocks_nonempty: "b \<in> set (cut_blocks n cur es) \<Longrightarrow> b \<noteq> []"
  by (induction es arbitrary: cur) (auto split: if_splits)

lemma blocks_of_simps [simp]:
  "concat (blocks_of n es) = es" "b \<in> set (blocks_of n es) \<Longrightarrow> b \<noteq> []"
  by (simp_all add: blocks_of_def concat_cut_blocks cut_blocks_nonempty)

lemma writer_inv_callback:
  assumes "writer_inv s bs cur" "Key e \<noteq> ''''" "\<forall>f \<in> set cur. Key f \<noteq> ''''"
  shows "writer_inv (writeDataBlocks_callback n s (Key e, Value e, TxnId e))
    (if int (length (enc_entries (cur @ [e]))) > n then bs @ [cur @ [e]] else bs)
    (if int (length (enc_entries (cur @ [e]))) > n then [] else cur @ [e])"
  using assms
  by (cases cur)
    (auto simp: writer_inv_def writeDataBlocks_callback_def Let_def index_of_append
      simp flip: enc_entry_def)

lemma writer_inv_run:
  assumes "writer_inv s bs cur" "\<forall>e \<in> set es. Key e \<noteq> ''''" "\<forall>f \<in> set cur. Key f \<noteq> ''''"
  shows "\<exists>bs' cur'. writer_inv (foldl (writeDataBlocks_callback n) s (calls_of es)) bs' cur' \<and>
    bs' @ (if cur' = [] then [] else [cur']) = bs @ cut_blocks n cur es \<and> (\<forall>f \<in> set cur'. Key f \<noteq> '''')"
  using assms
proof (induction es arbitrary: s bs cur)
  case Nil
  then show ?case by (auto simp: calls_of_def)
next
  case (Cons e es)
  define big where "big \<longleftrightarrow> int (length (enc_entries (cur @ [e]))) > n"
  let ?bs = "if big then bs @ [cur @ [e]] else bs" and ?cur = "if big then [] else cur @ [e]"
  have "Key e \<noteq> ''''" "\<forall>e \<in> set es. Key e \<noteq> ''''" "\<forall>f \<in> set ?cur. Key f \<noteq> ''''"
    using Cons.prems(2,3) by auto
  note IH = Cons.IH [OF writer_inv_callback [OF Cons.prems(1) this(1) Cons.prems(3), of n, folded big_def]
      this(2,3)]
  moreover have "?bs @ cut_blocks n ?cur es = bs @ cut_blocks n cur (e # es)"
    unfolding big_def by simp
  moreover have "calls_of (e # es) = (Key e, Value e, TxnId e) # calls_of es"
    by (simp add: calls_of_def)
  ultimately show ?case
    by (simp only: foldl.simps)
qed

text \<open>
  The result of \<open>writeDataBlocks\<close> on entries with non-empty keys: all entries are written in order,
  and the index block describes their partition into blocks.
\<close>

lemma writeDataBlocks_blocks:
  assumes "\<forall>e \<in> set es. Key e \<noteq> ''''"
  shows "writeDataBlocks n (calls_of es) =
    (length (enc_entries es), index_of 0 (blocks_of n es), enc_entries es)"
proof -
  let ?s = "foldl (writeDataBlocks_callback n) block_writer_init (calls_of es)"
  obtain bs cur where inv: "writer_inv ?s bs cur"
    and bs: "bs @ (if cur = [] then [] else [cur]) = blocks_of n es"
    and ne: "\<forall>f \<in> set cur. Key f \<noteq> ''''"
    using writer_inv_run [OF writer_inv_init assms, of n] by (auto simp: blocks_of_def)
  have es: "concat bs @ cur = es"
    using blocks_of_simps(1) [of n es] unfolding bs [symmetric] by (auto split: if_splits)
  show ?thesis
  proof (cases "cur = []")
    case True
    then show ?thesis
      using inv es bs by (auto simp: writeDataBlocks_def writer_inv_def)
  next
    case False
    then have "Key (hd cur) \<noteq> ''''" using ne by simp
    moreover have "blocks_of n es = bs @ [cur]" using bs False by simp
    ultimately show ?thesis
      using inv es False
      by (auto simp: writeDataBlocks_def writer_inv_def index_of_append)
  qed
qed

section \<open>Rebuilding the index of a file\<close>

lemma length_encodeIndexEntry: "length (encodeIndexEntry ib) = 8 + length (ib_key ib)"
  by (simp add: encodeIndexEntry_def)

lemma buildIndex_loop_entries:
  assumes "\<forall>ib \<in> set ibs. length (ib_key ib) < 2 ^ 32 \<and> ib_offset ib < 2 ^ 32"
  shows "buildIndex_loop (pre @ writeIndexBlock ibs) (length pre) acc = Ok (acc @ ibs)"
  using assms
proof (induction ibs arbitrary: pre acc)
  case Nil
  then show ?case by (simp add: writeIndexBlock_def buildIndex_loop.simps)
next
  case (Cons ib ibs)
  let ?k = "ib_key ib" and ?rest = "writeIndexBlock ibs"
  let ?buf = "pre @ put_uint32 (len32 ?k) @ ?k @ put_uint32 (word_of_nat (ib_offset ib)) @ ?rest"
  have buf: "pre @ writeIndexBlock (ib # ibs) = ?buf"
    by (simp add: writeIndexBlock_def encodeIndexEntry_def)
  have n: "unat (get_uint32 (slice ?buf (length pre) (length pre + 4))) = length ?k"
    using Cons.prems by (simp add: slice_put_uint32 unat_len32)
  have k: "slice ?buf (length pre + 4) (length pre + 4 + length ?k) = ?k"
    using slice_append_drop [of "length pre + 4" "pre @ put_uint32 (len32 ?k)" _ ?k] by simp
  have o: "get_uint32 (slice ?buf (length pre + 4 + length ?k) (8 + (length pre + length ?k))) =
      word_of_nat (ib_offset ib)"
    using slice_put_uint32 [of "pre @ put_uint32 (len32 ?k) @ ?k" "word_of_nat (ib_offset ib)" ?rest]
    by (simp add: add.commute add.left_commute)
  have off: "unat (word_of_nat (ib_offset ib) :: u32) = ib_offset ib"
    using Cons.prems by (simp add: unat_of_nat)
  have eta: "\<lparr>ib_key = ?k, ib_offset = ib_offset ib\<rparr> = ib"
    by (cases ib) simp
  have "buildIndex_loop ?buf (length pre) acc =
      buildIndex_loop ?buf (length pre + 4 + length ?k + 4) (acc @ [ib])"
    by (subst buildIndex_loop.simps) (simp add: Let_def n k o off eta)
  also have "\<dots> = Ok ((acc @ [ib]) @ ibs)"
    using Cons.IH [of "pre @ encodeIndexEntry ib" "acc @ [ib]"] Cons.prems
    by (simp add: encodeIndexEntry_def add.assoc)
  finally show ?case
    by (simp add: buf)
qed

text \<open>The file that holds entries \<open>es\<close> with index block \<open>ibs\<close>.\<close>

definition file_bytes :: "Entry list \<Rightarrow> indexBlockEntry list \<Rightarrow> bytes" where
  "file_bytes es ibs = enc_entries es @ writeIndexBlock ibs @ writeFooter (length (enc_entries es))"

lemma length_file_bytes:
  "length (file_bytes es ibs) = length (enc_entries es) + length (writeIndexBlock ibs) + 4"
  by (simp add: file_bytes_def writeFooter_def)

lemma ReadAt_middle: "n = length ys \<Longrightarrow> k = length xs \<Longrightarrow> ReadAt (xs @ ys @ zs) n k = (ys, False)"
  by (simp add: ReadAt_def)

lemma getIndexOffset_file:
  assumes "d_files d f = Some (file_bytes es ibs)" "length (file_bytes es ibs) < 2 ^ 32"
  shows "getIndexOffset d f = Ok (word_of_nat (length (enc_entries es)))"
proof -
  let ?body = "enc_entries es @ writeIndexBlock ibs"
  have "length (file_bytes es ibs) - 4 = length ?body"
    by (simp add: length_file_bytes)
  moreover have "ReadAt (file_bytes es ibs) 4 (length ?body) =
      (put_uint32 (word_of_nat (length (enc_entries es))), False)"
    using ReadAt_middle [of 4 "put_uint32 (word_of_nat (length (enc_entries es)))" "length ?body" ?body "[]"]
    by (simp add: file_bytes_def writeFooter_def)
  ultimately show ?thesis
    using assms(1) by (simp add: getIndexOffset_def length_file_bytes get_put_uint32)
qed

lemma index_small:
  assumes "length (writeIndexBlock ibs) < 2 ^ 32" "ib \<in> set ibs"
  shows "length (ib_key ib) < 2 ^ 32"
proof -
  have "length (encodeIndexEntry ib) \<le> length (writeIndexBlock ibs)"
    using assms(2) by (induction ibs) (auto simp: writeIndexBlock_def)
  then show ?thesis
    using assms(1) by (simp add: length_encodeIndexEntry)
qed

lemma buildIndexFromFile_file:
  assumes "d_files d f = Some (file_bytes es ibs)" "length (file_bytes es ibs) < 2 ^ 32"
    and "\<forall>ib \<in> set ibs. ib_offset ib < 2 ^ 32"
  shows "buildIndexFromFile d f = Ok (length (enc_entries es), ibs)"
proof -
  have lt: "length (enc_entries es) < 2 ^ 32" "length (writeIndexBlock ibs) < 2 ^ 32"
    using assms(2) by (simp_all add: length_file_bytes)
  have u: "unat (word_of_nat (length (enc_entries es)) :: u32) = length (enc_entries es)"
    using lt(1) by (simp add: unat_of_nat)
  have read: "ReadAt (file_bytes es ibs) (length (writeIndexBlock ibs)) (length (enc_entries es)) =
      (writeIndexBlock ibs, False)"
    by (simp add: file_bytes_def ReadAt_middle)
  have "\<forall>ib \<in> set ibs. length (ib_key ib) < 2 ^ 32 \<and> ib_offset ib < 2 ^ 32"
    using assms(3) index_small [OF lt(2)] by blast
  from buildIndex_loop_entries [OF this, of "[]" "[]"]
  have loop: "buildIndex_loop (writeIndexBlock ibs) 0 [] = Ok ibs"
    by simp
  have len: "int (length (file_bytes es ibs)) - 4 - int (length (enc_entries es)) =
      int (length (writeIndexBlock ibs))"
    by (simp add: length_file_bytes)
  have u': "uint (word_of_nat (length (enc_entries es)) :: u32) = int (length (enc_entries es))"
    using u by (metis of_nat_unat)
  show ?thesis
    using assms(1)
    by (simp add: buildIndexFromFile_def getIndexOffset_file [OF assms(1,2)] u u' len read loop Let_def)
      (simp add: length_file_bytes)
qed

lemma index_of_offsets:
  "ib \<in> set (index_of off bs) \<Longrightarrow> ib_offset ib \<le> off + length (enc_entries (concat bs))"
  by (induction bs arbitrary: off) (fastforce simp: add.assoc)+

section \<open>Table files and their invariant\<close>

text \<open>
  A table file as the development sees it: its name and its blocks. The arrays of the \<open>SsTable\<close>
  record are projections of a list of such files.
\<close>

record table_file =
  tf_name :: string
  tf_blocks :: "Entry list list"

definition tf_entries :: "table_file \<Rightarrow> Entry list" where
  "tf_entries tf = concat (tf_blocks tf)"

definition tf_offset :: "table_file \<Rightarrow> nat" where
  "tf_offset tf = length (enc_entries (tf_entries tf))"

definition tf_index :: "table_file \<Rightarrow> indexBlockEntry list" where
  "tf_index tf = index_of 0 (tf_blocks tf)"

definition tf_bytes :: "table_file \<Rightarrow> bytes" where
  "tf_bytes tf = file_bytes (tf_entries tf) (tf_index tf)"

definition file_ok :: "disk \<Rightarrow> table_file \<Rightarrow> bool" where
  "file_ok d tf \<longleftrightarrow>
     d_files d (tf_name tf) = Some (tf_bytes tf) \<and>
     length (tf_bytes tf) < 2 ^ 32 \<and>
     (\<forall>b \<in> set (tf_blocks tf). b \<noteq> []) \<and>
     ordered (tf_entries tf) \<and>
     (\<forall>e \<in> set (tf_entries tf). Key e \<noteq> '''')"

text \<open>
  The invariant of an \<open>SsTable\<close> and its disk: the in-memory arrays describe the files, the manifest
  lists them, their names are distinct, and every file of an id not handed out yet is absent.
\<close>

definition sst_inv :: "SsTable \<Rightarrow> disk \<Rightarrow> table_file list \<Rightarrow> bool" where
  "sst_inv st d tfs \<longleftrightarrow>
     \<not> skipIndex st \<and>
     firstLevelFiles st = map tf_name tfs \<and>
     indexOffsets st = map tf_offset tfs \<and>
     indexBlocks st = map tf_index tfs \<and>
     FileNames (st_manifest st) = map tf_name tfs \<and>
     (\<forall>tf \<in> set tfs. file_ok d tf) \<and>
     distinct (map tf_name tfs) \<and>
     (\<forall>i \<ge> NextFileId (st_manifest st). d_files d (ssTableFilePath (dataFilesDirectory st) i) = None)"

lemma file_ok_index:
  assumes "file_ok d tf"
  shows "buildIndexFromFile d (tf_name tf) = Ok (tf_offset tf, tf_index tf)"
proof -
  have "length (enc_entries (tf_entries tf)) < 2 ^ 32"
    using assms by (simp add: file_ok_def tf_bytes_def length_file_bytes)
  then have "\<forall>ib \<in> set (tf_index tf). ib_offset ib < 2 ^ 32"
    using index_of_offsets [of _ 0 "tf_blocks tf"]
    by (fastforce simp: tf_index_def tf_entries_def)
  with assms show ?thesis
    unfolding tf_offset_def
    by (intro buildIndexFromFile_file) (simp_all add: file_ok_def tf_bytes_def)
qed

lemma buildIndexes_files:
  "\<forall>tf \<in> set tfs. file_ok d tf \<Longrightarrow>
   buildIndexes d (map tf_name tfs) = Ok (map tf_offset tfs, map tf_index tfs)"
  by (induction tfs) (simp_all add: file_ok_index)

lemma getAllFiles_files:
  "\<forall>tf \<in> set tfs. file_ok d tf \<Longrightarrow> getAllFiles d (map tf_name tfs) = Ok (map tf_name tfs)"
  by (induction tfs) (simp_all add: file_ok_def)

text \<open>Opening reads the files that the manifest on the disk names, whatever else the directory holds.\<close>

lemma reopen_manifest:
  assumes "sst_inv st d tfs"
    and "d_manifests d (manifestPath (dataFilesDirectory st)) = Some m" "FileNames m = FileNames (st_manifest st)"
    and "dataFilesDirectory st \<noteq> ''''" and "blockLength st \<noteq> 0"
  shows "NewSsTable \<lparr>cfg_DataFilesDirectory = dataFilesDirectory st,
      cfg_BlockLength = blockLength st, cfg_SkipIndex = False\<rparr> d = Ok (st\<lparr>st_manifest := m, compacting := False\<rparr>)"
proof -
  have "\<forall>tf \<in> set tfs. file_ok d tf"
    using assms(1) by (simp add: sst_inv_def)
  note files = getAllFiles_files [OF this] buildIndexes_files [OF this]
  have "getDirectoryMetadata (dataFilesDirectory st) d = Ok (m, map tf_name tfs)"
    using assms(1-3) by (simp add: getDirectoryMetadata_def getManifest_def sst_inv_def files)
  then show ?thesis
    using assms(1,4,5) by (cases st) (simp add: NewSsTable_def sst_inv_def files)
qed

lemma reopen:
  assumes "sst_inv st d tfs"
    and "d_manifests d (manifestPath (dataFilesDirectory st)) = Some (st_manifest st)"
    and "dataFilesDirectory st \<noteq> ''''" and "blockLength st \<noteq> 0"
  shows "NewSsTable \<lparr>cfg_DataFilesDirectory = dataFilesDirectory st,
      cfg_BlockLength = blockLength st, cfg_SkipIndex = False\<rparr> d = Ok (st\<lparr>compacting := False\<rparr>)"
  using reopen_manifest [OF assms(1,2) refl assms(3,4)] by simp

text \<open>
  C30. Opening a directory again gives back the table that was closed: the files in the order of the
  manifest, and for each file exactly the index that was kept in memory when it was written.
\<close>

theorem NewSsTable_reopens:
  assumes "sst_inv st d tfs"
    and "d_manifests d (manifestPath (dataFilesDirectory st)) = Some (st_manifest st)"
    and "dataFilesDirectory st \<noteq> ''''" and "blockLength st \<noteq> 0"
  shows "NewSsTable \<lparr>cfg_DataFilesDirectory = dataFilesDirectory st,
      cfg_BlockLength = blockLength st, cfg_SkipIndex = False\<rparr> d = Ok (st\<lparr>compacting := False\<rparr>)"
  using assms by (rule reopen)

section \<open>Writing a new file\<close>

lemma ssTableFilePath_inject [simp]: "ssTableFilePath dir i = ssTableFilePath dir j \<longleftrightarrow> i = j"
  by (simp add: ssTableFilePath_def)

lemma writeIndexBlock_le:
  "\<forall>b \<in> set bs. b \<noteq> [] \<Longrightarrow> length (writeIndexBlock (index_of off bs)) \<le> length (enc_entries (concat bs))"
proof (induction bs arbitrary: off)
  case Nil
  then show ?case by (simp add: writeIndexBlock_def)
next
  case (Cons b bs)
  then obtain e es where b: "b = e # es" by (cases b) auto
  have "length (writeIndexBlock (index_of off (b # bs))) =
      8 + length (Key e) + length (writeIndexBlock (index_of (off + length (enc_entries b)) bs))"
    by (simp add: writeIndexBlock_def length_encodeIndexEntry b)
  also have "\<dots> \<le> 8 + length (Key e) + length (enc_entries (concat bs))"
    using Cons by simp
  also have "\<dots> \<le> length (enc_entries (concat (b # bs)))"
    by (simp add: b length_enc_entry)
  finally show ?case .
qed

definition new_file :: "SsTable \<Rightarrow> string \<Rightarrow> Entry list \<Rightarrow> table_file" where
  "new_file st f es = \<lparr>tf_name = f, tf_blocks = blocks_of (blockLength st) es\<rparr>"

lemma new_file_simps [simp]:
  "tf_name (new_file st f es) = f" "tf_entries (new_file st f es) = es"
  by (simp_all add: new_file_def tf_entries_def)

lemma writeToFile_new:
  assumes "\<not> skipIndex st" "d_files d f = Some []" "\<forall>e \<in> set es. Key e \<noteq> ''''"
  shows "writeToFile st d f (calls_of es) =
      (tf_offset (new_file st f es), tf_index (new_file st f es),
       d\<lparr>d_files := (d_files d)(f \<mapsto> tf_bytes (new_file st f es))\<rparr>)"
  using assms(1,2)
  by (simp add: writeToFile_def append_file_def tf_offset_def tf_index_def tf_bytes_def
      tf_entries_def file_bytes_def new_file_def writeDataBlocks_blocks [OF assms(3)])

lemma file_ok_frame:
  "file_ok d tf \<Longrightarrow> tf_name tf \<noteq> f \<Longrightarrow> file_ok (d\<lparr>d_files := (d_files d)(f \<mapsto> c)\<rparr>) tf"
  by (simp add: file_ok_def)

lemma new_file_small:
  assumes "2 * length (enc_entries es) + 4 < 2 ^ 32"
  shows "length (tf_bytes (new_file st f es)) < 2 ^ 32"
proof -
  have "length (tf_bytes (new_file st f es)) \<le> length (enc_entries es) + length (enc_entries es) + 4"
    using writeIndexBlock_le [of "blocks_of (blockLength st) es" 0]
    by (simp add: tf_bytes_def length_file_bytes tf_index_def new_file_def tf_entries_def)
  with assms show ?thesis by linarith
qed

lemma NewFile_fresh:
  assumes "sst_inv st d tfs" "NewFile st d = (f, st1, d1)"
  shows "f = ssTableFilePath (dataFilesDirectory st) (NextFileId (st_manifest st))"
    "f \<notin> set (map tf_name tfs)" "d_files d1 = (d_files d)(f \<mapsto> [])" "d_manifests d1 = d_manifests d"
    "st1 = st\<lparr>st_manifest := (st_manifest st)\<lparr>NextFileId := NextFileId (st_manifest st) + 1\<rparr>\<rparr>"
proof -
  have none: "d_files d (ssTableFilePath (dataFilesDirectory st) (NextFileId (st_manifest st))) = None"
    using assms(1) by (simp add: sst_inv_def)
  show f: "f = ssTableFilePath (dataFilesDirectory st) (NextFileId (st_manifest st))"
    and "d_files d1 = (d_files d)(f \<mapsto> [])" "d_manifests d1 = d_manifests d"
    "st1 = st\<lparr>st_manifest := (st_manifest st)\<lparr>NextFileId := NextFileId (st_manifest st) + 1\<rparr>\<rparr>"
    using assms(2) none by (auto simp: NewFile_def Let_def)
  show "f \<notin> set (map tf_name tfs)"
    using assms(1) none f by (auto simp: sst_inv_def file_ok_def)
qed

lemma sst_inv_flush:
  assumes inv: "sst_inv st d tfs"
    and es: "ordered es" "\<forall>e \<in> set es. Key e \<noteq> ''''" "2 * length (enc_entries es) + 4 < 2 ^ 32"
    and new: "NewFile st d = (f, st1, d1)"
    and wr: "SsTable_Write st1 d1 f (calls_of es) = (st2, d2)"
  shows "sst_inv st2 d2 (tfs @ [new_file st f es])"
    "d_manifests d2 (manifestPath (dataFilesDirectory st2)) = Some (st_manifest st2)"
    "dataFilesDirectory st2 = dataFilesDirectory st" "blockLength st2 = blockLength st"
    "compacting st2 = compacting st"
proof -
  note nf = NewFile_fresh [OF inv new]
  have "\<not> skipIndex st1" "d_files d1 f = Some []"
    using inv nf(3,5) by (simp_all add: sst_inv_def)
  note w = writeToFile_new [OF this es(2)]
  let ?tf = "new_file st f es"
  have tf: "new_file st1 f es = ?tf"
    by (simp add: new_file_def nf(5))
  have st2: "st2 = st1\<lparr>firstLevelFiles := firstLevelFiles st1 @ [f],
      indexBlocks := indexBlocks st1 @ [tf_index ?tf],
      st_manifest := (st_manifest st1)\<lparr>FileNames := FileNames (st_manifest st1) @ [f]\<rparr>,
      indexOffsets := indexOffsets st1 @ [tf_offset ?tf]\<rparr>"
    and d2: "d2 = saveManifest st2 (d1\<lparr>d_files := (d_files d1)(f \<mapsto> tf_bytes ?tf)\<rparr>)"
    using wr \<open>\<not> skipIndex st1\<close> by (auto simp: SsTable_Write_def w tf Let_def)
  have files2: "d_files d2 = (d_files d)(f \<mapsto> tf_bytes ?tf)"
    by (simp add: d2 saveManifest_def nf(3))
  have "\<forall>b \<in> set (tf_blocks ?tf). b \<noteq> []"
    by (auto simp: new_file_def)
  then have "file_ok d2 ?tf"
    using es new_file_small [OF es(3)] by (simp add: file_ok_def files2)
  moreover have "file_ok d2 tf" if "tf \<in> set tfs" for tf
    using that inv nf(2) by (auto simp: sst_inv_def file_ok_def files2)
  ultimately show "sst_inv st2 d2 (tfs @ [?tf])"
    using inv nf(1,2) by (auto simp: sst_inv_def st2 nf(5) files2)
  show "d_manifests d2 (manifestPath (dataFilesDirectory st2)) = Some (st_manifest st2)"
    "dataFilesDirectory st2 = dataFilesDirectory st" "blockLength st2 = blockLength st"
    "compacting st2 = compacting st"
    by (simp_all add: st2 d2 saveManifest_def nf(5))
qed

section \<open>A sample directory\<close>

text \<open>
  Two files written one after the other: the older one has two blocks, the newer one holds a later
  version of the key \<open>k\<close>. It shows that the invariant can hold.
\<close>

definition sample_files :: "table_file list" where
  "sample_files =
     [\<lparr>tf_name = ssTableFilePath ''d'' 0,
       tf_blocks = [[mk_entry ''a'' ''1'' 1, mk_entry ''k'' ''2'' 1], [mk_entry ''m'' ''3'' 2]]\<rparr>,
      \<lparr>tf_name = ssTableFilePath ''d'' 1,
       tf_blocks = [[mk_entry ''k'' ''4'' 3, mk_entry ''kk'' ''5'' 3]]\<rparr>]"

definition table_of :: "string \<Rightarrow> table_file list \<Rightarrow> SsTable" where
  "table_of dir tfs =
     \<lparr>dataFilesDirectory = dir, firstLevelFiles = map tf_name tfs, indexOffsets = map tf_offset tfs,
      blockLength = 100, indexBlocks = map tf_index tfs,
      st_manifest = \<lparr>NextFileId = length tfs, FileNames = map tf_name tfs\<rparr>,
      skipIndex = False, compacting = False\<rparr>"

definition disk_of :: "string \<Rightarrow> table_file list \<Rightarrow> disk" where
  "disk_of dir tfs =
     \<lparr>d_files = map_of (map (\<lambda>tf. (tf_name tf, tf_bytes tf)) tfs),
      d_manifests = [manifestPath dir \<mapsto> st_manifest (table_of dir tfs)]\<rparr>"

lemma table_of_inv:
  assumes "map tf_name tfs = map (ssTableFilePath dir) [0..<length tfs]"
    and "\<forall>tf \<in> set tfs. length (tf_bytes tf) < 2 ^ 32 \<and> (\<forall>b \<in> set (tf_blocks tf). b \<noteq> []) \<and>
      ordered (tf_entries tf) \<and> (\<forall>e \<in> set (tf_entries tf). Key e \<noteq> '''')"
  shows "sst_inv (table_of dir tfs) (disk_of dir tfs) tfs"
proof -
  have dist: "distinct (map tf_name tfs)"
    unfolding assms(1) by (simp add: distinct_map inj_on_def)
  then have "d_files (disk_of dir tfs) (tf_name tf) = Some (tf_bytes tf)" if "tf \<in> set tfs" for tf
    using that by (auto simp: disk_of_def map_of_eq_Some_iff comp_def)
  moreover have "d_files (disk_of dir tfs) (ssTableFilePath dir i) = None" if "length tfs \<le> i" for i
  proof -
    have "ssTableFilePath dir i \<notin> set (map tf_name tfs)"
      using that unfolding assms(1) by auto
    then show ?thesis
      by (auto simp: disk_of_def map_of_eq_None_iff)
  qed
  ultimately show ?thesis
    using assms(2) dist by (auto simp: sst_inv_def table_of_def file_ok_def)
qed

lemma sample_files_ok:
  "map tf_name sample_files = map (ssTableFilePath ''d'') [0..<length sample_files]"
  "\<forall>tf \<in> set sample_files. length (tf_bytes tf) < 2 ^ 32 \<and> (\<forall>b \<in> set (tf_blocks tf). b \<noteq> []) \<and>
      ordered (tf_entries tf) \<and> (\<forall>e \<in> set (tf_entries tf). Key e \<noteq> '''')"
  by (simp_all add: sample_files_def tf_bytes_def length_file_bytes tf_entries_def tf_index_def
      writeIndexBlock_def length_encodeIndexEntry length_enc_entry Entry_Less_def)

lemma sample_inv: "sst_inv (table_of ''d'' sample_files) (disk_of ''d'' sample_files) sample_files"
  by (rule table_of_inv) (rule sample_files_ok)+

theorem NewSsTable_reopens_witness:
  "NewSsTable \<lparr>cfg_DataFilesDirectory = ''d'', cfg_BlockLength = 100, cfg_SkipIndex = False\<rparr>
     (disk_of ''d'' sample_files) = Ok (table_of ''d'' sample_files)"
  using NewSsTable_reopens [OF sample_inv]
  by (simp add: table_of_def disk_of_def)

definition empty_table :: "int \<Rightarrow> SsTable" where
  "empty_table bl = (table_of ''d'' [])\<lparr>blockLength := bl\<rparr>"

lemma empty_table_inv: "sst_inv (empty_table bl) (disk_of ''d'' []) []"
  by (simp add: sst_inv_def empty_table_def table_of_def disk_of_def)

text \<open>A new file with some entries, as a flush writes it.\<close>

definition write_entries :: "SsTable \<times> disk \<Rightarrow> (string \<times> string \<times> u64) list \<Rightarrow> SsTable \<times> disk" where
  "write_entries s calls =
     (let (f, st, d) = NewFile (fst s) (snd s) in SsTable_Write st d f calls)"

lemma write_entries_manifest:
  assumes "write_entries (st, d) calls = (st', d')"
  shows "d_manifests d' (manifestPath (dataFilesDirectory st')) = Some (st_manifest st')"
  using assms
  by (auto simp: write_entries_def SsTable_Write_def saveManifest_def NewFile_def Let_def split_beta split: if_splits)

lemma write_entries_config:
  assumes "write_entries (st, d) calls = (st', d')"
  shows "compacting st' = compacting st" "dataFilesDirectory st' = dataFilesDirectory st" "blockLength st' = blockLength st"
proof -
  let ?st = "fst (write_entries (st, d) calls)"
  have "compacting ?st = compacting st" "dataFilesDirectory ?st = dataFilesDirectory st" "blockLength ?st = blockLength st"
    by (simp_all add: write_entries_def NewFile_def SsTable_Write_def Let_def split_beta)
  with assms show "compacting st' = compacting st" "dataFilesDirectory st' = dataFilesDirectory st"
    "blockLength st' = blockLength st" by simp_all
qed

section \<open>The block structure\<close>

lemma cut_blocks_sizes:
  assumes "cur = [] \<or> int (length (enc_entries cur)) \<le> n"
  shows "b \<in> set (cut_blocks n cur es) \<Longrightarrow> butlast b = [] \<or> int (length (enc_entries (butlast b))) \<le> n"
    and "b \<in> set (butlast (cut_blocks n cur es)) \<Longrightarrow> int (length (enc_entries b)) > n"
proof -
  have "(\<forall>b \<in> set (cut_blocks n cur es). butlast b = [] \<or> int (length (enc_entries (butlast b))) \<le> n) \<and>
      (\<forall>b \<in> set (butlast (cut_blocks n cur es)). int (length (enc_entries b)) > n)"
    using assms
  proof (induction es arbitrary: cur)
    case Nil
    have "length (enc_entries (butlast cur)) \<le> length (enc_entries cur)"
      by (cases cur rule: rev_cases) auto
    with Nil show ?case by auto
  next
    case (Cons e es)
    show ?case
    proof (cases "int (length (enc_entries (cur @ [e]))) > n")
      case True
      with Cons.IH [of "[]"] Cons.prems show ?thesis by auto
    next
      case False
      with Cons.IH [of "cur @ [e]"] show ?thesis by simp
    qed
  qed
  then show "b \<in> set (cut_blocks n cur es) \<Longrightarrow> butlast b = [] \<or> int (length (enc_entries (butlast b))) \<le> n"
    and "b \<in> set (butlast (cut_blocks n cur es)) \<Longrightarrow> int (length (enc_entries b)) > n"
    by blast+
qed

text \<open>
  Writing entries with non-empty keys loses nothing: the data region is the encoding of all of
  them in order, cut into blocks that are closed by the first entry that makes them longer than the
  block length, and the index names the first key and the byte offset of every block.
\<close>

theorem writeDataBlocks_partition:
  assumes "\<forall>e \<in> set es. Key e \<noteq> ''''"
  shows "\<exists>bs. writeDataBlocks n (calls_of es) = (length (enc_entries es), index_of 0 bs, enc_entries es) \<and>
    concat bs = es \<and>
    (\<forall>b \<in> set bs. b \<noteq> [] \<and> (butlast b = [] \<or> int (length (enc_entries (butlast b))) \<le> n)) \<and>
    (\<forall>b \<in> set (butlast bs). int (length (enc_entries b)) > n)"
proof -
  have sizes: "butlast b = [] \<or> int (length (enc_entries (butlast b))) \<le> n" if "b \<in> set (blocks_of n es)" for b
    using that cut_blocks_sizes(1) [of "[]"] by (simp add: blocks_of_def)
  have closed: "int (length (enc_entries b)) > n" if "b \<in> set (butlast (blocks_of n es))" for b
    using that cut_blocks_sizes(2) [of "[]"] by (simp add: blocks_of_def)
  from writeDataBlocks_blocks [OF assms, of n] show ?thesis
    by (intro exI [of _ "blocks_of n es"]) (use sizes closed in auto)
qed

theorem writeDataBlocks_partition_witness:
  "\<exists>bs. concat bs = [mk_entry ''a'' ''1'' 1, mk_entry ''b'' ''2'' 1] \<and>
    writeDataBlocks 17 [(''a'', ''1'', 1), (''b'', ''2'', 1)] = (36, index_of 0 bs,
      enc_entries [mk_entry ''a'' ''1'' 1, mk_entry ''b'' ''2'' 1])"
proof -
  let ?es = "[mk_entry ''a'' ''1'' 1, mk_entry ''b'' ''2'' 1]"
  have "\<forall>e \<in> set ?es. Key e \<noteq> ''''" by simp
  from writeDataBlocks_partition [OF this, of 17] show ?thesis
    by (auto simp: calls_of_def length_enc_entry)
qed

text \<open>
  The key condition is needed, because the writer uses the empty string for "no first key yet": a
  file whose only entry has the empty key gets no data block at all while its footer points behind
  the bytes that were not written. Reading the key finds nothing and reopening the directory panics.
\<close>

theorem empty_key_breaks_file:
  "case write_entries (empty_table 100, disk_of ''d'' []) [('''', ''v'', 1)] of (st, d) \<Rightarrow>
     SsTable_Get st d '''' 1 {} = Ok '''' \<and>
     NewSsTable \<lparr>cfg_DataFilesDirectory = ''d'', cfg_BlockLength = 100, cfg_SkipIndex = False\<rparr> d = Panic"
proof -
  let ?f = "ssTableFilePath ''d'' 0"
  have data: "writeDataBlocks 100 [('''', ''v'', 1)] = (17, [], [])"
    by (simp add: writeDataBlocks_def writeDataBlocks_callback_def block_writer_init_def encodeEntry_def Let_def)
  obtain st d where w: "write_entries (empty_table 100, disk_of ''d'' []) [('''', ''v'', 1)] = (st, d)"
    by (metis prod.exhaust)
  have d: "d_files d = [?f \<mapsto> put_uint32 17]" "d_manifests d = [manifestPath ''d'' \<mapsto> \<lparr>NextFileId = 1, FileNames = [?f]\<rparr>]"
    and st: "firstLevelFiles st = [?f]" "indexBlocks st = [[]]"
    using w data
    by (auto simp: write_entries_def NewFile_def SsTable_Write_def writeToFile_def empty_table_def
        table_of_def disk_of_def append_file_def saveManifest_def writeIndexBlock_def writeFooter_def Let_def)
  have "SsTable_Get st d '''' 1 {} = Ok ''''"
    by (simp add: SsTable_Get_def st getLowerBound_def getLowerBound_loop.simps)
  moreover have "buildIndexFromFile d ?f = Panic"
    by (simp add: buildIndexFromFile_def getIndexOffset_def ReadAt_def d get_put_uint32)
  then have "NewSsTable \<lparr>cfg_DataFilesDirectory = ''d'', cfg_BlockLength = 100, cfg_SkipIndex = False\<rparr> d = Panic"
    by (simp add: NewSsTable_def getDirectoryMetadata_def getManifest_def d)
  ultimately show ?thesis by (simp add: w)
qed

end
