(* ===== verification/SsTableRead.thy ===== *)
theory SsTableRead
  imports SsTableFormat
begin

text \<open>
  What lookups and prefix scans of the tables return: the binary search, one file, all files from
  the newest to the oldest.
\<close>

section \<open>The binary search\<close>

text \<open>
  If exactly the first \<open>n\<close> entries have a key at most \<open>key\<close>, the search ends with \<open>n - 1\<close>: between
  the iterations \<open>low \<le> n \<le> high + 1\<close> and the candidate is \<open>low - 1\<close>.
\<close>

lemma getLowerBound_loop_eq:
  "\<lbrakk>\<forall>i < length index. ib_key (index ! i) \<le> key \<longleftrightarrow> i < n;
    0 \<le> low; low \<le> int n; int n \<le> high + 1; high < int (length index); lb = low - 1\<rbrakk> \<Longrightarrow>
   getLowerBound_loop key index low high lb = int n - 1"
proof (induction key index low high lb rule: getLowerBound_loop.induct)
  case (1 key index low high lb)
  show ?case
  proof (cases "low \<le> high")
    case False
    with "1.prems" show ?thesis by (subst getLowerBound_loop.simps) simp
  next
    case True
    define mid where "mid = low + (high - low) div 2"
    have mid: "low \<le> mid" "mid \<le> high"
      using True by (auto simp: mid_def)
    then have at_mid: "ib_key (index ! nat mid) \<le> key \<longleftrightarrow> mid < int n"
      using "1.prems" by (simp add: nat_less_iff)
    show ?thesis
    proof (cases "mid < int n")
      case True
      with "1.IH"(1) [OF \<open>low \<le> high\<close> mid_def] "1.prems" mid at_mid \<open>low \<le> high\<close> show ?thesis
        by (subst getLowerBound_loop.simps) (simp flip: mid_def)
    next
      case False
      with "1.IH"(2) [OF \<open>low \<le> high\<close> mid_def] "1.prems" mid at_mid \<open>low \<le> high\<close> show ?thesis
        by (subst getLowerBound_loop.simps) (simp flip: mid_def)
    qed
  qed
qed

lemma sorted_filter_le:
  "sorted (map f xs) \<Longrightarrow> i < length xs \<Longrightarrow> f (xs ! i) \<le> k \<longleftrightarrow> i < length (filter (\<lambda>x. f x \<le> k) xs)"
proof (induction xs arbitrary: i)
  case Nil
  then show ?case by simp
next
  case (Cons x xs)
  show ?case
  proof (cases "f x \<le> k")
    case True
    with Cons show ?thesis by (cases i) auto
  next
    case False
    then have "filter (\<lambda>x. f x \<le> k) (x # xs) = []"
      using Cons.prems(1) by (auto simp: filter_empty_conv)
    moreover have "f x \<le> f ((x # xs) ! i)"
      using Cons.prems by (cases i) auto
    ultimately show ?thesis using False by auto
  qed
qed

lemma getLowerBound_eq:
  assumes "sorted (map ib_key index)"
  shows "getLowerBound key index = int (length (filter (\<lambda>ib. ib_key ib \<le> key) index)) - 1"
  unfolding getLowerBound_def
  using sorted_filter_le [OF assms] length_filter_le [of "\<lambda>ib. ib_key ib \<le> key" index]
  by (intro getLowerBound_loop_eq) auto

text \<open>
  The binary search terminates on every index (its definition is total) and on a sorted one
  returns the position of the last entry whose key is at most the key searched for, and \<open>-1\<close>
  exactly when there is none.
\<close>

theorem getLowerBound_correct:
  fixes key :: string and index :: "indexBlockEntry list"
  assumes "sorted (map ib_key index)"
  defines "r \<equiv> getLowerBound key index"
  shows "- 1 \<le> r \<and> r < int (length index) \<and>
    (\<forall>i. i < length index \<longrightarrow> (ib_key (index ! i) \<le> key \<longleftrightarrow> int i \<le> r))"
proof -
  let ?n = "length (filter (\<lambda>ib. ib_key ib \<le> key) index)"
  have "r = int ?n - 1"
    unfolding r_def by (rule getLowerBound_eq [OF assms(1)])
  moreover have "?n \<le> length index"
    by (rule length_filter_le)
  ultimately have "- 1 \<le> r \<and> r < int (length index)"
    by linarith
  then show ?thesis
    using sorted_filter_le [OF assms(1)] \<open>r = int ?n - 1\<close> by auto
qed

theorem getLowerBound_correct_witness:
  "getLowerBound ''c'' [\<lparr>ib_key = ''a'', ib_offset = 0\<rparr>, \<lparr>ib_key = ''b'', ib_offset = 20\<rparr>,
     \<lparr>ib_key = ''d'', ib_offset = 40\<rparr>] = 1"
proof -
  let ?ix = "[\<lparr>ib_key = ''a'', ib_offset = 0\<rparr>, \<lparr>ib_key = ''b'', ib_offset = 20\<rparr>,
     \<lparr>ib_key = ''d'', ib_offset = 40\<rparr>]"
  have "sorted (map ib_key ?ix)" by simp
  note c = getLowerBound_correct [OF this, of "''c''"]
  from c have "\<not> 2 \<le> getLowerBound ''c'' ?ix"
    by (auto dest: spec [of _ 2])
  moreover from c have "1 \<le> getLowerBound ''c'' ?ix"
    by (auto dest: spec [of _ 1])
  ultimately show ?thesis by simp
qed

section \<open>Lookup in one file\<close>

lemma readSsTableEntry_entries:
  assumes "length (pre @ enc_entries (e # es)) < 2 ^ 32"
  shows "readSsTableEntry (pre @ enc_entry e @ enc_entries es) (length pre) =
    Ok (e, length (pre @ enc_entry e))"
  using entry.dec_enc [of pre e "enc_entries es"] assms by simp

text \<open>The scan of a data region returns the last version that the reader sees.\<close>

lemma getValue_loop_entries:
  assumes "ordered es" "length (pre @ enc_entries es) < 2 ^ 32"
  shows "getValue_loop k t a (pre @ enc_entries es) (length pre) v =
    Ok (case candidates k t a es of [] \<Rightarrow> v | cs \<Rightarrow> Value (last cs))"
  using assms
proof (induction es arbitrary: pre v)
  case Nil
  then show ?case by (simp add: getValue_loop.simps candidates_def)
next
  case (Cons e es)
  let ?buf = "pre @ enc_entry e @ enc_entries es"
  have step: "getValue_loop k t a ?buf (length pre) v =
      (if Key e = k \<and> visible t a (TxnId e) then getValue_loop k t a ?buf (length (pre @ enc_entry e)) (Value e)
       else if Key e > k then Ok v else getValue_loop k t a ?buf (length (pre @ enc_entry e)) v)"
  proof -
    have "length pre < length ?buf"
      by (simp add: length_enc_entry)
    then show ?thesis
      using readSsTableEntry_entries [OF Cons.prems(2)]
      by (subst getValue_loop.simps) (simp add: visible_def Let_def del: length_append)
  qed
  have IH: "getValue_loop k t a ?buf (length (pre @ enc_entry e)) w =
      Ok (case candidates k t a es of [] \<Rightarrow> w | cs \<Rightarrow> Value (last cs))" for w
    using Cons.IH [of "pre @ enc_entry e" w] Cons.prems by simp
  have "candidates k t a (e # es) = []" if "Key e > k"
    using that ordered_Key_ge [OF Cons.prems(1)] by (auto simp: candidates_def filter_empty_conv)
  then show ?case
    unfolding enc_entries_simps step IH
    by (auto simp: candidates_def split: list.splits)
qed

text \<open>
  The entries that a lookup of \<open>k\<close> in a file can reach: those from the last block whose first key is
  at most \<open>k\<close>.
\<close>

definition block_count :: "string \<Rightarrow> table_file \<Rightarrow> nat" where
  "block_count k tf = length (filter (\<lambda>b. Key (hd b) \<le> k) (tf_blocks tf))"

definition tf_from :: "string \<Rightarrow> table_file \<Rightarrow> Entry list" where
  "tf_from k tf =
     (if block_count k tf = 0 then [] else concat (drop (block_count k tf - 1) (tf_blocks tf)))"

lemma sorted_first_keys:
  "\<lbrakk>ordered (concat bs); \<forall>b \<in> set bs. b \<noteq> []\<rbrakk> \<Longrightarrow> sorted (map (\<lambda>b. Key (hd b)) bs)"
proof (induction bs)
  case Nil
  then show ?case by simp
next
  case (Cons b bs)
  then have "Key (hd b) \<le> Key (hd c)" if "c \<in> set bs" for c
  proof -
    have "hd b \<in> set b" "hd c \<in> set (concat bs)"
      using Cons.prems(2) that by (auto intro: bexI [of _ c])
    then show ?thesis
      using Cons.prems(1) Entry_Less_Key by (auto simp: sorted_wrt_append)
  qed
  then show ?case
    using Cons by (auto simp: sorted_wrt_append)
qed

lemma map_ib_key_index: "map ib_key (index_of off bs) = map (\<lambda>b. Key (hd b)) bs"
  by (induction bs arbitrary: off) auto

lemma tf_index_sorted: "file_ok d tf \<Longrightarrow> sorted (map ib_key (tf_index tf))"
  using sorted_first_keys [of "tf_blocks tf"]
  by (simp add: file_ok_def tf_index_def tf_entries_def map_ib_key_index)

lemma getLowerBound_file:
  assumes "file_ok d tf"
  shows "getLowerBound k (tf_index tf) = int (block_count k tf) - 1"
proof -
  have "length (filter (\<lambda>ib. ib_key ib \<le> k) (tf_index tf)) =
      length (filter (\<lambda>x. x \<le> k) (map ib_key (tf_index tf)))"
    by (simp add: filter_map comp_def)
  also have "\<dots> = block_count k tf"
    by (simp add: tf_index_def map_ib_key_index block_count_def filter_map comp_def)
  finally show ?thesis
    by (simp add: getLowerBound_eq [OF tf_index_sorted [OF assms]])
qed

text \<open>The buffer that is read from the start of block \<open>j\<close> to the index block.\<close>

lemma data_from_block:
  assumes "file_ok d tf" "j < length (tf_blocks tf)"
  defines "off \<equiv> ib_offset (tf_index tf ! j)"
  shows "off \<le> tf_offset tf"
    "fst (ReadAt (tf_bytes tf) (tf_offset tf - off) off) = enc_entries (concat (drop j (tf_blocks tf)))"
proof -
  let ?pre = "enc_entries (concat (take j (tf_blocks tf)))"
  let ?data = "enc_entries (concat (drop j (tf_blocks tf)))"
  have off: "off = length ?pre"
    using assms(2) by (simp add: off_def tf_index_def index_of_nth)
  have all: "enc_entries (tf_entries tf) = ?pre @ ?data"
    unfolding tf_entries_def
    by (metis append_take_drop_id concat_append enc_entries_simps(3))
  then show "off \<le> tf_offset tf"
    by (simp add: tf_offset_def off)
  show "fst (ReadAt (tf_bytes tf) (tf_offset tf - off) off) = ?data"
    by (simp add: tf_bytes_def file_bytes_def tf_offset_def all off ReadAt_middle)
qed

lemma tf_from_small:
  assumes "file_ok d tf"
  shows "length (enc_entries (concat (drop j (tf_blocks tf)))) < 2 ^ 32"
proof -
  have "tf_offset tf = length (enc_entries (concat (take j (tf_blocks tf)) @ concat (drop j (tf_blocks tf))))"
    unfolding tf_offset_def tf_entries_def
    by (metis append_take_drop_id concat_append)
  then have "length (enc_entries (concat (drop j (tf_blocks tf)))) \<le> length (tf_bytes tf)"
    by (simp add: tf_bytes_def length_file_bytes tf_offset_def)
  with assms show ?thesis
    by (simp add: file_ok_def)
qed

lemma drop_blocks_ordered:
  assumes "file_ok d tf"
  shows "ordered (concat (drop j (tf_blocks tf)))"
proof -
  have "ordered (concat (take j (tf_blocks tf)) @ concat (drop j (tf_blocks tf)))"
    using assms unfolding file_ok_def tf_entries_def
    by (metis append_take_drop_id concat_append)
  then show ?thesis
    by (simp add: sorted_wrt_append)
qed

definition file_value :: "string \<Rightarrow> u64 \<Rightarrow> u64 set \<Rightarrow> table_file \<Rightarrow> string" where
  "file_value k t a tf = (case latest_version k t a (tf_from k tf) of None \<Rightarrow> '''' | Some e \<Rightarrow> Value e)"

lemma block_count_le: "block_count k tf \<le> length (tf_blocks tf)"
  by (simp add: block_count_def)

lemma tf_from_ordered: "file_ok d tf \<Longrightarrow> ordered (tf_from k tf)"
  by (simp add: tf_from_def drop_blocks_ordered)

lemma getValueFromSsTableDataBlock_file:
  assumes "file_ok d tf" "block_count k tf \<noteq> 0"
  shows "getValueFromSsTableDataBlock d (tf_name tf) k
      (ib_offset (tf_index tf ! (block_count k tf - 1))) (tf_offset tf) t a = Ok (file_value k t a tf)"
proof -
  let ?j = "block_count k tf - 1"
  have "?j < length (tf_blocks tf)"
    using assms(2) block_count_le [of k tf] by linarith
  note data = data_from_block [OF assms(1) this]
  have "getValue_loop k t a ([] @ enc_entries (concat (drop ?j (tf_blocks tf)))) (length ([] :: bytes)) '''' =
      Ok (case candidates k t a (concat (drop ?j (tf_blocks tf))) of [] \<Rightarrow> '''' | cs \<Rightarrow> Value (last cs))"
    using tf_from_small [OF assms(1)] drop_blocks_ordered [OF assms(1)]
    by (intro getValue_loop_entries) simp_all
  also have "\<dots> = Ok (file_value k t a tf)"
    using assms(2) latest_version_ordered [OF tf_from_ordered [OF assms(1)], of k t a k]
    by (simp add: file_value_def tf_from_def split: list.splits)
  finally show ?thesis
    using assms(1) data
    by (simp add: getValueFromSsTableDataBlock_def file_ok_def)
qed

fun first_nonempty :: "string list \<Rightarrow> string" where
  "first_nonempty [] = ''''"
| "first_nonempty (v # vs) = (if v = '''' then first_nonempty vs else v)"

lemma sst_inv_nth:
  assumes "sst_inv st d tfs" "i < length tfs"
  shows "file_ok d (tfs ! i)" "firstLevelFiles st ! i = tf_name (tfs ! i)"
    "indexBlocks st ! i = tf_index (tfs ! i)" "indexOffsets st ! i = tf_offset (tfs ! i)"
    "length (indexBlocks st) = length tfs" "length (indexOffsets st) = length tfs"
    "length (firstLevelFiles st) = length tfs"
  using assms by (auto simp: sst_inv_def)

lemma file_value_no_block: "block_count k tf = 0 \<Longrightarrow> file_value k t a tf = ''''"
  by (simp add: file_value_def tf_from_def latest_version_def candidates_def)

lemma SsTable_Get_loop_eq:
  assumes "sst_inv st d tfs" "n \<le> length tfs"
  shows "SsTable_Get_loop st d k t a n = Ok (first_nonempty (map (file_value k t a) (rev (take n tfs))))"
  using assms(2)
proof (induction n)
  case 0
  then show ?case by simp
next
  case (Suc i)
  then have i: "i < length tfs" by simp
  note nth = sst_inv_nth [OF assms(1) i]
  have rev: "rev (take (Suc i) tfs) = tfs ! i # rev (take i tfs)"
    using i by (simp add: take_Suc_conv_app_nth)
  have IH: "SsTable_Get_loop st d k t a i = Ok (first_nonempty (map (file_value k t a) (rev (take i tfs))))"
    using Suc by simp
  note lb = getLowerBound_file [OF nth(1), of k]
  show ?case
  proof (cases "block_count k (tfs ! i) = 0")
    case True
    then show ?thesis
      using i by (simp add: nth lb rev IH file_value_no_block)
  next
    case False
    then have "nat (int (block_count k (tfs ! i)) - 1) = block_count k (tfs ! i) - 1"
      by linarith
    with False show ?thesis
      using i getValueFromSsTableDataBlock_file [OF nth(1) False, of t a]
      by (simp add: nth lb rev IH Let_def)
  qed
qed

lemma SsTable_Get_eq:
  assumes "sst_inv st d tfs"
  shows "SsTable_Get st d k t a = Ok (first_nonempty (map (file_value k t a) (rev tfs)))"
  using SsTable_Get_loop_eq [OF assms order_refl] assms
  by (simp add: SsTable_Get_def sst_inv_def)

section \<open>What a lookup promises\<close>

text \<open>A lookup skips only entries of smaller versions than those it reads.\<close>

lemma tf_from_split:
  assumes "file_ok d tf" "e \<in> set (tf_entries tf)" "Key e = k" "e \<notin> set (tf_from k tf)"
  obtains f where "f \<in> set (tf_from k tf)" "Key f = k" "Entry_Less e f"
    "f = hd (tf_blocks tf ! (block_count k tf - 1))" "block_count k tf \<noteq> 0"
proof -
  let ?n = "block_count k tf"
  have ne: "\<forall>b \<in> set (tf_blocks tf). b \<noteq> []" and ord: "ordered (tf_entries tf)"
    using assms(1) by (simp_all add: file_ok_def)
  note first = sorted_first_keys [OF ord [unfolded tf_entries_def] ne]
  obtain i where i: "i < length (tf_blocks tf)" "e \<in> set (tf_blocks tf ! i)"
    using assms(2) by (auto simp: tf_entries_def in_set_conv_nth [of _ "tf_blocks tf"])
  have "Key (hd (tf_blocks tf ! i)) \<le> Key e"
  proof -
    have "ordered (tf_blocks tf ! i)"
      using ord i(1) unfolding tf_entries_def
      by (metis concat_append concat.simps(2) id_take_nth_drop sorted_wrt_append)
    then show ?thesis
      using i(2) by (cases "tf_blocks tf ! i") (auto dest: Entry_Less_Key)
  qed
  then have "i < ?n"
    using sorted_filter_le [OF first i(1), of k] assms(3) by (simp add: block_count_def)
  then have n: "?n \<noteq> 0" "?n - 1 < length (tf_blocks tf)"
    using block_count_le [of k tf] by auto
  let ?b = "tf_blocks tf ! (?n - 1)"
  have reach: "tf_from k tf = ?b @ concat (drop ?n (tf_blocks tf))"
    using n by (simp add: tf_from_def flip: Cons_nth_drop_Suc)
  have b: "hd ?b \<in> set ?b"
    using ne n(2) by simp
  have le: "Key (hd ?b) \<le> k"
    using sorted_filter_le [OF first n(2), of k] n(1) by (simp add: block_count_def)
  have "e \<in> set (concat (take (?n - 1) (tf_blocks tf)))"
  proof -
    have "tf_entries tf = concat (take (?n - 1) (tf_blocks tf)) @ tf_from k tf"
      using n(1) by (simp add: tf_entries_def tf_from_def flip: concat_append)
    with assms(2,4) show ?thesis by auto
  qed
  moreover have "tf_entries tf = concat (take (?n - 1) (tf_blocks tf)) @ tf_from k tf"
    using n(1) by (simp add: tf_entries_def tf_from_def flip: concat_append)
  ultimately have less: "Entry_Less e (hd ?b)"
    using ord b by (auto simp: sorted_wrt_append reach)
  then have "Key (hd ?b) = k"
    using le assms(3) Entry_Less_Key by fastforce
  with less b n(1) show thesis
    by (intro that [of "hd ?b"]) (simp_all add: reach)
qed

lemma tf_from_suffix: "\<exists>pre. tf_entries tf = pre @ tf_from k tf"
proof -
  have "tf_entries tf = concat (take (block_count k tf - 1) (tf_blocks tf)) @
      concat (drop (block_count k tf - 1) (tf_blocks tf))"
    by (simp add: tf_entries_def flip: concat_append)
  then show ?thesis
    by (cases "block_count k tf = 0") (auto simp: tf_from_def)
qed

lemma tf_from_subset: "set (tf_from k tf) \<subseteq> set (tf_entries tf)"
  using tf_from_suffix [of tf k] by auto

text \<open>What a lookup finds in a file is the file's latest visible version.\<close>

lemma tf_from_latest:
  assumes "file_ok d tf" "latest_version k t a (tf_from k tf) = Some e"
  shows "latest_version k t a (tf_entries tf) = Some e"
proof -
  obtain pre where pre: "tf_entries tf = pre @ tf_from k tf"
    using tf_from_suffix by blast
  moreover have "ordered (tf_entries tf)"
    using assms(1) by (simp add: file_ok_def)
  ultimately have "TxnId f \<le> TxnId g" if "f \<in> set pre" "g \<in> set (tf_from k tf)" "Key f = k" "Key g = k" for f g
    using that by (fastforce simp: sorted_wrt_append Entry_Less_def)
  from latest_version_append [OF this] show ?thesis
    by (simp add: pre assms(2))
qed

text \<open>
  Two ways for a reader to reach the right version of \<open>k\<close> in a file: it sees the newest version of
  \<open>k\<close> in the file, or the versions of \<open>k\<close> lie in one block.
\<close>

definition sees_newest :: "string \<Rightarrow> u64 \<Rightarrow> u64 set \<Rightarrow> Entry list \<Rightarrow> bool" where
  "sees_newest k t a es \<longleftrightarrow>
     (\<forall>e \<in> set es. Key e = k \<and> (\<forall>f \<in> set es. Key f = k \<longrightarrow> TxnId f \<le> TxnId e) \<longrightarrow> visible t a (TxnId e))"

definition one_block :: "string \<Rightarrow> table_file \<Rightarrow> bool" where
  "one_block k tf \<longleftrightarrow>
     length (filter (\<lambda>b. \<exists>e \<in> set b. Key e = k) (tf_blocks tf)) \<le> 1"

lemma newest_exists:
  assumes "e \<in> set es" "Key e = k"
  obtains m :: Entry where "m \<in> set es" "Key m = k" "\<And>f. \<lbrakk>f \<in> set es; Key f = k\<rbrakk> \<Longrightarrow> TxnId f \<le> TxnId m"
proof -
  let ?T = "TxnId ` {f \<in> set es. Key f = k}"
  have "Max ?T \<in> ?T"
    using assms by (intro Max_in) auto
  then obtain m where m: "m \<in> set es" "Key m = k" "TxnId m = Max ?T" by auto
  have "TxnId f \<le> TxnId m" if "f \<in> set es" "Key f = k" for f
    unfolding m(3) using that by (intro Max_ge) auto
  with m(1,2) show thesis by (rule that)
qed

lemma one_block_reached:
  assumes "file_ok d tf" "one_block k tf" "e \<in> set (tf_entries tf)" "Key e = k"
  shows "e \<in> set (tf_from k tf)"
proof (rule ccontr)
  assume no: "e \<notin> set (tf_from k tf)"
  let ?n = "block_count k tf" and ?bs = "tf_blocks tf"
  obtain f where f: "Key f = k" "f = hd (?bs ! (?n - 1))" "?n \<noteq> 0"
    using tf_from_split [OF assms(1,3,4) no] by metis
  let ?P = "\<lambda>b. \<exists>e \<in> set b. Key e = k"
  have n: "?n - 1 < length ?bs"
    using f(3) block_count_le [of k tf] by linarith
  then have "?bs ! (?n - 1) \<noteq> []"
    using assms(1) by (auto simp: file_ok_def)
  then have "?P (?bs ! (?n - 1))"
    using f by (metis hd_in_set)
  moreover obtain b where b: "b \<in> set (take (?n - 1) ?bs)" "e \<in> set b"
  proof -
    have "tf_entries tf = concat (take (?n - 1) ?bs) @ tf_from k tf"
      using f(3) by (simp add: tf_entries_def tf_from_def flip: concat_append)
    with assms(3) no have "e \<in> set (concat (take (?n - 1) ?bs))" by auto
    then show thesis using that by auto
  qed
  moreover have "?bs = take (?n - 1) ?bs @ ?bs ! (?n - 1) # drop (Suc (?n - 1)) ?bs"
    using n by (rule id_take_nth_drop)
  then have "length (filter ?P ?bs) =
      length (filter ?P (take (?n - 1) ?bs)) + length (filter ?P (?bs ! (?n - 1) # drop (Suc (?n - 1)) ?bs))"
    by (metis filter_append length_append)
  moreover have "filter ?P (take (?n - 1) ?bs) \<noteq> []"
    using b assms(4) by (auto simp: filter_empty_conv)
  ultimately show False
    using assms(2) by (simp add: one_block_def flip: length_greater_0_conv)
qed

lemma tf_from_complete:
  assumes "file_ok d tf" "sees_newest k t a (tf_entries tf) \<or> one_block k tf"
  shows "latest_version k t a (tf_from k tf) = latest_version k t a (tf_entries tf)"
proof (cases "latest_version k t a (tf_entries tf)")
  case None
  then have "latest_version k t a (tf_from k tf) = None"
    using tf_from_subset [of k tf] by (auto simp: latest_version_None)
  with None show ?thesis by simp
next
  case (Some e)
  note e = latest_version_SomeD [OF Some]
  have "\<exists>g \<in> set (tf_from k tf). Key g = k \<and> visible t a (TxnId g)"
  proof (cases "one_block k tf")
    case True
    with one_block_reached [OF assms(1) True e(1,2)] e show ?thesis by auto
  next
    case False
    obtain m where m: "m \<in> set (tf_entries tf)" "Key m = k"
      "\<And>f. \<lbrakk>f \<in> set (tf_entries tf); Key f = k\<rbrakk> \<Longrightarrow> TxnId f \<le> TxnId m"
      using newest_exists [OF e(1,2)] by metis
    have "m \<in> set (tf_from k tf)"
    proof (rule ccontr)
      assume "m \<notin> set (tf_from k tf)"
      from tf_from_split [OF assms(1) m(1,2) this] obtain f
        where "f \<in> set (tf_from k tf)" "Key f = k" "Entry_Less m f" by metis
      then show False
        using m(2) m(3) [of f] tf_from_subset [of k tf] by (auto simp: Entry_Less_def)
    qed
    moreover have "visible t a (TxnId m)"
      using assms(2) False m by (auto simp: sees_newest_def)
    ultimately show ?thesis using m(2) by auto
  qed
  then obtain g where "latest_version k t a (tf_from k tf) = Some g"
    by (cases "latest_version k t a (tf_from k tf)") (auto simp: latest_version_None)
  with tf_from_latest [OF assms(1) this] show ?thesis by simp
qed

text \<open>Later files hold later versions of \<open>k\<close>.\<close>

definition chronological :: "string \<Rightarrow> table_file list \<Rightarrow> bool" where
  "chronological k tfs \<longleftrightarrow>
     sorted_wrt (\<lambda>tf tf'. \<forall>e \<in> set (tf_entries tf). \<forall>f \<in> set (tf_entries tf').
       Key e = k \<longrightarrow> Key f = k \<longrightarrow> TxnId e < TxnId f) tfs"

definition all_entries :: "table_file list \<Rightarrow> Entry list" where
  "all_entries tfs = concat (map tf_entries tfs)"

lemma first_nonempty_latest:
  assumes "\<forall>tf \<in> set tfs. file_value k t a tf =
      (case latest_version k t a (tf_entries tf) of None \<Rightarrow> '''' | Some e \<Rightarrow> Value e)"
    and "chronological k tfs" "\<forall>e \<in> set (all_entries tfs). Key e = k \<longrightarrow> Value e \<noteq> ''''"
  shows "first_nonempty (map (file_value k t a) (rev tfs)) =
    (case latest_version k t a (all_entries tfs) of None \<Rightarrow> '''' | Some e \<Rightarrow> Value e)"
  using assms
proof (induction tfs rule: rev_induct)
  case Nil
  then show ?case
    by (simp add: all_entries_def latest_version_def candidates_def)
next
  case (snoc tf tfs)
  have "latest_version k t a (all_entries tfs @ tf_entries tf) =
      (case latest_version k t a (tf_entries tf) of
         None \<Rightarrow> latest_version k t a (all_entries tfs) | Some e \<Rightarrow> Some e)"
    using snoc.prems(2)
    by (intro latest_version_append)
      (fastforce simp: chronological_def sorted_wrt_append all_entries_def)
  moreover have "Value e \<noteq> ''''" if "latest_version k t a (tf_entries tf) = Some e" for e
    using latest_version_SomeD(1,2) [OF that] snoc.prems(3) by (auto simp: all_entries_def)
  ultimately show ?case
    using snoc by (auto simp: all_entries_def chronological_def sorted_wrt_append split: option.splits)
qed

lemma file_value_nonempty:
  assumes "file_ok d tf" "file_value k t a tf \<noteq> ''''"
  shows "\<exists>e. latest_version k t a (tf_entries tf) = Some e \<and> Value e = file_value k t a tf"
  using assms tf_from_latest [OF assms(1), of k t a]
  by (auto simp: file_value_def split: option.splits)

lemma first_nonempty_from: "first_nonempty vs \<noteq> '''' \<Longrightarrow> first_nonempty vs \<in> set vs"
  by (induction vs) (auto split: if_splits)

text \<open>
  A lookup on a well-formed directory never fails and never panics, and a value it returns is
  that of the newest version of the key that the reader may see in some file.
\<close>

theorem SsTable_Get_sound:
  assumes "sst_inv st d tfs"
  shows "\<exists>v. SsTable_Get st d k t a = Ok v \<and>
    (v \<noteq> '''' \<longrightarrow> (\<exists>tf \<in> set tfs. \<exists>e. latest_version k t a (tf_entries tf) = Some e \<and> Value e = v))"
proof -
  let ?v = "first_nonempty (map (file_value k t a) (rev tfs))"
  have "\<exists>tf \<in> set tfs. \<exists>e. latest_version k t a (tf_entries tf) = Some e \<and> Value e = ?v"
    if nonempty: "?v \<noteq> ''''"
  proof -
    obtain tf where tf: "tf \<in> set tfs" "file_value k t a tf = ?v"
      using first_nonempty_from [OF nonempty] by auto
    moreover have "file_ok d tf"
      using assms tf(1) by (simp add: sst_inv_def)
    ultimately show ?thesis
      using file_value_nonempty [of d tf k t a] nonempty by metis
  qed
  then show ?thesis
    by (simp add: SsTable_Get_eq [OF assms])
qed

theorem SsTable_Get_sound_witness:
  "\<exists>v. SsTable_Get (table_of ''d'' sample_files) (disk_of ''d'' sample_files) ''k'' 2 {} = Ok v"
  using SsTable_Get_sound [OF sample_inv] by blast

text \<open>
  C29. Lookups are exact: when the files are in the order of their versions of the key, no version of
  the key has an empty value, and in each file the reader either sees the newest version of the key
  or finds all of them in one block, the lookup returns the newest visible version of the whole
  directory, and the empty string when there is none.
\<close>

theorem SsTable_Get_exact:
  assumes "sst_inv st d tfs"
    and "chronological k tfs"
    and "\<forall>e \<in> set (all_entries tfs). Key e = k \<longrightarrow> Value e \<noteq> ''''"
    and "\<forall>tf \<in> set tfs. sees_newest k t a (tf_entries tf) \<or> one_block k tf"
  shows "SsTable_Get st d k t a =
    Ok (case latest_version k t a (all_entries tfs) of None \<Rightarrow> '''' | Some e \<Rightarrow> Value e)"
proof -
  have "file_value k t a tf =
      (case latest_version k t a (tf_entries tf) of None \<Rightarrow> '''' | Some e \<Rightarrow> Value e)" if "tf \<in> set tfs" for tf
    using tf_from_complete [of d tf k t a] assms(1,4) that by (simp add: file_value_def sst_inv_def)
  then show ?thesis
    using assms by (simp add: SsTable_Get_eq first_nonempty_latest)
qed

theorem SsTable_Get_exact_witness:
  "SsTable_Get (table_of ''d'' sample_files) (disk_of ''d'' sample_files) ''k'' 3 {} = Ok ''4'' \<and>
   SsTable_Get (table_of ''d'' sample_files) (disk_of ''d'' sample_files) ''k'' 2 {} = Ok ''2''"
proof -
  have "chronological ''k'' sample_files" "\<forall>e \<in> set (all_entries sample_files). Key e = ''k'' \<longrightarrow> Value e \<noteq> ''''"
    by (simp_all add: chronological_def sample_files_def tf_entries_def all_entries_def)
  note exact = SsTable_Get_exact [OF sample_inv this]
  have one: "\<forall>tf \<in> set sample_files. one_block ''k'' tf"
    by (simp add: sample_files_def one_block_def)
  then show ?thesis
    by (subst (1 2) exact)
      (simp_all add: sample_files_def all_entries_def tf_entries_def latest_version_def candidates_def
        visible_def)
qed



lemma write_entries_inv:
  assumes "sst_inv st d tfs" "ordered es" "\<forall>e \<in> set es. Key e \<noteq> ''''"
    "2 * length (enc_entries es) + 4 < 2 ^ 32"
  defines "w \<equiv> write_entries (st, d) (calls_of es)"
  shows "sst_inv (fst w) (snd w)
    (tfs @ [new_file st (ssTableFilePath (dataFilesDirectory st) (NextFileId (st_manifest st))) es])"
proof -
  obtain f st1 d1 where new: "NewFile st d = (f, st1, d1)" by (metis prod_cases3)
  obtain st2 d2 where wr: "SsTable_Write st1 d1 f (calls_of es) = (st2, d2)" by (metis prod.exhaust)
  have "w = (st2, d2)"
    by (simp add: w_def write_entries_def new wr)
  with sst_inv_flush(1) [OF assms(1-4) new wr] NewFile_fresh(1) [OF assms(1) new] show ?thesis
    by simp
qed



lemmas get_eval = SsTable_Get_eq file_value_def tf_from_def block_count_def new_file_def
  blocks_of_def length_enc_entry latest_version_def candidates_def visible_def calls_of_def

definition split_chain :: "SsTable \<times> disk" where
  "split_chain = write_entries (empty_table 20, disk_of ''d'' [])
     [(''k'', ''old'', 1), (''k'', ''new'', 3), (''k'', ''newer'', 4)]"

text \<open>
  The block condition is needed. A file written by the code from three versions of a key with a
  block length of 20 bytes keeps the oldest one in a block of its own; the index finds the last block
  that starts with the key, so the reader with id 2, which should see the version of transaction 1,
  is told that the key does not exist.
\<close>

theorem SsTable_Get_misses_split_chain:
  "SsTable_Get (fst split_chain) (snd split_chain) ''k'' 2 {} = Ok '''' \<and>
   SsTable_Get (fst split_chain) (snd split_chain) ''k'' 4 {} = Ok ''newer''"
proof -
  let ?es = "[mk_entry ''k'' ''old'' 1, mk_entry ''k'' ''new'' 3, mk_entry ''k'' ''newer'' 4]"
  have "ordered ?es" "\<forall>e \<in> set ?es. Key e \<noteq> ''''" "2 * length (enc_entries ?es) + 4 < 2 ^ 32"
    by (simp_all add: Entry_Less_def length_enc_entry)
  note inv = write_entries_inv [OF empty_table_inv this, of 20]
  have "split_chain = write_entries (empty_table 20, disk_of ''d'' []) (calls_of ?es)"
    by (simp add: split_chain_def calls_of_def)
  then show ?thesis
    using SsTable_Get_eq [OF inv, of "''k''" 2 "{}"] SsTable_Get_eq [OF inv, of "''k''" 4 "{}"]
    by (simp add: get_eval empty_table_def)
qed

definition emptied_key :: "SsTable \<times> disk" where
  "emptied_key = write_entries
     (write_entries (empty_table 100, disk_of ''d'' []) [(''k'', ''old'', 1)]) [(''k'', '''', 2)]"

lemma emptied_key_inv:
  "\<exists>f g. sst_inv (fst emptied_key) (snd emptied_key)
     [new_file (empty_table 100) f [mk_entry ''k'' ''old'' 1], new_file (empty_table 100) g [mk_entry ''k'' '''' 2]]"
proof -
  let ?s = "write_entries (empty_table 100, disk_of ''d'' []) (calls_of [mk_entry ''k'' ''old'' 1])"
  have small: "2 * length (enc_entries [mk_entry ''k'' v i]) + 4 < 2 ^ 32" if "length v < 10" for v i
    using that by (simp add: length_enc_entry)
  obtain f where s: "sst_inv (fst ?s) (snd ?s) [new_file (empty_table 100) f [mk_entry ''k'' ''old'' 1]]"
    using write_entries_inv [OF empty_table_inv _ _ small, of "''old''" 1 100] by auto
  have "blockLength (fst ?s) = 100"
    by (simp add: write_entries_def NewFile_def SsTable_Write_def writeToFile_def empty_table_def
        Let_def split_beta)
  then have "new_file (fst ?s) g es = new_file (empty_table 100) g es" for g es
    by (simp add: new_file_def empty_table_def)
  with write_entries_inv [OF s _ _ small, of "''''" 2] show ?thesis
    by (auto simp: emptied_key_def calls_of_def)
qed

text \<open>
  The value condition is needed: the code takes an empty value for an absent key, so after the
  newest version was written with an empty value the lookup falls back to an older file.
\<close>

theorem SsTable_Get_falls_back_to_stale_value:
  "SsTable_Get (fst emptied_key) (snd emptied_key) ''k'' 3 {} = Ok ''old''"
  using emptied_key_inv by (auto simp: get_eval empty_table_def)

section \<open>Prefix scan\<close>

definition scan_upd ::
  "string \<Rightarrow> u64 \<Rightarrow> u64 set \<Rightarrow> (string \<rightharpoonup> valueTxnId) \<Rightarrow> Entry \<Rightarrow> (string \<rightharpoonup> valueTxnId)" where
  "scan_upd p t a m e =
     (if prefix p (Key e) \<and> visible t a (TxnId e) \<and>
         (case m (Key e) of None \<Rightarrow> True | Some c \<Rightarrow> vt_txnId c < TxnId e)
      then m(Key e \<mapsto> \<lparr>vt_value = Value e, vt_txnId = TxnId e\<rparr>) else m)"

lemma scan_past_prefix:
  assumes "ordered (e # es)" "\<not> prefix p (Key e)" "slice (Key e) 0 (min (length p) (length (Key e))) > p"
    and "f \<in> set (e # es)"
  shows "\<not> prefix p (Key f)"
proof
  assume pf: "prefix p (Key f)"
  have "Key e \<le> Key f"
    using assms(1,4) ordered_Key_ge by auto
  moreover have "p \<le> Key e"
  proof -
    have "prefix (slice (Key e) 0 (min (length p) (length (Key e)))) (Key e)"
      by (simp add: slice_def take_is_prefix)
    from prefix_le [OF this] assms(3) show ?thesis by simp
  qed
  ultimately show False
    using prefix_between [OF _ _ pf] assms(2) by blast
qed

lemma foldl_scan_upd_no_prefix: "\<forall>e \<in> set es. \<not> prefix p (Key e) \<Longrightarrow> foldl (scan_upd p t a) m es = m"
  by (induction es) (auto simp: scan_upd_def)

text \<open>The early exit of the scan loses nothing: the loop is a fold over all entries.\<close>

lemma scan_loop_entries:
  assumes "ordered es" "length (pre @ enc_entries es) < 2 ^ 32"
  shows "scan_loop p t a (pre @ enc_entries es) (length pre) m = Ok (foldl (scan_upd p t a) m es)"
  using assms
proof (induction es arbitrary: pre m)
  case Nil
  then show ?case by (simp add: scan_loop.simps)
next
  case (Cons e es)
  let ?buf = "pre @ enc_entry e @ enc_entries es"
  let ?kp = "slice (Key e) 0 (min (length p) (length (Key e)))"
  have IH: "scan_loop p t a ?buf (length (pre @ enc_entry e)) m' = Ok (foldl (scan_upd p t a) m' es)" for m'
    using Cons.IH [of "pre @ enc_entry e" m'] Cons.prems by simp
  have len: "length pre < length ?buf"
    by (simp add: length_enc_entry)
  have step: "scan_loop p t a ?buf (length pre) m =
      (if \<not> prefix p (Key e) \<and> ?kp > p then Ok m
       else scan_loop p t a ?buf (length (pre @ enc_entry e)) (scan_upd p t a m e))"
    using readSsTableEntry_entries [OF Cons.prems(2)] len
    by (subst scan_loop.simps)
      (auto simp: scan_upd_def visible_def Let_def split: option.splits simp del: length_append)
  show ?case
  proof (cases "\<not> prefix p (Key e) \<and> ?kp > p")
    case True
    then have "\<forall>f \<in> set (e # es). \<not> prefix p (Key f)"
      using scan_past_prefix [OF Cons.prems(1)] by blast
    from foldl_scan_upd_no_prefix [OF this] show ?thesis
      unfolding enc_entries_simps step using True by simp
  next
    case False
    then show ?thesis
      unfolding enc_entries_simps step IH by (simp add: if_not_P)
  qed
qed

definition scan_from :: "string \<Rightarrow> table_file \<Rightarrow> Entry list" where
  "scan_from p tf =
     (if block_count p tf \<noteq> 0 then tf_from p tf
      else if tf_blocks tf = [] \<or> \<not> prefix p (Key (hd (hd (tf_blocks tf)))) then []
      else tf_entries tf)"

lemma sequentiallyScan_file:
  assumes "file_ok d tf" "j < length (tf_blocks tf)"
  shows "sequentiallyScanTableAndUpdateMap d (tf_name tf) p (ib_offset (tf_index tf ! j)) (tf_offset tf) m t a =
    Ok (foldl (scan_upd p t a) m (concat (drop j (tf_blocks tf))))"
proof -
  note data = data_from_block [OF assms]
  have "scan_loop p t a ([] @ enc_entries (concat (drop j (tf_blocks tf)))) (length ([] :: bytes)) m =
      Ok (foldl (scan_upd p t a) m (concat (drop j (tf_blocks tf))))"
    using tf_from_small [OF assms(1)] drop_blocks_ordered [OF assms(1)]
    by (intro scan_loop_entries) simp_all
  then show ?thesis
    using assms(1) data
    by (simp add: sequentiallyScanTableAndUpdateMap_def file_ok_def)
qed

lemma SsTable_PrefixScan_loop_eq:
  assumes "sst_inv st d tfs" "n \<le> length tfs"
  shows "SsTable_PrefixScan_loop st d p t a n m =
    Ok (foldl (scan_upd p t a) m (concat (map (scan_from p) (rev (take n tfs)))))"
  using assms(2)
proof (induction n arbitrary: m)
  case 0
  then show ?case by simp
next
  case (Suc i)
  then have i: "i < length tfs" by simp
  note nth = sst_inv_nth [OF assms(1) i]
  let ?tf = "tfs ! i"
  have rev: "rev (take (Suc i) tfs) = ?tf # rev (take i tfs)"
    using i by (simp add: take_Suc_conv_app_nth)
  have IH: "SsTable_PrefixScan_loop st d p t a i m' =
      Ok (foldl (scan_upd p t a) m' (concat (map (scan_from p) (rev (take i tfs)))))" for m'
    using Suc by simp
  note lb = getLowerBound_file [OF nth(1), of p]
  have first: "ib_key (tf_index ?tf ! 0) = Key (hd (hd (tf_blocks ?tf)))" if "tf_blocks ?tf \<noteq> []"
    using that by (cases "tf_blocks ?tf") (simp_all add: tf_index_def)
  have empty: "tf_index ?tf = [] \<longleftrightarrow> tf_blocks ?tf = []"
    by (simp add: tf_index_def flip: length_0_conv)
  consider (skip) "block_count p ?tf = 0" "tf_blocks ?tf = [] \<or> \<not> prefix p (Key (hd (hd (tf_blocks ?tf))))"
    | (whole) "block_count p ?tf = 0" "tf_blocks ?tf \<noteq> []" "prefix p (Key (hd (hd (tf_blocks ?tf))))"
    | (block) "block_count p ?tf \<noteq> 0" by blast
  then show ?case
  proof cases
    case skip
    then have "scan_from p ?tf = []"
      by (auto simp: scan_from_def)
    with skip show ?thesis
      using i by (auto simp: nth lb rev IH empty first Let_def)
  next
    case whole
    then have "scan_from p ?tf = tf_entries ?tf"
      by (simp add: scan_from_def)
    with whole show ?thesis
      using i sequentiallyScan_file [OF nth(1), of 0]
      by (simp add: nth lb rev IH empty first Let_def tf_entries_def)
  next
    case block
    then have n: "block_count p ?tf - 1 < length (tf_blocks ?tf)"
      "nat (int (block_count p ?tf) - 1) = block_count p ?tf - 1"
      using block_count_le [of p ?tf] by linarith+
    have "scan_from p ?tf = concat (drop (block_count p ?tf - 1) (tf_blocks ?tf))"
      using block by (simp add: scan_from_def tf_from_def)
    with block show ?thesis
      using i sequentiallyScan_file [OF nth(1) n(1)]
      by (simp add: nth lb rev IH n(2) Let_def)
  qed
qed

lemma SsTable_PrefixScan_eq:
  "sst_inv st d tfs \<Longrightarrow> SsTable_PrefixScan st d p t a =
    Ok (foldl (scan_upd p t a) Map.empty (concat (map (scan_from p) (rev tfs))))"
  using SsTable_PrefixScan_loop_eq [OF _ order_refl, of st d tfs]
  by (simp add: SsTable_PrefixScan_def sst_inv_def)

text \<open>Every entry whose key properly extends the prefix is scanned.\<close>

lemma scan_from_complete:
  assumes "file_ok d tf" "e \<in> set (tf_entries tf)" "prefix p (Key e)" "Key e \<noteq> p"
  shows "e \<in> set (scan_from p tf)"
proof (cases "block_count p tf = 0")
  case True
  obtain b bs where bs: "tf_blocks tf = b # bs"
    using assms(2) by (cases "tf_blocks tf") (auto simp: tf_entries_def)
  then obtain f es where b: "b = f # es"
    using assms(1) by (cases b) (auto simp: file_ok_def)
  have "p \<le> Key f"
    using True by (simp add: block_count_def bs b split: if_splits)
  moreover have "Key f \<le> Key e"
  proof -
    have "ordered (f # es @ concat bs)"
      using assms(1) by (simp add: file_ok_def tf_entries_def bs b)
    from ordered_Key_ge [OF this] show ?thesis
      using assms(2) by (auto simp: tf_entries_def bs b)
  qed
  ultimately have "prefix p (Key f)"
    using prefix_between [OF _ _ assms(3)] by blast
  then show ?thesis
    using True assms(2) by (simp add: scan_from_def bs b)
next
  case False
  let ?n = "block_count p tf" and ?bs = "tf_blocks tf"
  have n: "?n - 1 < length ?bs"
    using False block_count_le [of p tf] by linarith
  then have b: "?bs ! (?n - 1) \<noteq> []" "Key (hd (?bs ! (?n - 1))) \<le> p"
    using assms(1) False sorted_filter_le [OF sorted_first_keys n, of p]
    by (auto simp: file_ok_def tf_entries_def block_count_def)
  have split: "tf_entries tf = concat (take (?n - 1) ?bs) @ tf_from p tf"
    using False by (simp add: tf_entries_def tf_from_def flip: concat_append)
  have "hd (?bs ! (?n - 1)) \<in> set (tf_from p tf)"
    using False b(1) n by (simp add: tf_from_def flip: Cons_nth_drop_Suc)
  moreover have "ordered (tf_entries tf)"
    using assms(1) by (simp add: file_ok_def)
  ultimately have "Key f \<le> p" if "f \<in> set (concat (take (?n - 1) ?bs))" for f
    using that b(2) Entry_Less_Key unfolding split sorted_wrt_append by (meson order_trans)
  then have "e \<notin> set (concat (take (?n - 1) ?bs))"
    using assms(3,4) prefix_le [of p "Key e"] by fastforce
  then show ?thesis
    using assms(2) False unfolding split by (auto simp: scan_from_def)
qed

definition vt_of :: "Entry \<Rightarrow> valueTxnId" where
  "vt_of e = \<lparr>vt_value = Value e, vt_txnId = TxnId e\<rparr>"

text \<open>The fold keeps, for every key with the prefix, a newest visible version.\<close>

lemma scan_fold_spec:
  fixes p :: string and t :: u64 and a :: "u64 set" and es :: "Entry list"
  defines "m \<equiv> foldl (scan_upd p t a) Map.empty es"
  shows "(m k = None \<longrightarrow> \<not> prefix p k \<or> candidates k t a es = []) \<and>
    (\<forall>c. m k = Some c \<longrightarrow> prefix p k \<and> (\<exists>e \<in> set (candidates k t a es).
       c = vt_of e \<and> (\<forall>f \<in> set (candidates k t a es). TxnId f \<le> TxnId e)))"
  unfolding m_def
proof (induction es rule: rev_induct)
  case Nil
  then show ?case by (simp add: candidates_def)
next
  case (snoc x es)
  let ?m = "foldl (scan_upd p t a) Map.empty es"
  show ?case
  proof (cases "Key x = k \<and> prefix p k \<and> visible t a (TxnId x)")
    case False
    then have "scan_upd p t a ?m x k = ?m k" and "prefix p k \<Longrightarrow> candidates k t a (es @ [x]) = candidates k t a es"
      by (auto simp: scan_upd_def candidates_def)
    with snoc show ?thesis by auto
  next
    case True
    then have cand: "candidates k t a (es @ [x]) = candidates k t a es @ [x]"
      by (simp add: candidates_def)
    have upd: "scan_upd p t a m x k = (case m k of None \<Rightarrow> Some (vt_of x)
        | Some c \<Rightarrow> if vt_txnId c < TxnId x then Some (vt_of x) else Some c)" for m
      using True by (auto simp: scan_upd_def vt_of_def split: option.splits)
    show ?thesis
    proof (cases "?m k")
      case None
      with True snoc have "candidates k t a es = []" by simp
      with True None show ?thesis
        by (simp add: cand upd)
    next
      case (Some c)
      with snoc obtain e where e: "e \<in> set (candidates k t a es)" "c = vt_of e"
        "\<forall>f \<in> set (candidates k t a es). TxnId f \<le> TxnId e" by blast
      show ?thesis
      proof (cases "TxnId e < TxnId x")
        case True': True
        with True Some e show ?thesis
          by (auto simp: cand upd vt_of_def)
      next
        case False
        then have "scan_upd p t a ?m x k = Some c"
          using Some e(2) by (simp add: upd vt_of_def)
        with True e False show ?thesis
          by (auto simp: cand)
      qed
    qed
  qed
qed

lemma scan_fold_latest:
  assumes "unique_versions es" "prefix p k"
    and "\<And>e. e \<in> set fs \<Longrightarrow> e \<in> set es" "\<And>e. \<lbrakk>e \<in> set es; Key e = k\<rbrakk> \<Longrightarrow> e \<in> set fs"
  shows "foldl (scan_upd p t a) Map.empty fs k = map_option vt_of (latest_version k t a es)"
proof (cases "foldl (scan_upd p t a) Map.empty fs k")
  case None
  then have "candidates k t a fs = []"
    using scan_fold_spec [of p t a fs k] assms(2) by simp
  then have "latest_version k t a es = None"
    using assms(4) by (auto simp: latest_version_None candidates_def filter_empty_conv)
  with None show ?thesis by simp
next
  case (Some c)
  then obtain e where e: "e \<in> set (candidates k t a fs)" "c = vt_of e"
    "\<forall>f \<in> set (candidates k t a fs). TxnId f \<le> TxnId e"
    using scan_fold_spec [of p t a fs k] by blast
  have "latest_version k t a es = Some e"
    using e assms(3,4) by (intro latest_versionI [OF assms(1)]) (auto simp: candidates_def)
  with Some e(2) show ?thesis by simp
qed

lemma scan_from_subset: "set (scan_from p tf) \<subseteq> set (tf_entries tf)"
  using tf_from_subset by (auto simp: scan_from_def)

lemma PrefixScan_latest_if:
  assumes "sst_inv st d tfs" "unique_versions (all_entries tfs)"
  shows "\<exists>m. SsTable_PrefixScan st d p t a = Ok m \<and>
    (\<forall>k. k \<noteq> p \<or> (\<forall>e \<in> set (all_entries tfs). Key e \<noteq> p) \<longrightarrow> m k = (if prefix p k then map_option vt_of (latest_version k t a (all_entries tfs)) else None))"
proof -
  let ?fs = "concat (map (scan_from p) (rev tfs))"
  have ok: "file_ok d tf" if "tf \<in> set tfs" for tf
    using assms(1) that by (simp add: sst_inv_def)
  have sub: "e \<in> set (all_entries tfs)" if "e \<in> set ?fs" for e
    using that scan_from_subset by (fastforce simp: all_entries_def)
  have "foldl (scan_upd p t a) Map.empty ?fs k =
      (if prefix p k then map_option vt_of (latest_version k t a (all_entries tfs)) else None)"
    if k: "k \<noteq> p \<or> (\<forall>e \<in> set (all_entries tfs). Key e \<noteq> p)" for k
  proof (cases "prefix p k")
    case True
    have "e \<in> set ?fs" if e: "e \<in> set (all_entries tfs)" "Key e = k" for e
    proof -
      obtain tf where tf: "tf \<in> set tfs" "e \<in> set (tf_entries tf)"
        using e(1) by (auto simp: all_entries_def)
      have "Key e \<noteq> p" using k e by auto
      then have "e \<in> set (scan_from p tf)"
        using scan_from_complete [OF ok [OF tf(1)] tf(2), of p] True e(2) by simp
      with tf(1) show ?thesis by auto
    qed
    with sub have "foldl (scan_upd p t a) Map.empty ?fs k =
        map_option vt_of (latest_version k t a (all_entries tfs))"
      by (intro scan_fold_latest [OF assms(2) True])
    with True show ?thesis by (simp only: if_True)
  next
    case False
    then show ?thesis
      using scan_fold_spec [of p t a ?fs k]
      by (cases "foldl (scan_upd p t a) Map.empty ?fs k") auto
  qed
  then show ?thesis
    by (simp add: SsTable_PrefixScan_eq [OF assms(1)])
qed

lemma PrefixScan_latest:
  assumes "sst_inv st d tfs" "unique_versions (all_entries tfs)"
  shows "\<exists>m. SsTable_PrefixScan st d p t a = Ok m \<and>
    (\<forall>k. k \<noteq> p \<longrightarrow> m k = (if prefix p k then map_option vt_of (latest_version k t a (all_entries tfs)) else None))"
  using PrefixScan_latest_if [OF assms, of p t a] by blast

text \<open>
  A prefix scan is exact for every key that properly extends the prefix, whatever the order of
  the files and the layout of the blocks: with at most one entry per version it returns the newest
  visible version of each such key in the whole directory, and no other key is in the result except
  possibly the prefix itself.
\<close>

theorem SsTable_PrefixScan_exact:
  assumes "sst_inv st d tfs" "unique_versions (all_entries tfs)"
  shows "\<exists>m. SsTable_PrefixScan st d p t a = Ok m \<and>
    (\<forall>k. k \<noteq> p \<longrightarrow> m k = (if prefix p k then map_option vt_of (latest_version k t a (all_entries tfs)) else None))"
  using assms by (rule PrefixScan_latest)

lemma sample_unique: "unique_versions (all_entries sample_files)"
  by (simp add: unique_versions_def all_entries_def sample_files_def tf_entries_def version_of_def)

theorem SsTable_PrefixScan_exact_witness:
  "\<exists>m. SsTable_PrefixScan (table_of ''d'' sample_files) (disk_of ''d'' sample_files) ''k'' 3 {} = Ok m \<and>
    m ''kk'' = Some \<lparr>vt_value = ''5'', vt_txnId = 3\<rparr> \<and> m ''m'' = None"
proof -
  obtain m where "SsTable_PrefixScan (table_of ''d'' sample_files) (disk_of ''d'' sample_files) ''k'' 3 {} = Ok m"
    and m: "\<forall>k. k \<noteq> ''k'' \<longrightarrow>
      m k = (if prefix ''k'' k then map_option vt_of (latest_version k 3 {} (all_entries sample_files)) else None)"
    using SsTable_PrefixScan_exact [OF sample_inv sample_unique, of "''k''" 3 "{}"] by blast
  moreover have "m ''kk'' = Some \<lparr>vt_value = ''5'', vt_txnId = 3\<rparr>"
    using m by (simp add: vt_of_def latest_version_def candidates_def visible_def all_entries_def
        sample_files_def tf_entries_def)
  moreover have "m ''m'' = None"
    using m by simp
  ultimately show ?thesis by blast
qed

section \<open>The directory as a store of versions\<close>

text \<open>
  A directory whose lookups are exact for every key and reader: files in the order of their versions,
  no empty values, and the versions of a key in one block of each file.
\<close>

definition sst_exact :: "SsTable \<times> disk \<times> table_file list \<Rightarrow> bool" where
  "sst_exact = (\<lambda>(st, d, tfs). sst_inv st d tfs \<and> (\<forall>k. chronological k tfs) \<and>
     (\<forall>e \<in> set (all_entries tfs). Value e \<noteq> '''') \<and> (\<forall>k. \<forall>tf \<in> set tfs. one_block k tf))"

definition sst_entries :: "SsTable \<times> disk \<times> table_file list \<Rightarrow> Entry list" where
  "sst_entries = (\<lambda>(st, d, tfs). all_entries tfs)"

definition sst_get :: "SsTable \<times> disk \<times> table_file list \<Rightarrow> string \<Rightarrow> u64 \<Rightarrow> u64 set \<Rightarrow> string option" where
  "sst_get = (\<lambda>(st, d, tfs) k t a.
     case SsTable_Get st d k t a of Ok v \<Rightarrow> if v = '''' then None else Some v | _ \<Rightarrow> None)"

lemma chronological_unique:
  assumes "\<forall>k. chronological k tfs" "\<forall>tf \<in> set tfs. ordered (tf_entries tf)"
  shows "unique_versions (all_entries tfs)"
  using assms
proof (induction tfs)
  case Nil
  then show ?case by (simp add: all_entries_def unique_versions_def)
next
  case (Cons tf tfs)
  then have "unique_versions (all_entries tfs)" "unique_versions (tf_entries tf)"
    by (auto simp: chronological_def intro: ordered_unique)
  moreover have "version_of e \<noteq> version_of f" if "e \<in> set (tf_entries tf)" "f \<in> set (all_entries tfs)" for e f
    using Cons.prems(1) that by (fastforce simp: chronological_def all_entries_def version_of_def)
  then have "version_of ` set (tf_entries tf) \<inter> version_of ` set (all_entries tfs) = {}"
    by fastforce
  ultimately show ?case
    by (simp add: all_entries_def unique_versions_def)
qed

lemma SsTable_Get_exact_all:
  assumes "sst_exact (st, d, tfs)"
  shows "SsTable_Get st d k t a =
    Ok (case latest_version k t a (all_entries tfs) of None \<Rightarrow> '''' | Some e \<Rightarrow> Value e)"
proof -
  have inv: "sst_inv st d tfs" and chron: "chronological k tfs"
    and ne: "\<forall>e \<in> set (all_entries tfs). Key e = k \<longrightarrow> Value e \<noteq> ''''"
    and one: "\<forall>tf \<in> set tfs. one_block k tf"
    using assms by (auto simp: sst_exact_def)
  have "file_value k t a tf =
      (case latest_version k t a (tf_entries tf) of None \<Rightarrow> '''' | Some e \<Rightarrow> Value e)" if "tf \<in> set tfs" for tf
    using tf_from_complete [of d tf k t a] inv one that by (simp add: file_value_def sst_inv_def)
  then show ?thesis
    using inv by (simp add: SsTable_Get_eq first_nonempty_latest chron ne)
qed

interpretation sst: version_store sst_exact sst_entries sst_get
proof
  fix s :: "SsTable \<times> disk \<times> table_file list" and k t a
  assume exact: "sst_exact s"
  obtain st d tfs where s: "s = (st, d, tfs)" by (metis prod_cases3)
  show "unique_versions (sst_entries s)"
    using exact by (auto simp: s sst_exact_def sst_entries_def sst_inv_def file_ok_def
        intro: chronological_unique)
  have "Value e \<noteq> ''''" if "latest_version k t a (all_entries tfs) = Some e" for e
    using latest_version_SomeD(1) [OF that] exact by (auto simp: s sst_exact_def)
  then show "sst_get s k t a = map_option Value (latest_version k t a (sst_entries s))"
    using SsTable_Get_exact_all [of st d tfs k t a] exact
    by (auto simp: s sst_get_def sst_entries_def split: option.splits)
qed

end
