(* ===== verification/Compaction.thy ===== *)
theory Compaction
  imports SsTableRead
begin

text \<open>
  Compaction of \<open>sstable/compaction.go\<close>: all files that exist when it starts are merged into one that
  keeps, of the versions up to the smallest active transaction id, only the newest of each key. The
  code runs it in a goroutine; the model has its phases as separate operations, between which other
  operations of the table may run, and their sequential composition \<open>RunCompaction\<close>.
\<close>

section \<open>The operations\<close>

text \<open>The fields of \<open>keyValueTxnId\<close> are those of a memtable entry.\<close>

type_synonym keyValueTxnId = Entry

definition ShouldRunCompaction :: "SsTable \<Rightarrow> bool" where
  "ShouldRunCompaction st \<longleftrightarrow> \<not> compacting st \<and> 4 \<le> length (firstLevelFiles st)"

text \<open>One entry of a file: a version above the bound is kept, one below competes for its key.\<close>

definition compact_entry ::
  "u64 \<Rightarrow> (string \<rightharpoonup> valueTxnId) \<times> keyValueTxnId list \<Rightarrow> Entry \<Rightarrow>
   (string \<rightharpoonup> valueTxnId) \<times> keyValueTxnId list" where
  "compact_entry minActiveTxnId = (\<lambda>(compactedMap, compactedEntries) e.
     if TxnId e \<le> minActiveTxnId then
       (if (case compactedMap (Key e) of None \<Rightarrow> True | Some c \<Rightarrow> vt_txnId c < TxnId e)
        then (compactedMap(Key e \<mapsto> \<lparr>vt_value = Value e, vt_txnId = TxnId e\<rparr>), compactedEntries)
        else (compactedMap, compactedEntries))
     else (compactedMap, compactedEntries @ [e]))"

function compact_loop ::
  "u64 \<Rightarrow> bytes \<Rightarrow> nat \<Rightarrow> (string \<rightharpoonup> valueTxnId) \<times> keyValueTxnId list \<Rightarrow>
   ((string \<rightharpoonup> valueTxnId) \<times> keyValueTxnId list) result" where
  "compact_loop minActiveTxnId buf i acc =
     (if i < length buf then
        (case readSsTableEntry buf i of
           Err er \<Rightarrow> Err er
         | Panic \<Rightarrow> Panic
         | Ok (e, i) \<Rightarrow> compact_loop minActiveTxnId buf i (compact_entry minActiveTxnId acc e))
      else Ok acc)"
  by pat_completeness auto
termination
  by (relation "measure (\<lambda>(_, buf, i, _). length buf - i)")
    (auto dest!: readSsTableEntry_progress)

declare compact_loop.simps [simp del]

text \<open>The files are read from the newest to the oldest: the argument is the reversed list.\<close>

fun compact_files ::
  "disk \<Rightarrow> u64 \<Rightarrow> string list \<Rightarrow> (string \<rightharpoonup> valueTxnId) \<times> keyValueTxnId list \<Rightarrow>
   ((string \<rightharpoonup> valueTxnId) \<times> keyValueTxnId list) result" where
  "compact_files d minActiveTxnId [] acc = Ok acc"
| "compact_files d minActiveTxnId (f # fs) acc =
     rbind (getIndexOffset d f) (\<lambda>indexOffset.
       case d_files d f of
         None \<Rightarrow> Err (FileNotFound f)
       | Some content \<Rightarrow>
           (case ReadAt content (unat indexOffset) 0 of
              (buf, eof) \<Rightarrow>
                if eof then Err ReadPastEnd
                else rbind (compact_loop minActiveTxnId buf 0 acc) (\<lambda>acc.
                       compact_files d minActiveTxnId fs acc)))"

definition buildCompactedEntries ::
  "((string \<rightharpoonup> valueTxnId) \<Rightarrow> (string \<times> valueTxnId) list) \<Rightarrow> disk \<Rightarrow> string list \<Rightarrow> u64 \<Rightarrow>
   keyValueTxnId list result" where
  "buildCompactedEntries rng d files minActiveTxnId =
     rbind (compact_files d minActiveTxnId (rev files) (Map.empty, []))
       (\<lambda>(compactedMap, compactedEntries).
          Ok (compactedEntries @
            map (\<lambda>(key, valueTxn). mk_entry key (vt_value valueTxn) (vt_txnId valueTxn)) (rng compactedMap)))"

text \<open>
  \<open>sort.Slice\<close> by key and transaction id; the order it leaves open, that of entries with the same key
  and id, is the order of the argument here.
\<close>

definition sortedSsTableEntries :: "keyValueTxnId list \<Rightarrow> keyValueTxnId list" where
  "sortedSsTableEntries es = sort_key version_of es"

definition atomicSwap ::
  "SsTable \<Rightarrow> disk \<Rightarrow> string \<Rightarrow> string list \<Rightarrow> indexBlockEntry list \<Rightarrow> nat \<Rightarrow> SsTable \<times> disk" where
  "atomicSwap st d compactedFile oldFiles compactedIndexBlock compactedIndexOffset =
     (let kept = filter (\<lambda>i. firstLevelFiles st ! i \<notin> set oldFiles) [0..<length (firstLevelFiles st)];
          files = compactedFile # map (\<lambda>i. firstLevelFiles st ! i) kept;
          st = st\<lparr>firstLevelFiles := files,
                  indexBlocks := compactedIndexBlock # map (\<lambda>i. indexBlocks st ! i) kept,
                  indexOffsets := compactedIndexOffset # map (\<lambda>i. indexOffsets st ! i) kept,
                  st_manifest := (st_manifest st)\<lparr>FileNames := files\<rparr>\<rparr>
      in (st, saveManifest st d))"

definition removeFiles :: "disk \<Rightarrow> string list \<Rightarrow> disk" where
  "removeFiles d fs = d\<lparr>d_files := (d_files d) |` (- set fs)\<rparr>"

text \<open>The phases: take the list of files, write the merged file, swap and delete.\<close>

definition compaction_start :: "SsTable \<Rightarrow> SsTable \<times> string list" where
  "compaction_start st = (st\<lparr>compacting := True\<rparr>, firstLevelFiles st)"

definition compaction_write ::
  "((string \<rightharpoonup> valueTxnId) \<Rightarrow> (string \<times> valueTxnId) list) \<Rightarrow> u64 \<Rightarrow> SsTable \<Rightarrow> disk \<Rightarrow> string list \<Rightarrow>
   (string \<times> nat \<times> indexBlockEntry list \<times> SsTable \<times> disk) result" where
  "compaction_write rng minActiveTxnId st d filesToCompact =
     rbind (buildCompactedEntries rng d filesToCompact minActiveTxnId) (\<lambda>compactedSsTableEntries.
       let sortedEntries = sortedSsTableEntries compactedSsTableEntries;
           (compactedFile, st, d) = NewFile st d;
           (compactedIndexOffset, compactedIndexBlock, d) =
             writeToFile st d compactedFile (map (\<lambda>e. (Key e, Value e, TxnId e)) sortedEntries)
       in Ok (compactedFile, compactedIndexOffset, compactedIndexBlock, st, d))"

definition compaction_finish ::
  "SsTable \<Rightarrow> disk \<Rightarrow> string \<Rightarrow> string list \<Rightarrow> indexBlockEntry list \<Rightarrow> nat \<Rightarrow> SsTable \<times> disk" where
  "compaction_finish st d compactedFile filesToCompact compactedIndexBlock compactedIndexOffset =
     (let (st, d) = atomicSwap st d compactedFile filesToCompact compactedIndexBlock compactedIndexOffset;
          d = removeFiles d filesToCompact
      in (st\<lparr>compacting := False\<rparr>, d))"

text \<open>
  An error while the entries are collected is logged and ends the compaction; a panic kills the
  process. \<open>None\<close> is the panic.
\<close>

definition RunCompaction ::
  "((string \<rightharpoonup> valueTxnId) \<Rightarrow> (string \<times> valueTxnId) list) \<Rightarrow> u64 \<Rightarrow> SsTable \<Rightarrow> disk \<Rightarrow>
   (SsTable \<times> disk) option" where
  "RunCompaction rng minActiveTxnId st d =
     (let (st, filesToCompact) = compaction_start st
      in case compaction_write rng minActiveTxnId st d filesToCompact of
           Err _ \<Rightarrow> Some (st\<lparr>compacting := False\<rparr>, d)
         | Panic \<Rightarrow> None
         | Ok (f, off, ib, st, d) \<Rightarrow> Some (compaction_finish st d f filesToCompact ib off))"

section \<open>The entries that are kept\<close>

text \<open>
  The specification of a compaction with bound \<open>lim\<close>: every version above the bound, and of each key
  the newest version up to the bound, in the order of key and id.
\<close>

definition keeps :: "u64 \<Rightarrow> Entry list \<Rightarrow> Entry \<Rightarrow> bool" where
  "keeps lim es e \<longleftrightarrow> lim < TxnId e \<or> latest_version (Key e) lim {} es = Some e"

definition compacted :: "u64 \<Rightarrow> Entry list \<Rightarrow> Entry list" where
  "compacted lim es = sort_key version_of (filter (keeps lim es) es)"

lemma visible_up_to [simp]: "visible lim {} x \<longleftrightarrow> x \<le> lim"
  by (auto simp: visible_def)

lemma ordered_sort_key: "unique_versions es \<Longrightarrow> ordered (sort_key version_of es)"
proof -
  assume "unique_versions es"
  then have "distinct (map version_of (sort_key version_of es))"
    unfolding unique_versions_def distinct_map by simp
  moreover have "sorted (map version_of (sort_key version_of es))"
    by simp
  ultimately have "sorted_wrt (<) (map version_of (sort_key version_of es))"
    by (simp only: strict_sorted_iff)
  then show ?thesis
    unfolding sorted_wrt_map by (rule sorted_wrt_mono_rel [rotated]) (simp add: Entry_Less_iff)
qed

lemma unique_versions_filter: "unique_versions es \<Longrightarrow> unique_versions (filter P es)"
  by (simp add: unique_versions_def distinct_map_filter)

lemma compacted_ordered: "unique_versions es \<Longrightarrow> ordered (compacted lim es)"
  by (simp add: compacted_def ordered_sort_key unique_versions_filter)

lemma set_compacted [simp]: "set (compacted lim es) = {e \<in> set es. keeps lim es e}"
  by (simp add: compacted_def)

text \<open>The loop over one file and the loop over the files are a fold over the entries.\<close>

lemma compact_loop_entries:
  assumes "length (pre @ enc_entries es) < 2 ^ 32"
  shows "compact_loop lim (pre @ enc_entries es) (length pre) acc = Ok (foldl (compact_entry lim) acc es)"
  using assms
proof (induction es arbitrary: pre acc)
  case Nil
  then show ?case by (simp add: compact_loop.simps)
next
  case (Cons e es)
  let ?buf = "pre @ enc_entry e @ enc_entries es"
  have "length pre < length ?buf"
    by (simp add: length_enc_entry)
  then have "compact_loop lim ?buf (length pre) acc =
      compact_loop lim ?buf (length (pre @ enc_entry e)) (compact_entry lim acc e)"
    using readSsTableEntry_entries [OF Cons.prems]
    by (subst compact_loop.simps) (simp del: length_append)
  also have "\<dots> = Ok (foldl (compact_entry lim) (compact_entry lim acc e) es)"
    using Cons.IH [of "pre @ enc_entry e" "compact_entry lim acc e"] Cons.prems by simp
  finally show ?case by simp
qed

lemma compact_files_entries:
  assumes "\<forall>tf \<in> set tfs. file_ok d tf"
  shows "compact_files d lim (map tf_name tfs) acc = Ok (foldl (compact_entry lim) acc (all_entries tfs))"
  using assms
proof (induction tfs arbitrary: acc)
  case Nil
  then show ?case by (simp add: all_entries_def)
next
  case (Cons tf tfs)
  have ok: "file_ok d tf" using Cons.prems by simp
  then have content: "d_files d (tf_name tf) = Some (file_bytes (tf_entries tf) (tf_index tf))"
    and len: "length (file_bytes (tf_entries tf) (tf_index tf)) < 2 ^ 32"
    by (simp_all add: file_ok_def tf_bytes_def)
  have small: "length (enc_entries (tf_entries tf)) < 2 ^ 32"
    using len by (simp add: length_file_bytes)
  then have off: "unat (word_of_nat (length (enc_entries (tf_entries tf))) :: u32) =
      length (enc_entries (tf_entries tf))"
    by (simp add: unat_of_nat)
  have "ReadAt (file_bytes (tf_entries tf) (tf_index tf)) (length (enc_entries (tf_entries tf))) 0 =
      (enc_entries (tf_entries tf), False)"
    using ReadAt_middle [of _ "enc_entries (tf_entries tf)" 0 "[]"] by (simp add: file_bytes_def)
  then have "compact_files d lim (map tf_name (tf # tfs)) acc =
      rbind (compact_loop lim (enc_entries (tf_entries tf)) 0 acc) (compact_files d lim (map tf_name tfs))"
    using getIndexOffset_file [OF content len] content by (simp add: off)
  also have "\<dots> = Ok (foldl (compact_entry lim) (foldl (compact_entry lim) acc (tf_entries tf)) (all_entries tfs))"
    using compact_loop_entries [of "[]" "tf_entries tf" lim acc] small Cons by simp
  finally show ?case by (simp add: all_entries_def)
qed

lemma compact_fold:
  "foldl (compact_entry lim) (m, acc) es =
    (foldl (scan_upd '''' lim {}) m es, acc @ filter (\<lambda>e. lim < TxnId e) es)"
  by (induction es arbitrary: m acc)
    (auto simp: compact_entry_def scan_upd_def not_less split: option.splits)

lemma compact_fold_map:
  assumes "unique_versions es" "set fs = set es"
  shows "foldl (scan_upd '''' lim {}) Map.empty fs = (\<lambda>k. map_option vt_of (latest_version k lim {} es))"
proof
  fix k
  show "foldl (scan_upd '''' lim {}) Map.empty fs k = map_option vt_of (latest_version k lim {} es)"
    using assms(2) by (intro scan_fold_latest [OF assms(1)]) simp_all
qed

lemma latest_version_finite: "finite (dom (\<lambda>k. map_option vt_of (latest_version k lim {} es)))"
proof (rule finite_subset)
  show "dom (\<lambda>k. map_option vt_of (latest_version k lim {} es)) \<subseteq> Key ` set es"
    by (auto dest: latest_version_SomeD(1,2))
qed simp

lemma unique_versions_append:
  "unique_versions (es @ fs) \<longleftrightarrow> unique_versions es \<and> unique_versions fs \<and>
    version_of ` set es \<inter> version_of ` set fs = {}"
  by (simp add: unique_versions_def)

lemma unique_versions_rev: "unique_versions (all_entries (rev tfs)) \<longleftrightarrow> unique_versions (all_entries tfs)"
proof (induction tfs)
  case (Cons tf tfs)
  have "set (all_entries (rev tfs)) = set (all_entries tfs)"
    by (simp add: all_entries_def)
  moreover have "all_entries (rev (tf # tfs)) = all_entries (rev tfs) @ tf_entries tf"
    "all_entries (tf # tfs) = tf_entries tf @ all_entries tfs"
    by (simp_all add: all_entries_def)
  ultimately show ?case
    using Cons by (auto simp: unique_versions_append)
qed simp

text \<open>
  What is collected, sorted, is the specification; the order in which the map of kept versions is
  visited does not matter.
\<close>

lemma buildCompactedEntries_eq:
  assumes "\<forall>tf \<in> set tfs. file_ok d tf" "unique_versions (all_entries tfs)" "range_order rng"
  obtains es where "buildCompactedEntries rng d (map tf_name tfs) lim = Ok es"
    "sortedSsTableEntries es = compacted lim (all_entries tfs)"
proof -
  let ?all = "all_entries tfs"
  let ?m = "\<lambda>k. map_option vt_of (latest_version k lim {} ?all)"
  let ?old = "map (\<lambda>(key, vt). mk_entry key (vt_value vt) (vt_txnId vt)) (rng ?m)"
  let ?new = "filter (\<lambda>e. lim < TxnId e) (all_entries (rev tfs))"
  have same: "set (all_entries (rev tfs)) = set ?all"
    by (simp add: all_entries_def)
  have rng: "enumerates (rng ?m) ?m"
    using assms(3) latest_version_finite by (simp add: range_order_def)
  have "compact_files d lim (rev (map tf_name tfs)) (Map.empty, []) = Ok (?m, ?new)"
    using compact_files_entries [of "rev tfs" d lim "(Map.empty, [])"] assms(1)
    by (simp add: compact_fold compact_fold_map [OF assms(2) same] rev_map)
  then have build: "buildCompactedEntries rng d (map tf_name tfs) lim = Ok (?new @ ?old)"
    by (simp add: buildCompactedEntries_def)
  have old_set: "set ?old = {e. latest_version (Key e) lim {} ?all = Some e}"
  proof -
    have "e \<in> set ?old \<longleftrightarrow> latest_version (Key e) lim {} ?all = Some e" for e
    proof -
      have "e \<in> set ?old \<longleftrightarrow> (\<exists>k v. ?m k = Some v \<and> e = mk_entry k (vt_value v) (vt_txnId v))"
        unfolding set_map enumerates_set [OF rng] by auto
      also have "\<dots> \<longleftrightarrow>
          (\<exists>k x. latest_version k lim {} ?all = Some x \<and> e = mk_entry k (Value x) (TxnId x))"
        by (rule iffI; elim exE conjE) (fastforce simp: vt_of_def)+
      also have "\<dots> \<longleftrightarrow> (\<exists>x. latest_version (Key x) lim {} ?all = Some x \<and> e = x)"
        using latest_version_SomeD(2) [of _ lim "{}" ?all] by (metis mk_entry_eta)
      finally show ?thesis by simp
    qed
    then show ?thesis by blast
  qed

  have "set (?new @ ?old) = {e \<in> set ?all. keeps lim ?all e}"
    unfolding set_append old_set by (auto simp: same keeps_def dest: latest_version_SomeD(1))
  moreover have "unique_versions (?new @ ?old)"
  proof -
    have "unique_versions ?new"
      using assms(2) by (intro unique_versions_filter) (simp add: unique_versions_rev)
    moreover have "unique_versions ?old"
      using rng unfolding enumerates_def unique_versions_def
      by (simp add: comp_def version_of_def distinct_map inj_on_def split_beta)
    moreover have "TxnId e \<le> lim" if "e \<in> set ?old" for e
      using that latest_version_SomeD(3) unfolding old_set by fastforce
    then have "version_of ` set ?new \<inter> version_of ` set ?old = {}"
      unfolding version_of_def by fastforce
    ultimately show ?thesis
      by (simp only: unique_versions_append simp_thms)
  qed
  then have "ordered (sortedSsTableEntries (?new @ ?old))"
    by (simp add: sortedSsTableEntries_def ordered_sort_key)
  ultimately have "sortedSsTableEntries (?new @ ?old) = compacted lim ?all"
    by (intro ordered_set_eq compacted_ordered [OF assms(2)])
      (simp_all add: sortedSsTableEntries_def del: set_append)
  with build show thesis by (rule that)
qed

section \<open>What readers keep\<close>

text \<open>
  A reader that sees the newest version up to the bound of a key, or to whom no version up to the bound
  exists, reads the same before and after.
\<close>

lemma compacted_unique: "unique_versions es \<Longrightarrow> unique_versions (compacted lim es)"
  by (rule ordered_unique [OF compacted_ordered])

lemma compacted_latest:
  assumes "unique_versions es" "\<And>e. latest_version k lim {} es = Some e \<Longrightarrow> visible t a (TxnId e)"
  shows "latest_version k t a (compacted lim es) = latest_version k t a es"
proof (cases "latest_version k t a es")
  case None
  then have "latest_version k t a (compacted lim es) = None"
    by (auto simp: latest_version_None)
  with None show ?thesis by simp
next
  case (Some e)
  note e = latest_version_SomeD [OF Some]
  have "keeps lim es e"
  proof (cases "lim < TxnId e")
    case False
    then obtain m where m: "latest_version k lim {} es = Some m"
      using e(1,2) by (cases "latest_version k lim {} es") (auto simp: latest_version_None)
    note mD = latest_version_SomeD [OF m]
    have "TxnId e \<le> TxnId m"
      using False e(1,2) by (intro mD(4)) auto
    moreover have "TxnId m \<le> TxnId e"
      using e(4) [OF mD(1,2)] assms(2) [OF m] by simp
    ultimately have "m = e"
      using assms(1) e(1,2) mD(1,2) by (intro unique_versionsD [of es]) auto
    with m e(2) show ?thesis by (simp add: keeps_def)
  qed (simp add: keeps_def)
  then have "latest_version k t a (compacted lim es) = Some e"
    using e by (intro latest_versionI compacted_unique [OF assms(1)]) auto
  with Some show ?thesis by simp
qed

section \<open>Swapping the files\<close>

lemma select_nth: "map (\<lambda>i. h (xs ! i)) (filter (\<lambda>i. P (xs ! i)) [0..<length xs]) = map h (filter P xs)"
proof -
  have "filter P xs = map ((!) xs) (filter (P \<circ> (!) xs) [0..<length xs])" by (metis filter_map map_nth)
  then show ?thesis by (simp add: o_def)
qed

lemma select_field:
  "map (\<lambda>i. map h xs ! i) (filter (\<lambda>i. map g xs ! i \<notin> S) [0..<length xs]) = map h (filter (\<lambda>x. g x \<notin> S) xs)"
proof -
  have "map (\<lambda>i. map h xs ! i) (filter (\<lambda>i. map g xs ! i \<notin> S) [0..<length xs]) =
      map (\<lambda>i. h (xs ! i)) (filter (\<lambda>i. g (xs ! i) \<notin> S) [0..<length xs])"
    by (intro map_cong filter_cong) auto
  with select_nth [of h xs "\<lambda>x. g x \<notin> S"] show ?thesis by simp
qed

text \<open>Whatever files were merged, those that were not stay, behind the merged file.\<close>

lemma compaction_finish_files:
  assumes inv: "sst_inv st d tfs" and c: "file_ok d c" "tf_name c \<notin> set (map tf_name tfs)" "tf_name c \<notin> set fs"
    and fin: "compaction_finish st d (tf_name c) fs (tf_index c) (tf_offset c) = (st', d')"
  defines "newer \<equiv> filter (\<lambda>tf. tf_name tf \<notin> set fs) tfs"
  shows "sst_inv st' d' (c # newer)" "\<not> compacting st'" "d_files d' = d_files d |` (- set fs)"
    "d_manifests d' (manifestPath (dataFilesDirectory st')) = Some (st_manifest st')"
    "dataFilesDirectory st' = dataFilesDirectory st" "blockLength st' = blockLength st"
    "NextFileId (st_manifest st') = NextFileId (st_manifest st)"
proof -
  let ?files = "tf_name c # map tf_name newer"
  have arrays: "firstLevelFiles st = map tf_name tfs" "indexBlocks st = map tf_index tfs" "indexOffsets st = map tf_offset tfs"
    using inv by (simp_all add: sst_inv_def)
  note sel = select_field [of _ tfs tf_name "set fs", folded newer_def]
  have st': "st' = st\<lparr>firstLevelFiles := ?files, indexBlocks := tf_index c # map tf_index newer,
      indexOffsets := tf_offset c # map tf_offset newer,
      st_manifest := (st_manifest st)\<lparr>FileNames := ?files\<rparr>, compacting := False\<rparr>"
    and d': "d' = removeFiles (d\<lparr>d_manifests := (d_manifests d)(manifestPath (dataFilesDirectory st) \<mapsto>
      (st_manifest st)\<lparr>FileNames := ?files\<rparr>)\<rparr>) fs"
    using fin by (auto simp: compaction_finish_def atomicSwap_def arrays saveManifest_def Let_def sel)
  have "file_ok d' tf" if "tf \<in> set (c # newer)" for tf
    using that inv c by (auto simp: newer_def sst_inv_def file_ok_def d' removeFiles_def restrict_map_def)
  moreover have "distinct (map tf_name newer)" "tf_name c \<notin> set (map tf_name newer)"
    using inv c(2) by (auto simp: newer_def sst_inv_def distinct_map_filter)
  ultimately show "sst_inv st' d' (c # newer)"
    using inv by (auto simp: sst_inv_def st' d' removeFiles_def restrict_map_def)
  show "\<not> compacting st'" "d_files d' = d_files d |` (- set fs)"
    "d_manifests d' (manifestPath (dataFilesDirectory st')) = Some (st_manifest st')"
    "dataFilesDirectory st' = dataFilesDirectory st" "blockLength st' = blockLength st"
    "NextFileId (st_manifest st') = NextFileId (st_manifest st)"
    by (simp_all add: st' d' removeFiles_def)
qed

lemma compaction_finish_inv:
  assumes inv: "sst_inv st d (olds @ newer)" and c: "file_ok d c" "tf_name c \<notin> set (map tf_name (olds @ newer))"
    and fin: "compaction_finish st d (tf_name c) (map tf_name olds) (tf_index c) (tf_offset c) = (st', d')"
  shows "sst_inv st' d' (c # newer)" "\<not> compacting st'"
    "\<And>tf. tf \<in> set olds \<Longrightarrow> d_files d' (tf_name tf) = None"
    "d_manifests d' (manifestPath (dataFilesDirectory st')) = Some (st_manifest st')"
    "dataFilesDirectory st' = dataFilesDirectory st" "blockLength st' = blockLength st"
proof -
  have "distinct (map tf_name (olds @ newer))" using inv by (simp add: sst_inv_def)
  then have kept: "filter (\<lambda>tf. tf_name tf \<notin> set (map tf_name olds)) (olds @ newer) = newer"
    by (auto simp: filter_empty_conv filter_id_conv disjoint_iff)
  have "tf_name c \<notin> set (map tf_name olds)" using c(2) by simp
  note f = compaction_finish_files [OF inv c this fin, unfolded kept]
  show "sst_inv st' d' (c # newer)" "\<not> compacting st'"
    "d_manifests d' (manifestPath (dataFilesDirectory st')) = Some (st_manifest st')"
    "dataFilesDirectory st' = dataFilesDirectory st" "blockLength st' = blockLength st" by (fact f)+
  show "\<And>tf. tf \<in> set olds \<Longrightarrow> d_files d' (tf_name tf) = None" by (simp add: f(3) restrict_map_def)
qed

section \<open>A whole compaction\<close>

definition compacted_fits :: "u64 \<Rightarrow> table_file list \<Rightarrow> bool" where
  "compacted_fits lim tfs \<longleftrightarrow> 2 * length (enc_entries (compacted lim (all_entries tfs))) + 4 < 2 ^ 32"

lemma compaction_write_inv:
  assumes inv: "sst_inv st d (olds @ newer)"
    and uni: "unique_versions (all_entries olds)" and rng: "range_order rng"
    and fits: "compacted_fits lim olds"
  obtains c st1 d1 where
    "compaction_write rng lim st d (map tf_name olds) = Ok (tf_name c, tf_offset c, tf_index c, st1, d1)"
    "tf_entries c = compacted lim (all_entries olds)" "sst_inv st1 d1 (olds @ newer)"
    "file_ok d1 c" "tf_name c \<notin> set (map tf_name (olds @ newer))"
    "tf_name c = ssTableFilePath (dataFilesDirectory st) (NextFileId (st_manifest st))"
    "st1 = st\<lparr>st_manifest := (st_manifest st)\<lparr>NextFileId := NextFileId (st_manifest st) + 1\<rparr>\<rparr>"
    "d_manifests d1 = d_manifests d"
proof -
  let ?es = "compacted lim (all_entries olds)"
  have olds: "\<forall>tf \<in> set olds. file_ok d tf"
    using inv by (simp add: sst_inv_def)
  obtain es where build: "buildCompactedEntries rng d (map tf_name olds) lim = Ok es"
    "sortedSsTableEntries es = ?es"
    using buildCompactedEntries_eq [OF olds uni rng] .
  obtain f st1 d0 where new: "NewFile st d = (f, st1, d0)" by (metis prod_cases3)
  note nf = NewFile_fresh [OF inv new]
  have ne: "\<forall>e \<in> set ?es. Key e \<noteq> ''''"
    using olds by (auto simp: all_entries_def file_ok_def)
  have "\<not> skipIndex st1" "d_files d0 f = Some []"
    using inv nf(3,5) by (simp_all add: sst_inv_def)
  note w = writeToFile_new [OF this ne]
  let ?c = "new_file st1 f ?es" and ?d = "d0\<lparr>d_files := (d_files d0)(f \<mapsto> tf_bytes (new_file st1 f ?es))\<rparr>"
  have "compaction_write rng lim st d (map tf_name olds) = Ok (f, tf_offset ?c, tf_index ?c, st1, ?d)"
    using w by (simp add: compaction_write_def build new calls_of_def)
  moreover have "file_ok ?d tf" if "tf \<in> set (olds @ newer)" for tf
  proof -
    have "tf_name tf \<noteq> f" "file_ok d tf"
      using that nf(2) inv by (auto simp: sst_inv_def)
    then show ?thesis
      by (simp add: file_ok_def nf(3))
  qed
  then have "sst_inv st1 ?d (olds @ newer)"
    using inv nf(1) by (auto simp: sst_inv_def nf(5) nf(3))
  moreover have "file_ok ?d ?c"
  proof -
    have "\<forall>b \<in> set (tf_blocks ?c). b \<noteq> []"
      by (auto simp: new_file_def)
    then show ?thesis
      using ne new_file_small fits compacted_ordered [OF uni]
      by (simp add: file_ok_def compacted_fits_def)
  qed
  ultimately show thesis
    using nf by (intro that [of ?c st1 ?d]) (simp_all add: nf(4))
qed

lemma RunCompaction_inv:
  assumes inv: "sst_inv st d tfs" and uni: "unique_versions (all_entries tfs)" and rng: "range_order rng"
    and fits: "compacted_fits lim tfs"
  obtains st' d' c where "RunCompaction rng lim st d = Some (st', d')" "sst_inv st' d' [c]"
    "tf_entries c = compacted lim (all_entries tfs)" "\<not> compacting st'"
    "\<And>tf. tf \<in> set tfs \<Longrightarrow> d_files d' (tf_name tf) = None"
    "d_manifests d' (manifestPath (dataFilesDirectory st')) = Some (st_manifest st')"
proof -
  let ?st0 = "st\<lparr>compacting := True\<rparr>"
  have start: "compaction_start st = (?st0, map tf_name tfs)"
    using inv by (simp add: compaction_start_def sst_inv_def)
  have "sst_inv ?st0 d (tfs @ [])"
    using inv by (simp add: sst_inv_def)
  from compaction_write_inv [OF this uni rng fits] obtain c st1 d1
    where w: "compaction_write rng lim ?st0 d (map tf_name tfs) = Ok (tf_name c, tf_offset c, tf_index c, st1, d1)"
      "tf_entries c = compacted lim (all_entries tfs)" "sst_inv st1 d1 (tfs @ [])" "file_ok d1 c"
      "tf_name c \<notin> set (map tf_name (tfs @ []))" by metis
  obtain st' d' where fin: "compaction_finish st1 d1 (tf_name c) (map tf_name tfs) (tf_index c) (tf_offset c) = (st', d')"
    by (metis prod.exhaust)
  note f = compaction_finish_inv [OF w(3,4,5) fin]
  show thesis
    using f w(2) by (intro that [of st' d' c]) (simp_all add: RunCompaction_def start w(1) fin)
qed

text \<open>
  C27. A compaction that runs without interference always completes. It leaves one well-formed file
  that holds exactly the versions above the bound and, of each key, the newest version up to it; the
  old files are gone from the disk, the manifest names the new one, and the next compaction may run.
  The order in which the map is ranged over does not matter.
\<close>

theorem RunCompaction_correct:
  assumes "sst_inv st d tfs" "unique_versions (all_entries tfs)" "range_order rng" "compacted_fits lim tfs"
  shows "\<exists>st' d' c. RunCompaction rng lim st d = Some (st', d') \<and> sst_inv st' d' [c] \<and>
    ordered (tf_entries c) \<and>
    set (tf_entries c) = {e \<in> set (all_entries tfs). lim < TxnId e \<or>
      (\<forall>f \<in> set (all_entries tfs). Key f = Key e \<and> TxnId f \<le> lim \<longrightarrow> TxnId f \<le> TxnId e)} \<and>
    (\<forall>tf \<in> set tfs. d_files d' (tf_name tf) = None) \<and>
    d_manifests d' (manifestPath (dataFilesDirectory st')) = Some (st_manifest st') \<and> \<not> compacting st'"
proof -
  obtain st' d' c where run: "RunCompaction rng lim st d = Some (st', d')" "sst_inv st' d' [c]"
    "tf_entries c = compacted lim (all_entries tfs)" "\<not> compacting st'"
    "\<And>tf. tf \<in> set tfs \<Longrightarrow> d_files d' (tf_name tf) = None"
    "d_manifests d' (manifestPath (dataFilesDirectory st')) = Some (st_manifest st')"
    using RunCompaction_inv [OF assms] by metis
  have "keeps lim (all_entries tfs) e \<longleftrightarrow> lim < TxnId e \<or>
      (\<forall>f \<in> set (all_entries tfs). Key f = Key e \<and> TxnId f \<le> lim \<longrightarrow> TxnId f \<le> TxnId e)"
    if "e \<in> set (all_entries tfs)" for e
  proof (cases "lim < TxnId e")
    case False
    then show ?thesis
      using that latest_versionI [OF assms(2) that, of "Key e" lim "{}"]
        latest_version_SomeD(4) [of "Key e" lim "{}" "all_entries tfs" e]
      by (auto simp: keeps_def)
  qed (simp add: keeps_def)
  then have "set (tf_entries c) = {e \<in> set (all_entries tfs). lim < TxnId e \<or>
      (\<forall>f \<in> set (all_entries tfs). Key f = Key e \<and> TxnId f \<le> lim \<longrightarrow> TxnId f \<le> TxnId e)}"
    unfolding run(3) set_compacted by blast
  then show ?thesis
    using run compacted_ordered [OF assms(2)] by metis
qed

lemma sample_compacted: "compacted 3 (all_entries sample_files) =
  [mk_entry ''a'' ''1'' 1, mk_entry ''k'' ''4'' 3, mk_entry ''kk'' ''5'' 3, mk_entry ''m'' ''3'' 2]"
  by (simp add: compacted_def keeps_def latest_version_def candidates_def all_entries_def sample_files_def
      tf_entries_def version_of_def mk_entry_def less_prod_def)

lemma sample_fits: "compacted_fits 3 sample_files"
  by (simp add: compacted_fits_def sample_compacted length_enc_entry)

theorem RunCompaction_correct_witness:
  "\<exists>st' d' c. RunCompaction sorted_range 3 (table_of ''d'' sample_files) (disk_of ''d'' sample_files) = Some (st', d') \<and>
    sst_inv st' d' [c] \<and> mk_entry ''k'' ''4'' 3 \<in> set (tf_entries c) \<and> mk_entry ''k'' ''2'' 1 \<notin> set (tf_entries c)"
proof -
  obtain st' d' c where c: "RunCompaction sorted_range 3 (table_of ''d'' sample_files) (disk_of ''d'' sample_files) = Some (st', d')"
    "sst_inv st' d' [c]" and set: "set (tf_entries c) = {e \<in> set (all_entries sample_files). 3 < TxnId e \<or>
      (\<forall>f \<in> set (all_entries sample_files). Key f = Key e \<and> TxnId f \<le> 3 \<longrightarrow> TxnId f \<le> TxnId e)}"
    using RunCompaction_correct [OF sample_inv sample_unique sorted_range_order sample_fits] by blast
  have "mk_entry ''k'' ''4'' 3 \<in> set (tf_entries c)" "mk_entry ''k'' ''2'' 1 \<notin> set (tf_entries c)"
    unfolding set
    by (simp_all add: all_entries_def sample_files_def tf_entries_def mk_entry_def word_le_nat_alt)
  with c show ?thesis by blast
qed

lemma compacted_latest_seen:
  assumes "unique_versions es" "sees_newest k t a (filter (\<lambda>e. TxnId e \<le> lim) es)"
  shows "latest_version k t a (compacted lim es) = latest_version k t a es"
proof (rule compacted_latest [OF assms(1)])
  fix e
  assume "latest_version k lim {} es = Some e"
  note e = latest_version_SomeD [OF this]
  then show "visible t a (TxnId e)"
    using assms(2) by (auto simp: sees_newest_def)
qed

text \<open>
  Compaction does not change what a reader finds, provided that of every key it sees the newest
  version among those up to the bound: prefix scans before and after agree.
\<close>

theorem RunCompaction_preserves_scans:
  assumes "sst_inv st d tfs" "unique_versions (all_entries tfs)" "range_order rng" "compacted_fits lim tfs"
    and "\<forall>k. sees_newest k t a (filter (\<lambda>e. TxnId e \<le> lim) (all_entries tfs))"
  shows "\<exists>st' d' m m'. RunCompaction rng lim st d = Some (st', d') \<and>
    SsTable_PrefixScan st d p t a = Ok m \<and> SsTable_PrefixScan st' d' p t a = Ok m' \<and>
    (\<forall>k. k \<noteq> p \<longrightarrow> m' k = m k)"
proof -
  have scan: "\<exists>m. SsTable_PrefixScan st d p t a = Ok m \<and>
      (\<forall>k. k \<noteq> p \<longrightarrow> m k = (if prefix p k then map_option vt_of (latest_version k t a (all_entries tfs)) else None))"
    if "sst_inv st d tfs" "unique_versions (all_entries tfs)" for st d tfs
    using that by (rule PrefixScan_latest)
  obtain st' d' c where run: "RunCompaction rng lim st d = Some (st', d')" "sst_inv st' d' [c]"
    "tf_entries c = compacted lim (all_entries tfs)"
    using RunCompaction_inv [OF assms(1-4)] by metis
  have all: "all_entries [c] = compacted lim (all_entries tfs)"
    by (simp add: all_entries_def run(3))
  then have "unique_versions (all_entries [c])"
    by (simp add: compacted_unique [OF assms(2)])
  from scan [OF run(2) this] obtain m' where m': "SsTable_PrefixScan st' d' p t a = Ok m'"
    "\<And>k. k \<noteq> p \<Longrightarrow> m' k = (if prefix p k then map_option vt_of (latest_version k t a (all_entries [c])) else None)"
    by blast
  from scan [OF assms(1,2)] obtain m where m: "SsTable_PrefixScan st d p t a = Ok m"
    "\<And>k. k \<noteq> p \<Longrightarrow> m k = (if prefix p k then map_option vt_of (latest_version k t a (all_entries tfs)) else None)"
    by blast
  have "m' k = m k" if "k \<noteq> p" for k
    using assms(5) by (simp add: m(2) [OF that] m'(2) [OF that] all compacted_latest_seen [OF assms(2)])
  with run(1) m(1) m'(1) show ?thesis by blast
qed

theorem RunCompaction_preserves_scans_witness:
  "\<exists>st' d' m m'. RunCompaction sorted_range 3 (table_of ''d'' sample_files) (disk_of ''d'' sample_files) = Some (st', d') \<and>
    SsTable_PrefixScan (table_of ''d'' sample_files) (disk_of ''d'' sample_files) '''' 4 {} = Ok m \<and>
    SsTable_PrefixScan st' d' '''' 4 {} = Ok m' \<and> m' ''k'' = m ''k''"
proof -
  have "visible 4 {} x" if "x \<le> 3" for x
    using that by (simp add: visible_def word_le_nat_alt word_less_nat_alt)
  then have "\<forall>k. sees_newest k 4 {} (filter (\<lambda>e. TxnId e \<le> 3) (all_entries sample_files))"
    unfolding sees_newest_def by simp
  from RunCompaction_preserves_scans [OF sample_inv sample_unique sorted_range_order sample_fits this, of "''''"]
  obtain st' d' m m' where "RunCompaction sorted_range 3 (table_of ''d'' sample_files) (disk_of ''d'' sample_files) = Some (st', d')"
    "SsTable_PrefixScan (table_of ''d'' sample_files) (disk_of ''d'' sample_files) '''' 4 {} = Ok m"
    "SsTable_PrefixScan st' d' '''' 4 {} = Ok m'" "\<forall>k. k \<noteq> '''' \<longrightarrow> m' k = m k"
    by blast
  then show ?thesis by (metis list.distinct(1))
qed

text \<open>
  C28. The condition is needed. A transaction with id 4 that began while transaction 3 was active reads
  the version of transaction 1; a compaction with bound 3 keeps only the version of transaction 3,
  which the reader does not see, so from then on it is told that the key does not exist.
\<close>

theorem RunCompaction_loses_snapshot:
  "SsTable_Get (table_of ''d'' sample_files) (disk_of ''d'' sample_files) ''k'' 4 {3} = Ok ''2'' \<and>
   (\<exists>st' d'. RunCompaction sorted_range 3 (table_of ''d'' sample_files) (disk_of ''d'' sample_files) = Some (st', d') \<and>
     SsTable_Get st' d' ''k'' 4 {3} = Ok '''')"
proof -
  have "SsTable_Get (table_of ''d'' sample_files) (disk_of ''d'' sample_files) ''k'' 4 {3} = Ok ''2''"
    unfolding SsTable_Get_eq [OF sample_inv]
    by (simp add: sample_files_def file_value_def tf_from_def block_count_def latest_version_def
        candidates_def visible_def)
  moreover obtain st' d' c where run: "RunCompaction sorted_range 3 (table_of ''d'' sample_files) (disk_of ''d'' sample_files) = Some (st', d')"
    "sst_inv st' d' [c]" "tf_entries c = compacted 3 (all_entries sample_files)"
    using RunCompaction_inv [OF sample_inv sample_unique sorted_range_order sample_fits] by metis
  have "latest_version ''k'' 4 {3} (tf_from ''k'' c) = None"
    using tf_from_subset [of "''k''" c] by (auto simp: latest_version_None run(3) sample_compacted visible_def)
  then have "SsTable_Get st' d' ''k'' 4 {3} = Ok ''''"
    by (simp add: SsTable_Get_eq [OF run(2)] file_value_def)
  ultimately show ?thesis
    using run(1) by blast
qed

end
