(* ===== verification/TableSteps.thy ===== *)
theory TableSteps
  imports Compaction
begin

text \<open>
  The life of a table directory: flushes, and a compaction goroutine whose phases (take the list of
  files, write the merged file, swap and delete) run between them in any order. The state keeps two
  ghost components: every entry that was ever flushed, and the largest bound that a compaction was
  given. The code starts a compaction only after \<open>ShouldRunCompaction\<close>; the relation has at most one
  at a time, which the code ensures by the \<open>compacting\<close> flag except for the moment between this test
  and the start of the goroutine; what can happen then is in \<open>CompactionRace\<close>.
\<close>

section \<open>Steps\<close>

datatype phase =
  Idle
| Collecting "string list" u64
| Written "string list" string nat "indexBlockEntry list"

record table_state =
  ts_st :: SsTable
  ts_d :: disk
  ts_phase :: phase
  ts_hist :: "Entry list"
  ts_bound :: u64

definition table_init :: "string \<Rightarrow> int \<Rightarrow> table_state" where
  "table_init dir bl =
     \<lparr>ts_st = (table_of dir [])\<lparr>blockLength := bl\<rparr>, ts_d = disk_of dir [],
      ts_phase = Idle, ts_hist = [], ts_bound = 0\<rparr>"

text \<open>A flush writes new versions, in the order of the memtable, to a directory of less than 2 GB.\<close>

definition flushable :: "Entry list \<Rightarrow> Entry list \<Rightarrow> bool" where
  "flushable hist es \<longleftrightarrow> ordered es \<and> (\<forall>e \<in> set es. Key e \<noteq> '''') \<and> unique_versions (hist @ es) \<and>
     2 * length (enc_entries (hist @ es)) + 4 < 2 ^ 32"

inductive table_step ::
  "((string \<rightharpoonup> valueTxnId) \<Rightarrow> (string \<times> valueTxnId) list) \<Rightarrow> table_state \<Rightarrow> table_state \<Rightarrow> bool"
  for rng where
  flush: "\<lbrakk>flushable (ts_hist s) es; write_entries (ts_st s, ts_d s) (calls_of es) = (st, d)\<rbrakk> \<Longrightarrow>
    table_step rng s (s\<lparr>ts_st := st, ts_d := d, ts_hist := ts_hist s @ es\<rparr>)"
| start: "\<lbrakk>ts_phase s = Idle; ShouldRunCompaction (ts_st s); compaction_start (ts_st s) = (st, fs)\<rbrakk> \<Longrightarrow>
    table_step rng s (s\<lparr>ts_st := st, ts_phase := Collecting fs lim, ts_bound := max (ts_bound s) lim\<rparr>)"
| merge: "\<lbrakk>ts_phase s = Collecting fs lim;
    compaction_write rng lim (ts_st s) (ts_d s) fs = Ok (f, off, ib, st, d)\<rbrakk> \<Longrightarrow>
    table_step rng s (s\<lparr>ts_st := st, ts_d := d, ts_phase := Written fs f off ib\<rparr>)"
| finish: "\<lbrakk>ts_phase s = Written fs f off ib;
    compaction_finish (ts_st s) (ts_d s) f fs ib off = (st, d)\<rbrakk> \<Longrightarrow>
    table_step rng s (s\<lparr>ts_st := st, ts_d := d, ts_phase := Idle\<rparr>)"

inductive table_reachable ::
  "((string \<rightharpoonup> valueTxnId) \<Rightarrow> (string \<times> valueTxnId) list) \<Rightarrow> table_state \<Rightarrow> bool"
  for rng where
  init: "table_reachable rng (table_init dir bl)"
| step: "\<lbrakk>table_reachable rng s; table_step rng s s'\<rbrakk> \<Longrightarrow> table_reachable rng s'"

section \<open>The invariant\<close>

text \<open>
  In every phase the directory is well formed, the files being merged are the oldest ones, and a
  reader who sees every id up to the largest bound reads what it would read in the full history.
\<close>

fun phase_ok :: "SsTable \<Rightarrow> disk \<Rightarrow> table_file list \<Rightarrow> u64 \<Rightarrow> phase \<Rightarrow> bool" where
  "phase_ok st d tfs bnd Idle \<longleftrightarrow> True"
| "phase_ok st d tfs bnd (Collecting fs lim) \<longleftrightarrow>
     lim \<le> bnd \<and> (\<exists>olds newer. tfs = olds @ newer \<and> fs = map tf_name olds)"
| "phase_ok st d tfs bnd (Written fs f off ib) \<longleftrightarrow>
     (\<exists>olds newer c lim. tfs = olds @ newer \<and> fs = map tf_name olds \<and> lim \<le> bnd \<and>
        f = tf_name c \<and> off = tf_offset c \<and> ib = tf_index c \<and> file_ok d c \<and>
        f \<notin> set (map tf_name tfs) \<and> tf_entries c = compacted lim (all_entries olds))"

definition same_reads :: "u64 \<Rightarrow> Entry list \<Rightarrow> Entry list \<Rightarrow> bool" where
  "same_reads bnd es fs \<longleftrightarrow>
     (\<forall>k t a. (\<forall>x \<le> bnd. visible t a x) \<longrightarrow> latest_version k t a es = latest_version k t a fs)"

definition table_rel :: "table_state \<Rightarrow> table_file list \<Rightarrow> bool" where
  "table_rel s tfs \<longleftrightarrow>
     sst_inv (ts_st s) (ts_d s) tfs \<and>
     unique_versions (ts_hist s) \<and>
     2 * length (enc_entries (ts_hist s)) + 4 < 2 ^ 32 \<and>
     unique_versions (all_entries tfs) \<and>
     set (all_entries tfs) \<subseteq> set (ts_hist s) \<and>
     same_reads (ts_bound s) (all_entries tfs) (ts_hist s) \<and>
     phase_ok (ts_st s) (ts_d s) tfs (ts_bound s) (ts_phase s)"

lemma all_entries_append [simp]:
  "all_entries [] = []" "all_entries (tf # tfs) = tf_entries tf @ all_entries tfs"
  "all_entries (tfs @ tfs') = all_entries tfs @ all_entries tfs'"
  by (simp_all add: all_entries_def)

lemma unique_versions_subset:
  assumes "unique_versions es" "set fs \<subseteq> set es" "distinct fs"
  shows "unique_versions fs"
  using assms inj_on_subset unfolding unique_versions_def distinct_map by blast

text \<open>The size of a list of distinct entries is bounded by that of any list that contains them.\<close>

lemma length_enc_entries_mono:
  assumes "distinct fs" "set fs \<subseteq> set es"
  shows "length (enc_entries fs) \<le> length (enc_entries es)"
proof -
  have len: "length (enc_entries xs) = (\<Sum>e\<leftarrow>xs. length (enc_entry e))" for xs
    by (induction xs) simp_all
  have "length (enc_entries fs) = (\<Sum>e\<in>set fs. length (enc_entry e))"
    by (simp add: len sum_list_distinct_conv_sum_set assms(1))
  also have "\<dots> \<le> (\<Sum>e\<in>set es. length (enc_entry e))"
    by (rule sum_mono2) (use assms(2) in auto)
  also have "\<dots> = (\<Sum>e\<leftarrow>remdups es. length (enc_entry e))"
    by (simp add: sum_list_distinct_conv_sum_set)
  also have "\<dots> \<le> (\<Sum>e\<leftarrow>es. length (enc_entry e))"
    by (induction es) auto
  finally show ?thesis by (simp add: len)
qed

lemma same_reads_refl [simp]: "same_reads bnd es es"
  by (simp add: same_reads_def)

lemma same_reads_mono: "\<lbrakk>same_reads bnd es fs; bnd \<le> bnd'\<rbrakk> \<Longrightarrow> same_reads bnd' es fs"
  unfolding same_reads_def by (meson order_trans)

lemma same_reads_trans: "\<lbrakk>same_reads bnd es fs; same_reads bnd fs gs\<rbrakk> \<Longrightarrow> same_reads bnd es gs"
  by (simp add: same_reads_def)

lemma same_reads_append:
  "\<lbrakk>same_reads bnd es fs; same_reads bnd es' fs'\<rbrakk> \<Longrightarrow> same_reads bnd (es @ es') (fs @ fs')"
  by (simp add: same_reads_def latest_version_later)

lemma same_reads_compacted:
  assumes "unique_versions es" "lim \<le> bnd"
  shows "same_reads bnd (compacted lim es) es"
  unfolding same_reads_def
  using assms by (auto intro!: compacted_latest dest: latest_version_SomeD(3))

lemma write_entries_frame:
  assumes "sst_inv st d tfs" "write_entries (st, d) calls = (st', d')" "file_ok d c"
  shows "file_ok d' c" "tf_name c \<noteq> ssTableFilePath (dataFilesDirectory st) (NextFileId (st_manifest st))"
proof -
  let ?f = "ssTableFilePath (dataFilesDirectory st) (NextFileId (st_manifest st))"
  have "d_files d ?f = None"
    using assms(1) by (simp add: sst_inv_def)
  then show ne: "tf_name c \<noteq> ?f"
    using assms(3) by (auto simp: file_ok_def)
  obtain f st1 d1 where new: "NewFile st d = (f, st1, d1)" by (metis prod_cases3)
  have "d_files d' (tf_name c) = d_files d (tf_name c)"
    using assms(2) NewFile_fresh(1,3) [OF assms(1) new] ne
    by (auto simp: write_entries_def new SsTable_Write_def writeToFile_def append_file_def saveManifest_def
        Let_def split_beta)
  with assms(3) show "file_ok d' c"
    by (simp add: file_ok_def)
qed

section \<open>Every step keeps it\<close>

lemma table_rel_init: "table_rel (table_init dir bl) []"
  by (simp add: table_rel_def table_init_def sst_inv_def table_of_def disk_of_def unique_versions_def)

lemma table_rel_flush:
  assumes rel: "table_rel s tfs" and fl: "flushable (ts_hist s) es"
    and w: "write_entries (ts_st s, ts_d s) (calls_of es) = (st, d)"
  shows "\<exists>tfs'. table_rel (s\<lparr>ts_st := st, ts_d := d, ts_hist := ts_hist s @ es\<rparr>) tfs'"
proof -
  have inv: "sst_inv (ts_st s) (ts_d s) tfs"
    using rel by (simp add: table_rel_def)
  define f where "f = ssTableFilePath (dataFilesDirectory (ts_st s)) (NextFileId (st_manifest (ts_st s)))"
  let ?nf = "new_file (ts_st s) f es"
  have size: "2 * length (enc_entries es) + 4 < 2 ^ 32"
    using fl by (simp add: flushable_def)
  have "sst_inv st d (tfs @ [?nf])"
    using write_entries_inv [OF inv _ _ size] fl w by (simp add: flushable_def f_def)
  moreover have "unique_versions (all_entries (tfs @ [?nf]))"
    using rel fl by (auto simp: table_rel_def flushable_def unique_versions_append)
  moreover have "same_reads (ts_bound s) (all_entries (tfs @ [?nf])) (ts_hist s @ es)"
    using rel by (auto simp: table_rel_def intro!: same_reads_append)
  moreover have "phase_ok st d (tfs @ [?nf]) (ts_bound s) (ts_phase s)"
  proof (cases "ts_phase s")
    case (Written fs g off ib)
    with rel have "phase_ok (ts_st s) (ts_d s) tfs (ts_bound s) (Written fs g off ib)"
      by (simp add: table_rel_def)
    then obtain olds newer c lim where c: "tfs = olds @ newer" "fs = map tf_name olds" "lim \<le> ts_bound s"
      "g = tf_name c" "off = tf_offset c" "ib = tf_index c" "file_ok (ts_d s) c" "g \<notin> set (map tf_name tfs)"
      "tf_entries c = compacted lim (all_entries olds)" unfolding phase_ok.simps by blast
    from write_entries_frame [OF inv w c(7)] c show ?thesis
      unfolding Written phase_ok.simps
      by (intro exI [of _ olds] exI [of _ "newer @ [?nf]"] exI [of _ c] exI [of _ lim])
        (auto simp: f_def)
  next
    case (Collecting fs lim)
    with rel obtain olds newer where "tfs = olds @ newer" "fs = map tf_name olds" "lim \<le> ts_bound s"
      by (auto simp: table_rel_def)
    then show ?thesis
      unfolding Collecting phase_ok.simps by (auto intro: exI [of _ olds] exI [of _ "newer @ [?nf]"])
  qed simp
  ultimately show ?thesis
    using rel fl by (intro exI [of _ "tfs @ [?nf]"]) (auto simp: table_rel_def flushable_def)
qed

lemma table_rel_start:
  assumes rel: "table_rel s tfs" and st: "compaction_start (ts_st s) = (st, fs)"
  shows "table_rel (s\<lparr>ts_st := st, ts_phase := Collecting fs lim, ts_bound := max (ts_bound s) lim\<rparr>) tfs"
proof -
  have "fs = map tf_name tfs" "st = (ts_st s)\<lparr>compacting := True\<rparr>"
    using rel st by (auto simp: compaction_start_def table_rel_def sst_inv_def)
  then show ?thesis
    using rel by (auto simp: table_rel_def sst_inv_def intro: same_reads_mono)
qed

lemma merge_result:
  assumes rel: "table_rel s tfs" and ph: "ts_phase s = Collecting fs lim" and rng: "range_order rng"
  obtains olds newer c st d where "tfs = olds @ newer" "fs = map tf_name olds" "lim \<le> ts_bound s"
    "compaction_write rng lim (ts_st s) (ts_d s) fs = Ok (tf_name c, tf_offset c, tf_index c, st, d)"
    "tf_entries c = compacted lim (all_entries olds)" "sst_inv st d tfs" "file_ok d c"
    "tf_name c \<notin> set (map tf_name tfs)"
proof -
  obtain olds newer where tfs: "tfs = olds @ newer" "fs = map tf_name olds" "lim \<le> ts_bound s"
    using rel ph by (auto simp: table_rel_def)
  have inv: "sst_inv (ts_st s) (ts_d s) (olds @ newer)" and uni: "unique_versions (all_entries olds)"
    and sub: "set (all_entries olds) \<subseteq> set (ts_hist s)" and size: "2 * length (enc_entries (ts_hist s)) + 4 < 2 ^ 32"
    using rel by (auto simp: table_rel_def tfs(1) unique_versions_append)
  have "length (enc_entries (compacted lim (all_entries olds))) \<le> length (enc_entries (ts_hist s))"
    using sub ordered_distinct [OF compacted_ordered [OF uni]] by (intro length_enc_entries_mono) auto
  then have "compacted_fits lim olds"
    using size by (simp add: compacted_fits_def)
  from compaction_write_inv [OF inv uni rng this] tfs show thesis
    by (metis that)
qed

lemma table_rel_merge:
  assumes rel: "table_rel s tfs" and ph: "ts_phase s = Collecting fs lim" and rng: "range_order rng"
    and w: "compaction_write rng lim (ts_st s) (ts_d s) fs = Ok (f, off, ib, st, d)"
  shows "table_rel (s\<lparr>ts_st := st, ts_d := d, ts_phase := Written fs f off ib\<rparr>) tfs"
  using merge_result [OF rel ph rng]
proof cases
  case (1 olds newer c st' d')
  with w rel show ?thesis by (auto simp: table_rel_def)
qed

lemma table_rel_finish:
  assumes rel: "table_rel s tfs" and ph: "ts_phase s = Written fs f off ib"
    and fin: "compaction_finish (ts_st s) (ts_d s) f fs ib off = (st, d)"
  shows "\<exists>tfs'. table_rel (s\<lparr>ts_st := st, ts_d := d, ts_phase := Idle\<rparr>) tfs'"
proof -
  have "phase_ok (ts_st s) (ts_d s) tfs (ts_bound s) (Written fs f off ib)"
    using rel ph by (simp add: table_rel_def)
  then obtain olds newer c lim where c: "tfs = olds @ newer" "fs = map tf_name olds" "lim \<le> ts_bound s"
    "f = tf_name c" "off = tf_offset c" "ib = tf_index c" "file_ok (ts_d s) c" "f \<notin> set (map tf_name tfs)"
    "tf_entries c = compacted lim (all_entries olds)"
    unfolding phase_ok.simps by blast
  have inv: "sst_inv (ts_st s) (ts_d s) (olds @ newer)" and uni: "unique_versions (all_entries olds)"
    using rel by (auto simp: table_rel_def c(1) unique_versions_append)
  have "sst_inv st d (c # newer)"
    using compaction_finish_inv(1) [OF inv c(7)] fin c by simp
  moreover have "unique_versions (all_entries (c # newer))"
    using rel compacted_unique [OF uni] by (auto simp: table_rel_def c(1,9) unique_versions_append)
  moreover have "same_reads (ts_bound s) (all_entries (c # newer)) (all_entries tfs)"
    using same_reads_compacted [OF uni c(3)] by (simp add: c(1,9) same_reads_append)
  then have "same_reads (ts_bound s) (all_entries (c # newer)) (ts_hist s)"
    using rel by (auto simp: table_rel_def intro: same_reads_trans)
  ultimately show ?thesis
    using rel by (intro exI [of _ "c # newer"]) (auto simp: table_rel_def c(1,9))
qed

lemma table_rel_step:
  assumes "table_step rng s s'" "range_order rng" "table_rel s tfs"
  shows "\<exists>tfs'. table_rel s' tfs'"
  using assms(1)
proof (cases rule: table_step.cases)
  case flush
  with assms(3) show ?thesis by (auto dest: table_rel_flush)
next
  case start
  with assms(3) show ?thesis by (auto dest: table_rel_start)
next
  case merge
  with assms(2,3) show ?thesis by (auto dest: table_rel_merge)
next
  case finish
  with assms(3) show ?thesis by (auto dest: table_rel_finish)
qed

lemma table_reachable_rel:
  assumes "range_order rng" "table_reachable rng s"
  shows "\<exists>tfs. table_rel s tfs"
  using assms(2)
proof (induction rule: table_reachable.induct)
  case (init dir bl)
  then show ?case using table_rel_init by blast
next
  case (step s s')
  with assms(1) show ?case by (auto intro: table_rel_step)
qed

section \<open>What the directory promises\<close>

lemma table_rel_scan:
  assumes rel: "table_rel s tfs" and bound: "\<forall>x \<le> ts_bound s. visible t a x"
  shows "\<exists>m. SsTable_PrefixScan (ts_st s) (ts_d s) p t a = Ok m \<and>
    (\<forall>k. k \<noteq> p \<or> (\<forall>e \<in> set (ts_hist s). Key e \<noteq> p) \<longrightarrow>
      m k = (if prefix p k then map_option vt_of (latest_version k t a (ts_hist s)) else None))"
proof -
  have same: "latest_version k t a (all_entries tfs) = latest_version k t a (ts_hist s)" for k
    using rel bound by (auto simp: table_rel_def same_reads_def)
  have inv: "sst_inv (ts_st s) (ts_d s) tfs" "unique_versions (all_entries tfs)" "set (all_entries tfs) \<subseteq> set (ts_hist s)"
    using rel by (simp_all add: table_rel_def)
  from PrefixScan_latest_if [OF inv(1,2), of p t a, unfolded same] obtain m where
    m: "SsTable_PrefixScan (ts_st s) (ts_d s) p t a = Ok m" "\<And>k. k \<noteq> p \<or> (\<forall>e \<in> set (all_entries tfs). Key e \<noteq> p) \<Longrightarrow>
      m k = (if prefix p k then map_option vt_of (latest_version k t a (ts_hist s)) else None)" by metis
  have "k \<noteq> p \<or> (\<forall>e \<in> set (ts_hist s). Key e \<noteq> p) \<Longrightarrow> k \<noteq> p \<or> (\<forall>e \<in> set (all_entries tfs). Key e \<noteq> p)" for k
    using inv(3) by (auto simp: subset_iff)
  with m show ?thesis by (intro exI [of _ m]) (simp only: simp_thms HOL.all_simps, metis)
qed

text \<open>
  C24. However flushes and the phases of compactions interleave, a prefix scan succeeds and returns, for
  every key that properly extends the prefix, the newest visible version that was ever flushed, to any
  reader who sees all ids up to the largest bound a compaction was given.
\<close>

theorem scan_any_interleaving:
  assumes "range_order rng" "table_reachable rng s" "\<forall>x \<le> ts_bound s. visible t a x"
  shows "\<exists>m. SsTable_PrefixScan (ts_st s) (ts_d s) p t a = Ok m \<and>
    (\<forall>k. k \<noteq> p \<longrightarrow> m k = (if prefix p k then map_option vt_of (latest_version k t a (ts_hist s)) else None))"
  using table_reachable_rel [OF assms(1,2)] table_rel_scan [OF _ assms(3), of _ p] by blast

definition sample_run :: table_state where
  "sample_run =
     (let s = table_init ''d'' 100;
          w = write_entries (ts_st s, ts_d s) (calls_of [mk_entry ''k'' ''1'' 1, mk_entry ''kk'' ''2'' 1])
      in s\<lparr>ts_st := fst w, ts_d := snd w, ts_hist := [mk_entry ''k'' ''1'' 1, mk_entry ''kk'' ''2'' 1]\<rparr>)"

lemma sample_run_reachable: "table_reachable sorted_range sample_run" "ts_bound sample_run = 0"
proof -
  let ?es = "[mk_entry ''k'' ''1'' 1, mk_entry ''kk'' ''2'' 1]" and ?s = "table_init ''d'' 100"
  have "flushable (ts_hist ?s) ?es"
    by (simp add: flushable_def table_init_def unique_versions_def version_of_def Entry_Less_def length_enc_entry)
  from table_step.flush [OF this prod.collapse [symmetric], of sorted_range]
  have "table_step sorted_range ?s sample_run"
    by (simp add: sample_run_def table_init_def Let_def)
  then show "table_reachable sorted_range sample_run"
    by (rule table_reachable.step [OF table_reachable.init])
  show "ts_bound sample_run = 0"
    by (simp add: sample_run_def table_init_def Let_def)
qed

theorem scan_any_interleaving_witness:
  "\<exists>m. SsTable_PrefixScan (ts_st sample_run) (ts_d sample_run) ''k'' 2 {} = Ok m \<and>
    m ''kk'' = Some \<lparr>vt_value = ''2'', vt_txnId = 1\<rparr>"
proof -
  have "\<forall>x \<le> ts_bound sample_run. visible 2 {} x"
    by (simp add: sample_run_reachable(2) visible_def)
  from scan_any_interleaving [OF sorted_range_order sample_run_reachable(1) this, of "''k''"]
  obtain m where "SsTable_PrefixScan (ts_st sample_run) (ts_d sample_run) ''k'' 2 {} = Ok m"
    "\<forall>k. k \<noteq> ''k'' \<longrightarrow> m k = (if prefix ''k'' k
      then map_option vt_of (latest_version k 2 {} (ts_hist sample_run)) else None)" by blast
  moreover from this(2) have "m ''kk'' = Some \<lparr>vt_value = ''2'', vt_txnId = 1\<rparr>"
    by (simp add: sample_run_def Let_def latest_version_def candidates_def visible_def vt_of_def)
  ultimately show ?thesis by blast
qed

lemma table_rel_Get:
  assumes rel: "table_rel s tfs"
  shows "\<exists>v. SsTable_Get (ts_st s) (ts_d s) k t a = Ok v \<and>
    (v \<noteq> '''' \<longrightarrow> (\<exists>e \<in> set (ts_hist s). Key e = k \<and> Value e = v \<and> visible t a (TxnId e)))"
proof -
  from rel have inv: "sst_inv (ts_st s) (ts_d s) tfs" and sub: "set (all_entries tfs) \<subseteq> set (ts_hist s)"
    by (simp_all add: table_rel_def)
  have "\<exists>e \<in> set (ts_hist s). Key e = k \<and> Value e = file_value k t a tf \<and> visible t a (TxnId e)"
    if tf: "tf \<in> set tfs" "file_value k t a tf \<noteq> ''''" for tf
  proof -
    have "file_ok (ts_d s) tf"
      using inv tf(1) by (simp add: sst_inv_def)
    then obtain e where e: "latest_version k t a (tf_entries tf) = Some e" "Value e = file_value k t a tf"
      using file_value_nonempty [OF _ tf(2)] by blast
    with latest_version_SomeD(1-3) [OF e(1)] sub tf(1) show ?thesis
      by (auto simp: all_entries_def)
  qed
  then show ?thesis
    using first_nonempty_from [of "map (file_value k t a) (rev tfs)"]
    by (fastforce simp: SsTable_Get_eq [OF inv])
qed

text \<open>
  In every state that flushes and compaction phases can reach, a lookup by any reader returns
  without an error or a panic, and a value it returns was flushed for this key in a version that the
  reader may see.
\<close>

theorem Get_any_interleaving:
  assumes "range_order rng" "table_reachable rng s"
  shows "\<exists>v. SsTable_Get (ts_st s) (ts_d s) k t a = Ok v \<and>
    (v \<noteq> '''' \<longrightarrow> (\<exists>e \<in> set (ts_hist s). Key e = k \<and> Value e = v \<and> visible t a (TxnId e)))"
  using table_reachable_rel [OF assms] table_rel_Get by blast

theorem Get_any_interleaving_witness:
  "\<exists>v. SsTable_Get (ts_st sample_run) (ts_d sample_run) ''k'' 2 {} = Ok v"
  using Get_any_interleaving [OF sorted_range_order sample_run_reachable(1)] by blast



end
