(* ===== verification/Db.thy ===== *)
theory Db
  imports Wal Memtable TableSteps
begin

text \<open>
  The transactional key-value store of \<open>db/db.go\<close> and \<open>db/transaction.go\<close>: write locks per key,
  buffered writes, commit through the write-ahead log into the memtable, flush of a full memtable to
  a table file, and recovery of the memtable from the log.

  The state is passed explicitly; every function is one operation as a whole, the way it runs when no
  other goroutine interferes. A Go map that is ranged over is visited in the order of a parameter
  (\<open>rng\<close>), the tree of the memtable is a parameter (\<open>bt\<close>), and the write of the log record takes
  the outcome of the operating system as an argument.
\<close>

section \<open>State\<close>

record LocksAcquired =
  writerTxnId :: u64
  readerTxnIds :: "u64 list"

record transactionManager =
  nextTransactionId :: u64
  keyVsLocksAcquiredMap :: "string \<rightharpoonup> LocksAcquired"
  activeTransactionsMap :: "u64 set"

record 't DB =
  db_wal :: Wal
  db_memTable :: "'t Memtable"
  db_ssTable :: SsTable
  db_disk :: disk
  db_tm :: transactionManager

record Transaction =
  txn_id :: u64
  bufferedWriteMap :: "string \<rightharpoonup> string"
  lockAcquiredKeys :: "string list"
  activeTransactionsSnapshot :: "u64 set"

section \<open>Transactions\<close>

text \<open>The snapshot is a copy of the active transactions, the new one included.\<close>

definition db_Begin :: "'t DB \<Rightarrow> Transaction \<times> 't DB" where
  "db_Begin db =
     (let tm = db_tm db;
          i = nextTransactionId tm;
          active = insert i (activeTransactionsMap tm);
          txn = \<lparr>txn_id = i, bufferedWriteMap = Map.empty, lockAcquiredKeys = [],
                 activeTransactionsSnapshot = active\<rparr>
      in (txn, db\<lparr>db_tm := tm\<lparr>activeTransactionsMap := active, nextTransactionId := i + 1\<rparr>\<rparr>))"

definition GetNextTransactionId :: "'t DB \<Rightarrow> u64" where
  "GetNextTransactionId db = nextTransactionId (db_tm db)"

definition tryAcquireWriteLock ::
  "Transaction \<Rightarrow> 't DB \<Rightarrow> string \<Rightarrow> unit result \<times> Transaction \<times> 't DB" where
  "tryAcquireWriteLock txn db key =
     (let locks = keyVsLocksAcquiredMap (db_tm db);
          acquire = (\<lambda>locksAcquired.
            (Ok (), txn\<lparr>lockAcquiredKeys := lockAcquiredKeys txn @ [key]\<rparr>,
             db\<lparr>db_tm := (db_tm db)\<lparr>keyVsLocksAcquiredMap :=
               locks(key \<mapsto> locksAcquired\<lparr>writerTxnId := txn_id txn\<rparr>)\<rparr>\<rparr>))
      in case locks key of
           None \<Rightarrow> acquire \<lparr>writerTxnId = 0, readerTxnIds = []\<rparr>
         | Some locksAcquired \<Rightarrow>
             let w = writerTxnId locksAcquired
             in if w \<noteq> 0 \<and> w \<noteq> txn_id txn then (Err (WriteLockHeldBy w), txn, db)
                else if w = txn_id txn then (Ok (), txn, db)
                else acquire locksAcquired)"

definition txn_Put :: "Transaction \<Rightarrow> 't DB \<Rightarrow> string \<Rightarrow> string \<Rightarrow> unit result \<times> Transaction \<times> 't DB" where
  "txn_Put txn db key value =
     (case tryAcquireWriteLock txn db key of
        (Ok _, txn, db) \<Rightarrow>
          (Ok (), txn\<lparr>bufferedWriteMap := (bufferedWriteMap txn)(key \<mapsto> value)\<rparr>, db)
      | (er, txn, db) \<Rightarrow> (er, txn, db))"

definition getWithSnapshot ::
  "'t btree \<Rightarrow> 't DB \<Rightarrow> string \<Rightarrow> u64 \<Rightarrow> u64 set \<Rightarrow> string result" where
  "getWithSnapshot bt db key txnId activeTxnMap =
     (let (value, ok) = Memtable_Get bt (db_memTable db) key txnId activeTxnMap
      in if \<not> ok then SsTable_Get (db_ssTable db) (db_disk db) key txnId activeTxnMap else Ok value)"

definition txn_Get :: "'t btree \<Rightarrow> Transaction \<Rightarrow> 't DB \<Rightarrow> string \<Rightarrow> string result" where
  "txn_Get bt txn db key =
     (case bufferedWriteMap txn key of
        Some value \<Rightarrow> Ok value
      | None \<Rightarrow> getWithSnapshot bt db key (txn_id txn) (activeTransactionsSnapshot txn))"

text \<open>One round of the loop of \<open>releaseAllLocks\<close>; a key without an entry is a nil pointer.\<close>

definition releaseLock :: "u64 \<Rightarrow> (string \<rightharpoonup> LocksAcquired) \<Rightarrow> string \<Rightarrow> (string \<rightharpoonup> LocksAcquired) result" where
  "releaseLock i locks key =
     (case locks key of
        None \<Rightarrow> Panic
      | Some locksAcquired \<Rightarrow>
          if writerTxnId locksAcquired = i
          then Ok (locks(key \<mapsto> locksAcquired\<lparr>writerTxnId := 0\<rparr>))
          else Ok (locks(key \<mapsto> locksAcquired\<lparr>readerTxnIds := filter (\<lambda>r. r \<noteq> i) (readerTxnIds locksAcquired)\<rparr>)))"

fun releaseLocks :: "u64 \<Rightarrow> (string \<rightharpoonup> LocksAcquired) \<Rightarrow> string list \<Rightarrow> (string \<rightharpoonup> LocksAcquired) result" where
  "releaseLocks i locks [] = Ok locks"
| "releaseLocks i locks (key # keys) = rbind (releaseLock i locks key) (\<lambda>locks. releaseLocks i locks keys)"

definition releaseAllLocks :: "Transaction \<Rightarrow> 't DB \<Rightarrow> (Transaction \<times> 't DB) result" where
  "releaseAllLocks txn db =
     rbind (releaseLocks (txn_id txn) (keyVsLocksAcquiredMap (db_tm db)) (lockAcquiredKeys txn)) (\<lambda>locks.
       Ok (txn\<lparr>lockAcquiredKeys := []\<rparr>, db\<lparr>db_tm := (db_tm db)\<lparr>keyVsLocksAcquiredMap := locks\<rparr>\<rparr>))"

definition cleanupBufferedWriteMap :: "Transaction \<Rightarrow> Transaction" where
  "cleanupBufferedWriteMap txn = txn\<lparr>bufferedWriteMap := Map.empty\<rparr>"

definition deleteActive :: "u64 \<Rightarrow> 't DB \<Rightarrow> 't DB" where
  "deleteActive i db =
     db\<lparr>db_tm := (db_tm db)\<lparr>activeTransactionsMap := activeTransactionsMap (db_tm db) - {i}\<rparr>\<rparr>"

text \<open>The end that \<open>Rollback\<close> and \<open>Commit\<close> share.\<close>

definition endTransaction :: "Transaction \<Rightarrow> 't DB \<Rightarrow> (Transaction \<times> 't DB) result" where
  "endTransaction txn db =
     rbind (releaseAllLocks txn db) (\<lambda>(txn, db).
       Ok (cleanupBufferedWriteMap txn, deleteActive (txn_id txn) db))"

definition txn_Rollback :: "Transaction \<Rightarrow> 't DB \<Rightarrow> (Transaction \<times> 't DB) result" where
  "txn_Rollback txn db = endTransaction txn db"

section \<open>Flush\<close>

text \<open>
  The smallest active transaction id, \<open>math.MaxUint64\<close> if there is none, computed over the map in the
  order it is ranged over.
\<close>

definition minActiveTxnId :: "u64 list \<Rightarrow> u64" where
  "minActiveTxnId keys = foldl (\<lambda>m key. if key < m then key else m) (- 1) keys"

text \<open>
  A flush returns the bound of the compaction that it starts, if it starts one; the goroutine itself
  is the steps of the theory of tables.
\<close>

definition flushMemtableToSsTable ::
  "'t btree \<Rightarrow> (u64 set \<Rightarrow> u64 list) \<Rightarrow> 't DB \<Rightarrow> u64 option \<times> 't DB" where
  "flushMemtableToSsTable bt rngA db =
     (let (ssTableFile, st, d) = NewFile (db_ssTable db) (db_disk db);
          (st, d) = SsTable_Write st d ssTableFile (Memtable_Iterate bt (db_memTable db));
          bound = (if ShouldRunCompaction st
                   then Some (minActiveTxnId (rngA (activeTransactionsMap (db_tm db))))
                   else None)
      in (bound, db\<lparr>db_ssTable := st, db_disk := d\<rparr>))"

definition createSsTableAndClearWalAndMemTable ::
  "'t btree \<Rightarrow> (u64 set \<Rightarrow> u64 list) \<Rightarrow> 't DB \<Rightarrow> u64 option \<times> 't DB" where
  "createSsTableAndClearWalAndMemTable bt rngA db =
     (let (bound, db) = flushMemtableToSsTable bt rngA db
      in (bound, db\<lparr>db_memTable := Memtable_Clear bt (db_memTable db), db_wal := Wal_Clear (db_wal db)\<rparr>))"

definition FlushMemtable ::
  "'t btree \<Rightarrow> (u64 set \<Rightarrow> u64 list) \<Rightarrow> 't DB \<Rightarrow> u64 option \<times> 't DB" where
  "FlushMemtable bt rngA db = createSsTableAndClearWalAndMemTable bt rngA db"

section \<open>Commit\<close>

definition writeSingleWalEntryForCommit ::
  "io_outcome \<Rightarrow> (string \<times> string) list \<Rightarrow> Transaction \<Rightarrow> 't DB \<Rightarrow> unit result \<times> 't DB" where
  "writeSingleWalEntryForCommit io ws txn db =
     (let (r, w) = WriteEntry io (db_wal db) (serialiseTransactionCommitPayload ws (txn_id txn))
      in (r, db\<lparr>db_wal := w\<rparr>))"

text \<open>
  The write map is ranged over twice, once for the log (\<open>rngW\<close>) and once for the memtable (\<open>rngM\<close>).
  The result is the transaction and the database afterwards, with the bound of the compaction that a
  flush started.
\<close>

definition txn_Commit ::
  "'t btree \<Rightarrow> (u64 set \<Rightarrow> u64 list) \<Rightarrow> ((string \<rightharpoonup> string) \<Rightarrow> (string \<times> string) list) \<Rightarrow>
   ((string \<rightharpoonup> string) \<Rightarrow> (string \<times> string) list) \<Rightarrow> io_outcome \<Rightarrow> Transaction \<Rightarrow> 't DB \<Rightarrow>
   u64 option result \<times> Transaction \<times> 't DB" where
  "txn_Commit bt rngA rngW rngM io txn db =
     (case writeSingleWalEntryForCommit io (rngW (bufferedWriteMap txn)) txn db of
        (Ok _, db) \<Rightarrow>
          let puts = map (\<lambda>(key, value). (key, value, txn_id txn)) (rngM (bufferedWriteMap txn));
              db = db\<lparr>db_memTable := Memtable_Puts bt (db_memTable db) puts\<rparr>;
              (bound, db) = (if ShouldFlush (db_memTable db)
                             then createSsTableAndClearWalAndMemTable bt rngA db else (None, db))
          in (case endTransaction txn db of
                Ok (txn, db) \<Rightarrow> (Ok bound, txn, db)
              | Err er \<Rightarrow> (Err er, txn, db)
              | Panic \<Rightarrow> (Panic, txn, db))
      | (Err er, db) \<Rightarrow> (Err er, txn, db)
      | (Panic, db) \<Rightarrow> (Panic, txn, db))"

text \<open>The single-operation interface. \<open>Get\<close> does not end the transaction it begins.\<close>

definition db_Get :: "'t btree \<Rightarrow> 't DB \<Rightarrow> string \<Rightarrow> string result \<times> 't DB" where
  "db_Get bt db key = (let (txn, db) = db_Begin db in (txn_Get bt txn db key, db))"

definition db_Put ::
  "'t btree \<Rightarrow> (u64 set \<Rightarrow> u64 list) \<Rightarrow> ((string \<rightharpoonup> string) \<Rightarrow> (string \<times> string) list) \<Rightarrow>
   ((string \<rightharpoonup> string) \<Rightarrow> (string \<times> string) list) \<Rightarrow> io_outcome \<Rightarrow> 't DB \<Rightarrow> string \<Rightarrow> string \<Rightarrow>
   u64 option result \<times> 't DB" where
  "db_Put bt rngA rngW rngM io db key value =
     (let (txn, db) = db_Begin db
      in case txn_Put txn db key value of
           (Err er, txn, db) \<Rightarrow> (Err er, db)
         | (Panic, txn, db) \<Rightarrow> (Panic, db)
         | (Ok _, txn, db) \<Rightarrow>
             (case txn_Commit bt rngA rngW rngM io txn db of (r, txn, db) \<Rightarrow> (r, db)))"

section \<open>Recovery\<close>

text \<open>One payload of the log, applied to the memtable and the largest id so far.\<close>

definition replayPayload ::
  "'t btree \<Rightarrow> bytes \<Rightarrow> 't Memtable \<times> u64 \<Rightarrow> ('t Memtable \<times> u64) result" where
  "replayPayload bt payload = (\<lambda>(memTable, maxTxnId).
     rbind (readLengthPrefixedString payload 0) (\<lambda>(cmd, offset).
       if cmd = CmdTransaction then
         rbind (deserialiseTransactionCommand (drop offset payload)) (\<lambda>(txnId, putCmds).
           Ok (Memtable_Puts bt memTable (map (\<lambda>c. (cmd_key c, cmd_value c, txnId)) putCmds),
               max maxTxnId txnId))
       else Err (UnknownWalCommand cmd)))"

lemma ReadEntry_progress:
  assumes "ReadEntry w = (Ok p, w')"
  shows "length (f_content (wal_file w')) - f_pos (wal_file w') < length (f_content (wal_file w)) - f_pos (wal_file w)"
proof -
  note ok = ReadEntry_Ok [OF assms]
  then have "length (drop (f_pos (wal_file w)) (f_content (wal_file w))) \<ge> length (walRecord p)"
    by (metis length_append le_add1)
  then have "f_pos (wal_file w) + (length p + 8) \<le> length (f_content (wal_file w))"
    by simp
  with ok show ?thesis by simp
qed

function buildMemtableFromWal_loop ::
  "'t btree \<Rightarrow> Wal \<Rightarrow> 't Memtable \<times> u64 \<Rightarrow> ('t Memtable \<times> u64) result \<times> Wal" where
  "buildMemtableFromWal_loop bt w acc =
     (case ReadEntry w of
        (Err er, w) \<Rightarrow> if er = IoEOF then (Ok acc, w) else (Err er, w)
      | (Panic, w) \<Rightarrow> (Panic, w)
      | (Ok payload, w) \<Rightarrow>
          (case replayPayload bt payload acc of
             Ok acc \<Rightarrow> buildMemtableFromWal_loop bt w acc
           | Err er \<Rightarrow> (Err er, w)
           | Panic \<Rightarrow> (Panic, w)))"
  by pat_completeness auto
termination
  by (relation "measure (\<lambda>(_, w, _). length (f_content (wal_file w)) - f_pos (wal_file w))")
    (auto dest!: sym [of _ "ReadEntry _"] dest: ReadEntry_progress)

declare buildMemtableFromWal_loop.simps [simp del]

definition buildMemtableFromWal :: "'t btree \<Rightarrow> Wal \<Rightarrow> ('t Memtable \<times> u64) result \<times> Wal" where
  "buildMemtableFromWal bt w = buildMemtableFromWal_loop bt w (NewMemtable bt, 0)"

text \<open>A log record of the single-command form, which no operation of the store uses.\<close>

definition writeToWal :: "io_outcome \<Rightarrow> 't DB \<Rightarrow> string \<Rightarrow> string \<Rightarrow> unit result \<times> 't DB" where
  "writeToWal io db key value =
     (let buf = serialisePutCommand key value; (r, w) = WriteEntry io (db_wal db) buf
      in (r, db\<lparr>db_wal := w\<rparr>))"

text \<open>
  \<open>NewDB\<close> up to the transaction manager: the log is opened and replayed, then the table directory is
  opened. \<open>walFiles\<close> holds the contents of the files the log may be in.
\<close>

definition openDB ::
  "'t btree \<Rightarrow> (string \<rightharpoonup> bytes) \<Rightarrow> disk \<Rightarrow> string \<Rightarrow> SsTableConfig \<Rightarrow> 't DB result" where
  "openDB bt walFiles d walFilePath config =
     (case buildMemtableFromWal bt (NewWal walFiles walFilePath) of
        (Err er, w) \<Rightarrow> Err er
      | (Panic, w) \<Rightarrow> Panic
      | (Ok (memTable, maxTxnId), w) \<Rightarrow>
          rbind (NewSsTable config d) (\<lambda>st.
            Ok \<lparr>db_wal = w, db_memTable = memTable, db_ssTable = st, db_disk = d,
                db_tm = \<lparr>nextTransactionId = maxTxnId + 1, keyVsLocksAcquiredMap = Map.empty,
                          activeTransactionsMap = {}\<rparr>\<rparr>))"

end
