(* ===== verification/DbRecovery.thy ===== *)
theory DbRecovery
  imports Db
begin

text \<open>
  Recovery from the write-ahead log: replaying a log gives back the memtable that the commits built,
  in whatever order the write maps were ranged over, and a log whose last record is cut short is
  refused.
\<close>

section \<open>The contents of a log\<close>

text \<open>A log as a list of commits: transaction id and writes, in the order they were serialised.\<close>

type_synonym commit = "u64 \<times> (string \<times> string) list"

definition commit_payload :: "commit \<Rightarrow> bytes" where
  "commit_payload c = serialiseTransactionCommitPayload (snd c) (fst c)"

definition commit_puts :: "commit \<Rightarrow> (string \<times> string \<times> u64) list" where
  "commit_puts c = map (\<lambda>(k, v). (k, v, fst c)) (snd c)"

definition log_bytes :: "commit list \<Rightarrow> bytes" where
  "log_bytes log = concat (map (\<lambda>c. walRecord (commit_payload c)) log)"

definition log_puts :: "commit list \<Rightarrow> (string \<times> string \<times> u64) list" where
  "log_puts log = concat (map commit_puts log)"

definition log_ok :: "commit list \<Rightarrow> bool" where
  "log_ok log \<longleftrightarrow> (\<forall>c \<in> set log. length (commit_payload c) \<le> 1000000)"

definition log_max :: "u64 \<Rightarrow> commit list \<Rightarrow> u64" where
  "log_max x log = foldl max x (map fst log)"

lemma log_simps [simp]:
  "log_bytes [] = []" "log_bytes (c # log) = walRecord (commit_payload c) @ log_bytes log"
  "log_bytes (log @ log') = log_bytes log @ log_bytes log'"
  "log_puts [] = []" "log_puts (c # log) = commit_puts c @ log_puts log"
  "log_puts (log @ log') = log_puts log @ log_puts log'"
  "log_ok []" "log_ok (c # log) \<longleftrightarrow> length (commit_payload c) \<le> 1000000 \<and> log_ok log"
  "log_ok (log @ log') \<longleftrightarrow> log_ok log \<and> log_ok log'"
  "log_max x [] = x" "log_max x (c # log) = log_max (max x (fst c)) log"
  by (auto simp: log_bytes_def log_puts_def log_ok_def log_max_def)

section \<open>Replay\<close>

lemma replayPayload_commit:
  assumes "length (commit_payload c) \<le> 1000000"
  shows "replayPayload bt (commit_payload c) (m, x) =
    Ok (Memtable_Puts bt m (commit_puts c), max x (fst c))"
proof -
  obtain i ws where c: "c = (i, ws)" by (cases c)
  let ?body = "put_uint64 i @ put_uint32 (len32 ws) @ concat (map enc_kv ws)"
  have payload: "commit_payload c = lengthPrefixed CmdTransaction @ ?body"
    by (simp add: commit_payload_def c serialiseTransactionCommitPayload_eq)
  have small: "length (commit_payload c) < 2 ^ 32"
    using assms by simp
  then have cmd: "readLengthPrefixedString (commit_payload c) 0 =
      Ok (CmdTransaction, length (lengthPrefixed CmdTransaction))"
    using lps.dec_enc [of "[]" CmdTransaction ?body] by (simp add: payload)
  have "length ?body < 2 ^ 32"
    using small by (simp add: payload)
  from deserialiseTransactionCommand_iff [OF this, of i "map cmd_of ws"]
  have "deserialiseTransactionCommand ?body = Ok (i, map cmd_of ws)"
    by (simp add: len32_def)
  moreover have "drop (length (lengthPrefixed CmdTransaction)) (commit_payload c) = ?body"
    by (metis append_eq_conv_conj payload)
  ultimately have "deserialiseTransactionCommand
      (drop (length (lengthPrefixed CmdTransaction)) (commit_payload c)) = Ok (i, map cmd_of ws)"
    by simp
  then show ?thesis
    using cmd by (simp add: replayPayload_def c commit_puts_def comp_def cmd_of_def case_prod_beta')
qed

lemma buildMemtableFromWal_loop_log:
  assumes "drop (f_pos (wal_file w)) (f_content (wal_file w)) = log_bytes log @ rest" "log_ok log"
  shows "\<exists>w'. drop (f_pos (wal_file w')) (f_content (wal_file w')) = rest \<and>
    buildMemtableFromWal_loop bt w (m, x) =
      buildMemtableFromWal_loop bt w' (Memtable_Puts bt m (log_puts log), log_max x log)"
  using assms
proof (induction log arbitrary: w m x)
  case Nil
  then show ?case by auto
next
  case (Cons c log)
  let ?w = "w\<lparr>wal_file := (wal_file w)\<lparr>f_pos := f_pos (wal_file w) + length (walRecord (commit_payload c))\<rparr>\<rparr>"
  have read: "ReadEntry w = (Ok (commit_payload c), ?w)"
    using Cons.prems by (intro ReadEntry_record [of _ _ "log_bytes log @ rest"]) simp_all
  have "drop (f_pos (wal_file w) + length (walRecord (commit_payload c))) (f_content (wal_file w)) =
      log_bytes log @ rest"
    by (rule drop_add_append [OF Cons.prems(1) [unfolded log_simps append.assoc] refl])
  then have "drop (f_pos (wal_file ?w)) (f_content (wal_file ?w)) = log_bytes log @ rest"
    by simp
  from Cons.IH [OF this, of "Memtable_Puts bt m (commit_puts c)" "max x (fst c)"] Cons.prems(2)
  show ?case
    by (subst buildMemtableFromWal_loop.simps)
      (simp add: read replayPayload_commit Memtable_Puts_append)
qed

text \<open>Opening a file that holds a log.\<close>

definition openWal :: "bytes \<Rightarrow> Wal" where
  "openWal content = \<lparr>wal_file = \<lparr>f_content = content, f_pos = 0\<rparr>\<rparr>"

lemma buildMemtableFromWal_loop_Err:
  "fst (ReadEntry w) = Err er \<Longrightarrow>
   fst (buildMemtableFromWal_loop bt w acc) = (if er = IoEOF then Ok acc else Err er)"
  by (cases "ReadEntry w") (simp add: buildMemtableFromWal_loop.simps)

lemma buildMemtableFromWal_rest:
  assumes "log_ok log"
  obtains w where "drop (f_pos (wal_file w)) (f_content (wal_file w)) = rest"
    "buildMemtableFromWal bt (openWal (log_bytes log @ rest)) =
      buildMemtableFromWal_loop bt w (Memtable_Puts bt (NewMemtable bt) (log_puts log), log_max 0 log)"
  using buildMemtableFromWal_loop_log [of "openWal (log_bytes log @ rest)" log rest bt "NewMemtable bt" 0] assms
  by (auto simp: buildMemtableFromWal_def openWal_def)

lemma buildMemtableFromWal_log:
  assumes "log_ok log"
  shows "fst (buildMemtableFromWal bt (openWal (log_bytes log))) =
    Ok (Memtable_Puts bt (NewMemtable bt) (log_puts log), log_max 0 log)"
proof -
  obtain w where "drop (f_pos (wal_file w)) (f_content (wal_file w)) = []"
    and loop: "buildMemtableFromWal bt (openWal (log_bytes log @ [])) =
      buildMemtableFromWal_loop bt w (Memtable_Puts bt (NewMemtable bt) (log_puts log), log_max 0 log)"
    using buildMemtableFromWal_rest [OF assms, of "[]"] .
  then have "ReadEntry w = (Err IoEOF, w)"
    by (intro ReadEntry_at_end) simp
  with loop show ?thesis
    by (simp add: buildMemtableFromWal_loop.simps)
qed

text \<open>
  C22. A crash during a commit never makes part of a transaction visible. If the record of commit \<open>c\<close>
  is cut anywhere behind a log of whole commits, then opening the database either recovers exactly the
  commits before it, or reports the cut and opens nothing; it is silent exactly when the cut is at the
  start of the record, behind the length or behind the payload.
\<close>

theorem recovery_of_torn_log:
  assumes "log_ok log" "length (commit_payload c) \<le> 1000000" "n < length (walRecord (commit_payload c))"
  shows "fst (buildMemtableFromWal bt (openWal (log_bytes log @ take n (walRecord (commit_payload c))))) =
    (if n = 0 \<or> n = 4 \<or> n = 4 + length (commit_payload c)
     then Ok (Memtable_Puts bt (NewMemtable bt) (log_puts log), log_max 0 log)
     else Err (if n < 4 then PartialLength
               else if n < 4 + length (commit_payload c) then PartialPayload else PartialChecksum))"
proof -
  let ?rest = "take n (walRecord (commit_payload c))"
  obtain w where w: "drop (f_pos (wal_file w)) (f_content (wal_file w)) = ?rest"
    and loop: "buildMemtableFromWal bt (openWal (log_bytes log @ ?rest)) =
      buildMemtableFromWal_loop bt w (Memtable_Puts bt (NewMemtable bt) (log_puts log), log_max 0 log)"
    using buildMemtableFromWal_rest [OF assms(1), of ?rest] .
  show ?thesis
    unfolding loop buildMemtableFromWal_loop_Err [OF ReadEntry_cut [OF w assms(3,2)]] by auto
qed

theorem recovery_of_torn_log_witness:
  "fst (buildMemtableFromWal list_btree (openWal (log_bytes [(1, [(''a'', ''b'')])] @
     take 9 (walRecord (commit_payload (2, [(''c'', ''d'')])))))) = Err PartialPayload"
proof -
  have len: "length (commit_payload (i, [([x], [y])])) = 37" for i x y
    by (simp add: commit_payload_def serialiseTransactionCommitPayload_eq enc_kv_def CmdTransaction_def)
  have "log_ok [(1, [(''a'', ''b'')])]" "length (commit_payload (2, [(''c'', ''d'')])) \<le> 1000000"
    "9 < length (walRecord (commit_payload (2, [(''c'', ''d'')])))"
    by (simp_all add: len)
  from recovery_of_torn_log [OF this, of list_btree] show ?thesis
    by (simp add: len)
qed

text \<open>
  A record of the single-command form is refused: a log to which \<open>writeToWal\<close> has added one cannot be replayed.
\<close>

theorem writeToWal_poisons_log:
  assumes "log_ok log" "length (serialisePutCommand k v) \<le> 1000000"
    and "f_content (wal_file (db_wal db)) = log_bytes log"
  defines "db' \<equiv> snd (writeToWal IoOk db k v)"
  shows "fst (buildMemtableFromWal bt (openWal (f_content (wal_file (db_wal db'))))) = Err (UnknownWalCommand CmdPut)"
proof -
  let ?p = "serialisePutCommand k v"
  have content: "f_content (wal_file (db_wal db')) = log_bytes log @ walRecord ?p"
    using assms(3) by (simp add: db'_def writeToWal_def WriteEntry_def Let_def split_beta)
  obtain w where w: "drop (f_pos (wal_file w)) (f_content (wal_file w)) = walRecord ?p"
    and loop: "buildMemtableFromWal bt (openWal (log_bytes log @ walRecord ?p)) =
      buildMemtableFromWal_loop bt w (Memtable_Puts bt (NewMemtable bt) (log_puts log), log_max 0 log)"
    using buildMemtableFromWal_rest [OF assms(1)] by metis
  have payload: "?p = lengthPrefixed CmdPut @ lengthPrefixed k @ lengthPrefixed v"
    by (simp add: serialisePutCommand_def appendLengthPrefixedString_eq Let_def)
  have "readLengthPrefixedString ?p 0 = Ok (CmdPut, length (lengthPrefixed CmdPut))"
    using lps.dec_enc [of "[]" CmdPut "lengthPrefixed k @ lengthPrefixed v"] assms(2) by (simp add: payload)
  then have "replayPayload bt ?p acc = Err (UnknownWalCommand CmdPut)" for acc
    by (cases acc) (simp add: replayPayload_def CmdPut_def CmdTransaction_def)
  with ReadEntry_record [of w ?p "[]"] w assms(2) show ?thesis
    unfolding content loop by (simp add: buildMemtableFromWal_loop.simps [of bt w])
qed



lemma log_max_ge: "x \<le> log_max x log" "c \<in> set log \<Longrightarrow> fst c \<le> log_max x log"
proof -
  have "x \<le> log_max x log \<and> (\<forall>c \<in> set log. fst c \<le> log_max x log)"
  proof (induction log arbitrary: x)
    case (Cons d log)
    from Cons.IH [of "max x (fst d)"] show ?case by auto
  qed simp
  then show "x \<le> log_max x log" "c \<in> set log \<Longrightarrow> fst c \<le> log_max x log" by auto
qed

section \<open>The log and the memtable agree\<close>

text \<open>
  The database holds in memory what its log holds: the log file is a sequence of whole commits, and
  the memtable is the map that their writes build.
\<close>

definition wal_rel :: "'t btree \<Rightarrow> 't DB \<Rightarrow> commit list \<Rightarrow> bool" where
  "wal_rel bt db log \<longleftrightarrow>
     f_content (wal_file (db_wal db)) = log_bytes log \<and> log_ok log \<and>
     mt_map bt (db_memTable db) = mt_map bt (Memtable_Puts bt (NewMemtable bt) (log_puts log))"

text \<open>The order in which the writes of one commit reach the memtable does not matter.\<close>

lemma foldl_updates:
  "foldl (\<lambda>M (k, v, i). M((k, i) \<mapsto> v)) M ps = M ++ map_of (rev (map (\<lambda>(k, v, i). ((k, i), v)) ps))"
  by (induction ps arbitrary: M) (auto simp: map_add_upd_left)

lemma commit_puts_map:
  assumes "distinct (map fst ws)"
  shows "map_of (rev (map (\<lambda>(k, v, i). ((k, i), v)) (commit_puts (i, ws)))) (k, j) =
    (if j = i then map_of ws k else None)"
proof -
  let ?ps = "map (\<lambda>(k, v). ((k, i), v)) ws"
  have "map (\<lambda>(k, v, i). ((k, i), v)) (commit_puts (i, ws)) = ?ps"
    by (simp add: commit_puts_def comp_def split_beta)
  moreover have dist: "distinct (map fst ?ps)"
    using assms by (simp add: comp_def split_beta distinct_map inj_on_def)
  then have "map_of (rev ?ps) x = Some v \<longleftrightarrow> map_of ?ps x = Some v" for x v
    by (simp add: map_of_eq_Some_iff del: map_map flip: rev_map)
  then have "map_of (rev ?ps) x = map_of ?ps x" for x
    by (metis not_Some_eq)
  then have "map_of (rev ?ps) = map_of ?ps"
    by (rule ext)
  moreover have "map_of ?ps (k, j) = (if j = i then map_of ws k else None)"
    by (induction ws) auto
  ultimately show ?thesis by simp
qed

lemma commit_puts_order:
  assumes "btree_ok bt" "enumerates ws b" "enumerates ws' b"
  shows "mt_map bt (Memtable_Puts bt m (commit_puts (i, ws))) =
    mt_map bt (Memtable_Puts bt m (commit_puts (i, ws')))"
proof -
  have "map_of (rev (map (\<lambda>(k, v, i). ((k, i), v)) (commit_puts (i, ws)))) =
      map_of (rev (map (\<lambda>(k, v, i). ((k, i), v)) (commit_puts (i, ws'))))"
  proof
    fix x :: "string \<times> u64"
    show "map_of (rev (map (\<lambda>(k, v, i). ((k, i), v)) (commit_puts (i, ws)))) x =
        map_of (rev (map (\<lambda>(k, v, i). ((k, i), v)) (commit_puts (i, ws')))) x"
      using assms(2,3) commit_puts_map [of ws i "fst x" "snd x"] commit_puts_map [of ws' i "fst x" "snd x"]
      by (simp add: enumerates_def)
  qed
  then show ?thesis
    by (simp add: Memtable_Puts_map [OF assms(1)] foldl_updates)
qed

lemma Memtable_Puts_map_cong:
  "\<lbrakk>btree_ok bt; mt_map bt m = mt_map bt m'\<rbrakk> \<Longrightarrow>
   mt_map bt (Memtable_Puts bt m ps) = mt_map bt (Memtable_Puts bt m' ps)"
  by (simp add: Memtable_Puts_map)

end
