(* ===== verification/Locks.thy ===== *)
theory Locks
  imports Db
begin

text \<open>
  Write locks. The interface that transactions rely on is the locale \<open>lock_manager\<close>: keys have at most one holder, a lock
  is granted exactly when it is free or one's own, and released locks are free. Its client lemmas are about
  \<open>granted\<close>: the holders of the keys are the clients that believe to hold them. The lock map of
  \<open>transaction.go\<close> implements it.
\<close>

section \<open>The interface\<close>

text \<open>
  Clients have ids other than 0, which stands for nobody. \<open>own\<close> gives, for each live client, the keys that it
  believes to hold.
\<close>

definition granted :: "('k \<Rightarrow> u64) \<Rightarrow> (u64 \<rightharpoonup> 'k set) \<Rightarrow> bool" where
  "granted h own \<longleftrightarrow>
     (\<forall>i K. own i = Some K \<longrightarrow> i \<noteq> 0 \<and> (\<forall>k \<in> K. h k = i)) \<and>
     (\<forall>k. h k \<noteq> 0 \<longrightarrow> (\<exists>K. own (h k) = Some K \<and> k \<in> K))"

lemma grantedD:
  assumes "granted h own"
  shows "own i = Some K \<Longrightarrow> i \<noteq> 0" "\<lbrakk>own i = Some K; k \<in> K\<rbrakk> \<Longrightarrow> h k = i"
    "h k \<noteq> 0 \<Longrightarrow> \<exists>K. own (h k) = Some K \<and> k \<in> K"
  using assms unfolding granted_def by blast+

lemma grantedI:
  assumes "\<And>i K. own i = Some K \<Longrightarrow> i \<noteq> 0" "\<And>i K k. \<lbrakk>own i = Some K; k \<in> K\<rbrakk> \<Longrightarrow> h k = i"
    and "\<And>k. h k \<noteq> 0 \<Longrightarrow> \<exists>K. own (h k) = Some K \<and> k \<in> K"
  shows "granted h own"
  using assms unfolding granted_def by blast

lemma granted_exclusive:
  "\<lbrakk>granted h own; own i = Some K; own j = Some L; i \<noteq> j\<rbrakk> \<Longrightarrow> K \<inter> L = {}"
  using grantedD(2) by (metis disjoint_iff)

lemma granted_iff: "\<lbrakk>granted h own; own i = Some K\<rbrakk> \<Longrightarrow> h k = i \<longleftrightarrow> k \<in> K"
  using grantedD by (metis option.inject)

lemma granted_new: "\<lbrakk>granted h own; own i = None; i \<noteq> 0\<rbrakk> \<Longrightarrow> granted h (own(i \<mapsto> {}))"
  unfolding granted_def by (metis fun_upd_apply emptyE option.distinct(1) option.inject)

locale lock_manager =
  fixes holder_of :: "'m \<Rightarrow> 'k \<Rightarrow> u64"
    and acquire :: "u64 \<Rightarrow> 'k \<Rightarrow> 'm \<Rightarrow> 'm option"
    and release :: "u64 \<Rightarrow> 'k list \<Rightarrow> 'm \<Rightarrow> 'm option"
  assumes acquire_None: "i \<noteq> 0 \<Longrightarrow> acquire i k m = None \<longleftrightarrow> holder_of m k \<noteq> 0 \<and> holder_of m k \<noteq> i"
    and acquire_Some: "\<lbrakk>i \<noteq> 0; acquire i k m = Some m'\<rbrakk> \<Longrightarrow> holder_of m' = (holder_of m)(k := i)"
    and release_total: "\<lbrakk>i \<noteq> 0; distinct ks; \<forall>k \<in> set ks. holder_of m k = i\<rbrakk> \<Longrightarrow> release i ks m \<noteq> None"
    and release_Some: "\<lbrakk>i \<noteq> 0; distinct ks; \<forall>k \<in> set ks. holder_of m k = i; release i ks m = Some m'\<rbrakk> \<Longrightarrow>
      holder_of m' k = (if k \<in> set ks then 0 else holder_of m k)"
begin

text \<open>A lock is refused exactly when another client holds it.\<close>

lemma refused_iff:
  assumes "granted (holder_of m) own" "own i = Some K"
  shows "acquire i k m = None \<longleftrightarrow> (\<exists>j L. j \<noteq> i \<and> own j = Some L \<and> k \<in> L)"
proof -
  note g = grantedD [OF assms(1)]
  have "holder_of m k \<noteq> 0 \<and> holder_of m k \<noteq> i \<longleftrightarrow> (\<exists>j L. j \<noteq> i \<and> own j = Some L \<and> k \<in> L)"
    using g by blast
  with acquire_None [OF g(1) [OF assms(2)]] show ?thesis by simp
qed

lemma granted_acquire:
  assumes "granted (holder_of m) own" "own i = Some K" "acquire i k m = Some m'"
  shows "granted (holder_of m') (own(i \<mapsto> insert k K))"
proof (rule grantedI)
  note g = grantedD [OF assms(1)]
  have i: "i \<noteq> 0" by (rule g(1) [OF assms(2)])
  have h: "holder_of m' = (holder_of m)(k := i)" by (rule acquire_Some [OF i assms(3)])
  have free: "holder_of m k = 0 \<or> holder_of m k = i" using acquire_None [OF i, of k m] assms(3) by auto
  show "j \<noteq> 0" if "(own(i \<mapsto> insert k K)) j = Some L" for j L
    using that i g(1) by (auto split: if_splits)
  show "holder_of m' k' = j" if "(own(i \<mapsto> insert k K)) j = Some L" "k' \<in> L" for j L k'
  proof (cases "j = i")
    case True
    with that g(2) [OF assms(2)] show ?thesis by (auto simp: h)
  next
    case False
    with that have "holder_of m k' = j" "j \<noteq> 0" using g(1,2) by auto
    with False free show ?thesis by (auto simp: h)
  qed
  show "\<exists>L. (own(i \<mapsto> insert k K)) (holder_of m' k') = Some L \<and> k' \<in> L" if "holder_of m' k' \<noteq> 0" for k'
    using that g(3) [of k'] assms(2) by (auto simp: h split: if_splits)
qed

lemma granted_release:
  assumes "granted (holder_of m) own" "own i = Some (set ks)" "distinct ks"
  shows "\<exists>m'. release i ks m = Some m' \<and> granted (holder_of m') (own(i := None)) \<and>
    (\<forall>k. holder_of m' k = (if k \<in> set ks then 0 else holder_of m k))"
proof -
  note g = grantedD [OF assms(1)]
  have i: "i \<noteq> 0" and mine: "\<forall>k \<in> set ks. holder_of m k = i" using g(1,2) [OF assms(2)] by simp_all
  obtain m' where m': "release i ks m = Some m'" using release_total [OF i assms(3) mine] by blast
  note h = release_Some [OF i assms(3) mine m']
  have "granted (holder_of m') (own(i := None))"
  proof (rule grantedI)
    show "j \<noteq> 0" if "(own(i := None)) j = Some L" for j L
      using that g(1) by (auto split: if_splits)
    show "holder_of m' k = j" if "(own(i := None)) j = Some L" "k \<in> L" for j L k
    proof -
      have "own j = Some L" "j \<noteq> i" using that(1) by (auto split: if_splits)
      with g(2) [OF this(1) that(2)] mine show ?thesis by (auto simp: h)
    qed
    show "\<exists>L. (own(i := None)) (holder_of m' k) = Some L \<and> k \<in> L" if "holder_of m' k \<noteq> 0" for k
      using that g(3) [of k] assms(2) by (auto simp: h split: if_splits)
  qed
  with m' h show ?thesis by blast
qed

end

section \<open>The transaction manager\<close>

text \<open>Beginning and ending a transaction, as functions of the transaction manager.\<close>

definition tm_begin :: "transactionManager \<Rightarrow> transactionManager" where
  "tm_begin tm = tm\<lparr>activeTransactionsMap := insert (nextTransactionId tm) (activeTransactionsMap tm),
     nextTransactionId := nextTransactionId tm + 1\<rparr>"

definition new_txn :: "transactionManager \<Rightarrow> Transaction" where
  "new_txn tm = \<lparr>txn_id = nextTransactionId tm, bufferedWriteMap = Map.empty, lockAcquiredKeys = [],
     activeTransactionsSnapshot = insert (nextTransactionId tm) (activeTransactionsMap tm)\<rparr>"

definition tm_end :: "Transaction \<Rightarrow> transactionManager \<Rightarrow> transactionManager" where
  "tm_end txn tm = tm\<lparr>keyVsLocksAcquiredMap :=
       (\<lambda>k. if k \<in> set (lockAcquiredKeys txn)
            then map_option (\<lambda>l. l\<lparr>writerTxnId := 0\<rparr>) (keyVsLocksAcquiredMap tm k)
            else keyVsLocksAcquiredMap tm k),
     activeTransactionsMap := activeTransactionsMap tm - {txn_id txn}\<rparr>"

definition tm_lock :: "u64 \<Rightarrow> string \<Rightarrow> transactionManager \<Rightarrow> transactionManager" where
  "tm_lock i k tm = tm\<lparr>keyVsLocksAcquiredMap := (keyVsLocksAcquiredMap tm)(k \<mapsto>
     (case keyVsLocksAcquiredMap tm k of None \<Rightarrow> \<lparr>writerTxnId = 0, readerTxnIds = []\<rparr> | Some l \<Rightarrow> l)
       \<lparr>writerTxnId := i\<rparr>)\<rparr>"

definition holder :: "transactionManager \<Rightarrow> string \<Rightarrow> u64" where
  "holder tm k = (case keyVsLocksAcquiredMap tm k of None \<Rightarrow> 0 | Some l \<Rightarrow> writerTxnId l)"

lemma holder_simps [simp]:
  "holder (tm_begin tm) k = holder tm k"
  "holder (tm_end txn tm) k = (if k \<in> set (lockAcquiredKeys txn) then 0 else holder tm k)"
  "holder (tm_lock i k' tm) k = (if k = k' then i else holder tm k)"
  by (auto simp: holder_def tm_begin_def tm_end_def tm_lock_def split: option.splits)

lemma tm_simps [simp]:
  "nextTransactionId (tm_begin tm) = nextTransactionId tm + 1"
  "nextTransactionId (tm_end txn tm) = nextTransactionId tm"
  "nextTransactionId (tm_lock i k tm) = nextTransactionId tm"
  "activeTransactionsMap (tm_begin tm) = insert (nextTransactionId tm) (activeTransactionsMap tm)"
  "activeTransactionsMap (tm_end txn tm) = activeTransactionsMap tm - {txn_id txn}"
  "activeTransactionsMap (tm_lock i k tm) = activeTransactionsMap tm"
  by (simp_all add: tm_begin_def tm_end_def tm_lock_def)

lemma db_Begin_eq: "db_Begin db = (new_txn (db_tm db), db\<lparr>db_tm := tm_begin (db_tm db)\<rparr>)"
  by (simp add: db_Begin_def new_txn_def tm_begin_def Let_def)

lemma db_Get_eq: "snd (db_Get bt db k) = db\<lparr>db_tm := tm_begin (db_tm db)\<rparr>"
  by (simp add: db_Get_def db_Begin_eq)

lemma txn_Put_eq:
  assumes "txn_id txn \<noteq> 0"
  shows "txn_Put txn db k v =
    (if holder (db_tm db) k = 0 then
       (Ok (), txn\<lparr>lockAcquiredKeys := lockAcquiredKeys txn @ [k], bufferedWriteMap := (bufferedWriteMap txn)(k \<mapsto> v)\<rparr>,
        db\<lparr>db_tm := tm_lock (txn_id txn) k (db_tm db)\<rparr>)
     else if holder (db_tm db) k = txn_id txn then (Ok (), txn\<lparr>bufferedWriteMap := (bufferedWriteMap txn)(k \<mapsto> v)\<rparr>, db)
     else (Err (WriteLockHeldBy (holder (db_tm db) k)), txn, db))"
proof (cases "keyVsLocksAcquiredMap (db_tm db) k")
  case None
  then show ?thesis
    by (simp add: txn_Put_def tryAcquireWriteLock_def holder_def tm_lock_def)
next
  case (Some l)
  consider "writerTxnId l = 0" | "writerTxnId l = txn_id txn" "writerTxnId l \<noteq> 0"
    | "writerTxnId l \<noteq> 0" "writerTxnId l \<noteq> txn_id txn" by blast
  then show ?thesis
    using Some assms by cases (simp_all add: txn_Put_def tryAcquireWriteLock_def holder_def tm_lock_def)
qed

text \<open>A transaction that holds its locks can always be ended.\<close>

lemma releaseLocks_eq:
  assumes "distinct keys" "\<forall>k \<in> set keys. \<exists>l. locks k = Some l \<and> writerTxnId l = i"
  shows "releaseLocks i locks keys =
    Ok (\<lambda>k. if k \<in> set keys then map_option (\<lambda>l. l\<lparr>writerTxnId := 0\<rparr>) (locks k) else locks k)"
  using assms
proof (induction keys arbitrary: locks)
  case (Cons k keys)
  then obtain l where l: "locks k = Some l" "writerTxnId l = i" by auto
  have step: "releaseLock i locks k = Ok (locks(k \<mapsto> l\<lparr>writerTxnId := 0\<rparr>))"
    by (simp add: releaseLock_def l)
  have "\<forall>k' \<in> set keys. \<exists>l'. (locks(k \<mapsto> l\<lparr>writerTxnId := 0\<rparr>)) k' = Some l' \<and> writerTxnId l' = i"
    using Cons.prems by auto
  with Cons show ?case
    by (simp add: step) (auto simp: l fun_eq_iff)
qed simp

definition owns_locks :: "Transaction \<Rightarrow> transactionManager \<Rightarrow> bool" where
  "owns_locks txn tm \<longleftrightarrow> distinct (lockAcquiredKeys txn) \<and> txn_id txn \<noteq> 0 \<and>
     (\<forall>k \<in> set (lockAcquiredKeys txn). holder tm k = txn_id txn)"

definition ended :: "Transaction \<Rightarrow> Transaction" where
  "ended txn = txn\<lparr>lockAcquiredKeys := [], bufferedWriteMap := Map.empty\<rparr>"

lemma endTransaction_eq:
  assumes "owns_locks txn (db_tm db)"
  shows "endTransaction txn db = Ok (ended txn, db\<lparr>db_tm := tm_end txn (db_tm db)\<rparr>)"
proof -
  have "\<forall>k \<in> set (lockAcquiredKeys txn). \<exists>l. keyVsLocksAcquiredMap (db_tm db) k = Some l \<and> writerTxnId l = txn_id txn"
    using assms by (auto simp: owns_locks_def holder_def split: option.splits)
  then show ?thesis
    using assms
    by (simp add: endTransaction_def releaseAllLocks_def releaseLocks_eq owns_locks_def
        cleanupBufferedWriteMap_def deleteActive_def ended_def tm_end_def)
qed

section \<open>The lock map implements the interface\<close>

text \<open>The two operations of the code on locks, seen from a client of which only the id is known.\<close>

definition acquireLock :: "u64 \<Rightarrow> string \<Rightarrow> 't DB \<Rightarrow> 't DB option" where
  "acquireLock i k db =
     (case tryAcquireWriteLock \<lparr>txn_id = i, bufferedWriteMap = Map.empty, lockAcquiredKeys = [], activeTransactionsSnapshot = {}\<rparr> db k of
        (Ok _, _, db') \<Rightarrow> Some db'
      | _ \<Rightarrow> None)"

definition releaseKeys :: "u64 \<Rightarrow> string list \<Rightarrow> 't DB \<Rightarrow> 't DB option" where
  "releaseKeys i ks db =
     (case releaseLocks i (keyVsLocksAcquiredMap (db_tm db)) ks of
        Ok locks \<Rightarrow> Some (db\<lparr>db_tm := (db_tm db)\<lparr>keyVsLocksAcquiredMap := locks\<rparr>\<rparr>)
      | _ \<Rightarrow> None)"

lemma acquireLock_eq:
  assumes "i \<noteq> 0"
  shows "acquireLock i k db =
    (if holder (db_tm db) k = 0 then Some (db\<lparr>db_tm := tm_lock i k (db_tm db)\<rparr>)
     else if holder (db_tm db) k = i then Some db else None)"
  using assms
  by (cases "keyVsLocksAcquiredMap (db_tm db) k")
    (auto simp: acquireLock_def tryAcquireWriteLock_def holder_def tm_lock_def Let_def)

lemma held_locks:
  assumes "i \<noteq> 0" "\<forall>k \<in> set ks. holder tm k = i"
  shows "\<forall>k \<in> set ks. \<exists>l. keyVsLocksAcquiredMap tm k = Some l \<and> writerTxnId l = i"
  using assms by (auto simp: holder_def split: option.splits)

interpretation locks: lock_manager "\<lambda>db. holder (db_tm db)" acquireLock releaseKeys
proof
  fix i k and m m' :: "'t DB" assume i: "i \<noteq> (0 :: u64)"
  show "acquireLock i k m = None \<longleftrightarrow> holder (db_tm m) k \<noteq> 0 \<and> holder (db_tm m) k \<noteq> i"
    by (simp add: acquireLock_eq [OF i])
  show "acquireLock i k m = Some m' \<Longrightarrow> holder (db_tm m') = (holder (db_tm m))(k := i)"
    by (auto simp: acquireLock_eq [OF i] fun_eq_iff split: if_splits)
next
  fix i k ks and m m' :: "'t DB" assume a: "i \<noteq> (0 :: u64)" "distinct ks" "\<forall>k \<in> set ks. holder (db_tm m) k = i"
  note eq = releaseLocks_eq [OF a(2) held_locks [OF a(1,3)]]
  show "releaseKeys i ks m \<noteq> None" by (simp add: releaseKeys_def eq)
  show "releaseKeys i ks m = Some m' \<Longrightarrow> holder (db_tm m') k = (if k \<in> set ks then 0 else holder (db_tm m) k)"
    by (auto simp: releaseKeys_def eq holder_def split: option.splits if_splits)
qed

text \<open>\<open>Put\<close> acquires the lock, records it when it is new, and buffers the write.\<close>

lemma txn_Put_cases:
  assumes "txn_Put txn db k v = (r, txn', db')" "txn_id txn \<noteq> 0"
  obtains (ok) "r = Ok ()" "acquireLock (txn_id txn) k db = Some db'"
      "bufferedWriteMap txn' = (bufferedWriteMap txn)(k \<mapsto> v)"
      "lockAcquiredKeys txn' = (if holder (db_tm db) k = 0 then lockAcquiredKeys txn @ [k] else lockAcquiredKeys txn)"
      "txn_id txn' = txn_id txn" "activeTransactionsSnapshot txn' = activeTransactionsSnapshot txn"
      "nextTransactionId (db_tm db') = nextTransactionId (db_tm db)"
      "activeTransactionsMap (db_tm db') = activeTransactionsMap (db_tm db)"
    | (refused) "r = Err (WriteLockHeldBy (holder (db_tm db) k))" "acquireLock (txn_id txn) k db = None" "txn' = txn" "db' = db"
proof -
  consider "holder (db_tm db) k = 0" | "holder (db_tm db) k = txn_id txn" "holder (db_tm db) k \<noteq> 0"
    | "holder (db_tm db) k \<noteq> 0" "holder (db_tm db) k \<noteq> txn_id txn" by blast
  then show thesis
  proof cases
    case 1
    with assms show thesis by (intro ok) (auto simp: txn_Put_eq acquireLock_eq)
  next
    case 2
    with assms show thesis by (intro ok) (auto simp: txn_Put_eq acquireLock_eq)
  next
    case 3
    with assms show thesis by (intro refused) (auto simp: txn_Put_eq acquireLock_eq)
  qed
qed

end
