(* ===== verification/DbSteps.thy ===== *)
theory DbSteps
  imports DbRecovery Locks
begin

text \<open>
  The store as a whole: any number of live transactions that begin, write, commit and roll back in any
  order, single reads, flushes, and the phases of a compaction. The state holds the database and the
  live transactions, and the ghost components of the table directory: the entries flushed so far and
  the largest compaction bound. Every step is an operation of the code as a whole.
\<close>

section \<open>The system\<close>

record 't sys =
  sy_db :: "'t DB"
  sy_txns :: "u64 \<rightharpoonup> Transaction"
  sy_phase :: phase
  sy_hist :: "Entry list"
  sy_bound :: u64

definition ts_of :: "'t sys \<Rightarrow> table_state" where
  "ts_of s = \<lparr>ts_st = db_ssTable (sy_db s), ts_d = db_disk (sy_db s), ts_phase = sy_phase s,
     ts_hist = sy_hist s, ts_bound = sy_bound s\<rparr>"

definition with_table :: "'t sys \<Rightarrow> table_state \<Rightarrow> 't sys" where
  "with_table s t = s\<lparr>sy_db := (sy_db s)\<lparr>db_ssTable := ts_st t, db_disk := ts_d t\<rparr>,
     sy_phase := ts_phase t, sy_hist := ts_hist t, sy_bound := ts_bound t\<rparr>"

text \<open>A new database in an empty directory.\<close>

definition sys_init :: "'t btree \<Rightarrow> string \<Rightarrow> int \<Rightarrow> 't sys" where
  "sys_init bt dir bl =
     \<lparr>sy_db = \<lparr>db_wal = NewWal Map.empty '''', db_memTable = NewMemtable bt,
        db_ssTable = (table_of dir [])\<lparr>blockLength := bl\<rparr>, db_disk = disk_of dir [],
        db_tm = \<lparr>nextTransactionId = 1, keyVsLocksAcquiredMap = Map.empty, activeTransactionsMap = {}\<rparr>\<rparr>,
      sy_txns = Map.empty, sy_phase = Idle, sy_hist = [], sy_bound = 0\<rparr>"

text \<open>The memtable after the writes of a transaction, and what a step that may flush it adds.\<close>

definition committed_memtable ::
  "'t btree \<Rightarrow> ((string \<rightharpoonup> string) \<Rightarrow> (string \<times> string) list) \<Rightarrow> Transaction \<Rightarrow> 't DB \<Rightarrow> 't Memtable" where
  "committed_memtable bt rngM txn db =
     Memtable_Puts bt (db_memTable db) (commit_puts (txn_id txn, rngM (bufferedWriteMap txn)))"

definition payload_fits ::
  "((string \<rightharpoonup> string) \<Rightarrow> (string \<times> string) list) \<Rightarrow> Transaction \<Rightarrow> bool" where
  "payload_fits rngW txn \<longleftrightarrow> length (commit_payload (txn_id txn, rngW (bufferedWriteMap txn))) \<le> 1000000"

text \<open>
  Guards: transaction ids do not wrap around, a commit's log record is one that the reader accepts
  (at most 1 MB), a flush stays below 2 GB and has no empty key, and a log write that fails has
  written nothing. What the code does when a log record is cut is in the theory of recovery.
\<close>

inductive sys_step ::
  "'t btree \<Rightarrow> (u64 set \<Rightarrow> u64 list) \<Rightarrow> ((string \<rightharpoonup> string) \<Rightarrow> (string \<times> string) list) \<Rightarrow>
   ((string \<rightharpoonup> string) \<Rightarrow> (string \<times> string) list) \<Rightarrow>
   ((string \<rightharpoonup> valueTxnId) \<Rightarrow> (string \<times> valueTxnId) list) \<Rightarrow> 't sys \<Rightarrow> 't sys \<Rightarrow> bool"
  for bt rngA rngW rngM rngC where
  begin_txn: "\<lbrakk>nextTransactionId (db_tm (sy_db s)) + 1 \<noteq> 0; db_Begin (sy_db s) = (txn, db)\<rbrakk> \<Longrightarrow>
    sys_step bt rngA rngW rngM rngC s (s\<lparr>sy_db := db, sy_txns := (sy_txns s)(txn_id txn \<mapsto> txn)\<rparr>)"
| put: "\<lbrakk>sy_txns s i = Some txn; txn_Put txn (sy_db s) k v = (r, txn', db)\<rbrakk> \<Longrightarrow>
    sys_step bt rngA rngW rngM rngC s (s\<lparr>sy_db := db, sy_txns := (sy_txns s)(i \<mapsto> txn')\<rparr>)"
| get: "\<lbrakk>nextTransactionId (db_tm (sy_db s)) + 1 \<noteq> 0; db_Get bt (sy_db s) k = (r, db)\<rbrakk> \<Longrightarrow>
    sys_step bt rngA rngW rngM rngC s (s\<lparr>sy_db := db\<rparr>)"
| rollback: "\<lbrakk>sy_txns s i = Some txn; txn_Rollback txn (sy_db s) = Ok (txn', db)\<rbrakk> \<Longrightarrow>
    sys_step bt rngA rngW rngM rngC s (s\<lparr>sy_db := db, sy_txns := (sy_txns s)(i := None)\<rparr>)"
| commit: "\<lbrakk>sy_txns s i = Some txn; payload_fits rngW txn;
    m = committed_memtable bt rngM txn (sy_db s); ShouldFlush m \<longrightarrow> flushable (sy_hist s) (mt_entries bt m);
    txn_Commit bt rngA rngW rngM IoOk txn (sy_db s) = (Ok bnd, txn', db)\<rbrakk> \<Longrightarrow>
    sys_step bt rngA rngW rngM rngC s (s\<lparr>sy_db := db, sy_txns := (sy_txns s)(i := None),
      sy_hist := (if ShouldFlush m then sy_hist s @ mt_entries bt m else sy_hist s)\<rparr>)"
| commit_fail: "\<lbrakk>sy_txns s i = Some txn; txn_Commit bt rngA rngW rngM (IoFail 0) txn (sy_db s) = (r, txn', db)\<rbrakk> \<Longrightarrow>
    sys_step bt rngA rngW rngM rngC s (s\<lparr>sy_db := db, sy_txns := (sy_txns s)(i \<mapsto> txn')\<rparr>)"
| flush: "\<lbrakk>flushable (sy_hist s) (mt_entries bt (db_memTable (sy_db s)));
    FlushMemtable bt rngA (sy_db s) = (bnd, db)\<rbrakk> \<Longrightarrow>
    sys_step bt rngA rngW rngM rngC s
      (s\<lparr>sy_db := db, sy_hist := sy_hist s @ mt_entries bt (db_memTable (sy_db s))\<rparr>)"
| table: "\<lbrakk>table_step rngC (ts_of s) t; ts_hist t = sy_hist s\<rbrakk> \<Longrightarrow>
    sys_step bt rngA rngW rngM rngC s (with_table s t)"

inductive sys_reachable ::
  "'t btree \<Rightarrow> (u64 set \<Rightarrow> u64 list) \<Rightarrow> ((string \<rightharpoonup> string) \<Rightarrow> (string \<times> string) list) \<Rightarrow>
   ((string \<rightharpoonup> string) \<Rightarrow> (string \<times> string) list) \<Rightarrow>
   ((string \<rightharpoonup> valueTxnId) \<Rightarrow> (string \<times> valueTxnId) list) \<Rightarrow> 't sys \<Rightarrow> bool"
  for bt rngA rngW rngM rngC where
  init: "sys_reachable bt rngA rngW rngM rngC (sys_init bt dir bl)"
| step: "\<lbrakk>sys_reachable bt rngA rngW rngM rngC s; sys_step bt rngA rngW rngM rngC s s'\<rbrakk> \<Longrightarrow>
    sys_reachable bt rngA rngW rngM rngC s'"

section \<open>Effects of the operations\<close>

text \<open>A flush writes one table file with the entries of the memtable and empties memtable and log.\<close>

definition flushed :: "'t btree \<Rightarrow> 't DB \<Rightarrow> 't DB" where
  "flushed bt db =
     (let w = write_entries (db_ssTable db, db_disk db) (calls_of (mt_entries bt (db_memTable db)))
      in db\<lparr>db_ssTable := fst w, db_disk := snd w, db_memTable := Memtable_Clear bt (db_memTable db),
            db_wal := Wal_Clear (db_wal db)\<rparr>)"

lemma flush_eq: "snd (createSsTableAndClearWalAndMemTable bt rngA db) = flushed bt db"
  by (simp add: createSsTableAndClearWalAndMemTable_def flushMemtableToSsTable_def flushed_def
      write_entries_def Memtable_Iterate_def mt_entries_def calls_of_def split_beta Let_def)

text \<open>The state between the log write and the end of the transaction.\<close>

definition committed ::
  "'t btree \<Rightarrow> ((string \<rightharpoonup> string) \<Rightarrow> (string \<times> string) list) \<Rightarrow>
   ((string \<rightharpoonup> string) \<Rightarrow> (string \<times> string) list) \<Rightarrow> Transaction \<Rightarrow> 't DB \<Rightarrow> 't DB" where
  "committed bt rngW rngM txn db =
     (let db' = db\<lparr>db_wal := snd (WriteEntry IoOk (db_wal db) (commit_payload (txn_id txn, rngW (bufferedWriteMap txn)))),
                   db_memTable := committed_memtable bt rngM txn db\<rparr>
      in if ShouldFlush (committed_memtable bt rngM txn db) then flushed bt db' else db')"

lemma committed_tm [simp]: "db_tm (committed bt rngW rngM txn db) = db_tm db"
  by (simp add: committed_def flushed_def Let_def)

lemma txn_Commit_eq:
  assumes "owns_locks txn (db_tm db)"
  shows "\<exists>bnd. txn_Commit bt rngA rngW rngM IoOk txn db =
    (Ok bnd, ended txn, (committed bt rngW rngM txn db)\<lparr>db_tm := tm_end txn (db_tm db)\<rparr>)"
proof -
  define db' where "db' = db\<lparr>db_wal := snd (WriteEntry IoOk (db_wal db) (commit_payload (txn_id txn, rngW (bufferedWriteMap txn)))),
    db_memTable := committed_memtable bt rngM txn db\<rparr>"
  define bnd where "bnd = (if ShouldFlush (committed_memtable bt rngM txn db)
    then fst (createSsTableAndClearWalAndMemTable bt rngA db') else None)"
  have wr: "writeSingleWalEntryForCommit IoOk (rngW (bufferedWriteMap txn)) txn db =
      (Ok (), db\<lparr>db_wal := snd (WriteEntry IoOk (db_wal db) (commit_payload (txn_id txn, rngW (bufferedWriteMap txn))))\<rparr>)"
    by (simp add: writeSingleWalEntryForCommit_def commit_payload_def WriteEntry_def Let_def)
  have puts: "map (\<lambda>(key, value). (key, value, txn_id txn)) (rngM (bufferedWriteMap txn)) =
      commit_puts (txn_id txn, rngM (bufferedWriteMap txn))"
    by (simp add: commit_puts_def)
  have fl: "(if ShouldFlush (db_memTable db') then createSsTableAndClearWalAndMemTable bt rngA db' else (None, db')) =
      (bnd, committed bt rngW rngM txn db)"
    using flush_eq [of bt rngA db']
    by (auto simp: db'_def bnd_def committed_def Let_def intro!: prod_eqI)
  have "txn_Commit bt rngA rngW rngM IoOk txn db =
      (case (if ShouldFlush (db_memTable db') then createSsTableAndClearWalAndMemTable bt rngA db' else (None, db')) of
         (bound, db) \<Rightarrow> (case endTransaction txn db of
                Ok (txn, db) \<Rightarrow> (Ok bound, txn, db)
              | Err er \<Rightarrow> (Err er, txn, db)
              | Panic \<Rightarrow> (Panic, txn, db)))"
    unfolding txn_Commit_def wr prod.case result.case Let_def puts db'_def committed_memtable_def
    by simp
  also have "\<dots> = (Ok bnd, ended txn, (committed bt rngW rngM txn db)\<lparr>db_tm := tm_end txn (db_tm db)\<rparr>)"
    unfolding fl prod.case using assms by (simp add: endTransaction_eq)
  finally show ?thesis by blast
qed

lemma txn_Commit_fail:
  "txn_Commit bt rngA rngW rngM (IoFail n) txn db =
    (Err WriteFailed, txn, db\<lparr>db_wal := snd (WriteEntry (IoFail n) (db_wal db)
      (commit_payload (txn_id txn, rngW (bufferedWriteMap txn))))\<rparr>)"
  by (simp add: txn_Commit_def writeSingleWalEntryForCommit_def commit_payload_def WriteEntry_def Let_def)

section \<open>Transactions and locks\<close>

text \<open>
  Ids: live transactions are active, carry their own id, and see in their snapshot every live
  transaction that began before them and nothing later.
\<close>

definition ids_ok :: "transactionManager \<Rightarrow> (u64 \<rightharpoonup> Transaction) \<Rightarrow> bool" where
  "ids_ok tm txns \<longleftrightarrow> 0 < nextTransactionId tm \<and>
     (\<forall>x \<in> activeTransactionsMap tm. x < nextTransactionId tm) \<and>
     (\<forall>i txn. txns i = Some txn \<longrightarrow>
        txn_id txn = i \<and> 0 < i \<and> i \<in> activeTransactionsMap tm \<and> i \<in> activeTransactionsSnapshot txn \<and>
        (\<forall>x \<in> activeTransactionsSnapshot txn. x \<le> i) \<and>
        (\<forall>j < i. txns j \<noteq> None \<longrightarrow> j \<in> activeTransactionsSnapshot txn))"

text \<open>
  Locks: a live transaction has buffered writes for exactly the keys whose lock it holds, and a lock
  that is held belongs to a live transaction.
\<close>

definition locks_ok :: "transactionManager \<Rightarrow> (u64 \<rightharpoonup> Transaction) \<Rightarrow> bool" where
  "locks_ok tm txns \<longleftrightarrow>
     (\<forall>i txn. txns i = Some txn \<longrightarrow>
        distinct (lockAcquiredKeys txn) \<and> set (lockAcquiredKeys txn) = dom (bufferedWriteMap txn) \<and>
        (\<forall>k \<in> dom (bufferedWriteMap txn). holder tm k = i)) \<and>
     (\<forall>k. holder tm k \<noteq> 0 \<longrightarrow>
        (\<exists>txn. txns (holder tm k) = Some txn \<and> k \<in> dom (bufferedWriteMap txn)))"

lemma ids_okD:
  assumes "ids_ok tm txns" "txns i = Some txn"
  shows "txn_id txn = i" "0 < i" "i \<in> activeTransactionsMap tm" "i < nextTransactionId tm"
    "i \<in> activeTransactionsSnapshot txn" "\<And>x. x \<in> activeTransactionsSnapshot txn \<Longrightarrow> x \<le> i"
    "\<And>j. \<lbrakk>j < i; txns j \<noteq> None\<rbrakk> \<Longrightarrow> j \<in> activeTransactionsSnapshot txn"
  using assms unfolding ids_ok_def by blast+

lemma locks_okD:
  assumes "locks_ok tm txns" "txns i = Some txn"
  shows "distinct (lockAcquiredKeys txn)" "set (lockAcquiredKeys txn) = dom (bufferedWriteMap txn)"
    "\<And>k. k \<in> dom (bufferedWriteMap txn) \<Longrightarrow> holder tm k = i"
  using assms unfolding locks_ok_def by blast+

lemma locks_ok_holder:
  "\<lbrakk>locks_ok tm txns; holder tm k \<noteq> 0\<rbrakk> \<Longrightarrow>
   \<exists>txn. txns (holder tm k) = Some txn \<and> k \<in> dom (bufferedWriteMap txn)"
  unfolding locks_ok_def by blast

lemma live_owns_locks:
  "\<lbrakk>ids_ok tm txns; locks_ok tm txns; txns i = Some txn\<rbrakk> \<Longrightarrow> owns_locks txn tm"
  using ids_okD(1,2) [of tm txns i txn] locks_okD [of tm txns i txn] by (auto simp: owns_locks_def)

lemma word_next: "(x :: u64) + 1 \<noteq> 0 \<Longrightarrow> y < x + 1 \<longleftrightarrow> y \<le> x"
  using unatSuc [of x] by (simp add: word_less_nat_alt word_le_nat_alt less_Suc_eq_le add.commute)

lemma ids_ok_begin:
  assumes "ids_ok tm txns" "nextTransactionId tm + 1 \<noteq> 0"
  shows "ids_ok (tm_begin tm) txns" "ids_ok (tm_begin tm) (txns(nextTransactionId tm \<mapsto> new_txn tm))"
proof -
  have "y < nextTransactionId tm + 1 \<longleftrightarrow> y \<le> nextTransactionId tm" for y
    using assms(2) by (rule word_next)
  moreover have "x < nextTransactionId tm" if "x \<in> activeTransactionsMap tm" for x
    using assms(1) that by (simp add: ids_ok_def)
  moreover have "0 < nextTransactionId tm"
    using assms(1) by (simp add: ids_ok_def)
  moreover have "i < nextTransactionId tm \<and> i \<in> activeTransactionsMap tm" if "txns i = Some txn" for i txn
    using ids_okD(3,4) [OF assms(1) that] by simp
  ultimately show "ids_ok (tm_begin tm) txns" "ids_ok (tm_begin tm) (txns(nextTransactionId tm \<mapsto> new_txn tm))"
    using assms(1) unfolding ids_ok_def new_txn_def
    by (auto simp: less_imp_le) (meson less_imp_not_less)+
qed

lemma ids_ok_update:
  assumes "ids_ok tm txns" "txns i = Some txn" "txn_id txn' = txn_id txn"
    "activeTransactionsSnapshot txn' = activeTransactionsSnapshot txn"
    "nextTransactionId tm' = nextTransactionId tm" "activeTransactionsMap tm' = activeTransactionsMap tm"
  shows "ids_ok tm' (txns(i \<mapsto> txn'))"
  using assms unfolding ids_ok_def by auto

lemma ids_ok_end:
  assumes "ids_ok tm txns" "txns i = Some txn"
  shows "ids_ok (tm_end txn tm) (txns(i := None))"
  using assms ids_okD(1) [OF assms] unfolding ids_ok_def by auto

text \<open>The locks of the live transactions are granted by the lock map.\<close>

definition owned :: "(u64 \<rightharpoonup> Transaction) \<Rightarrow> u64 \<rightharpoonup> string set" where
  "owned txns i = map_option (\<lambda>txn. dom (bufferedWriteMap txn)) (txns i)"

lemma owned_simps [simp]:
  "owned (txns(i \<mapsto> txn)) = (owned txns)(i \<mapsto> dom (bufferedWriteMap txn))"
  "owned (txns(i := None)) = (owned txns)(i := None)"
  by (simp_all add: owned_def fun_eq_iff)

lemma owned_Some: "owned txns i = Some K \<longleftrightarrow> (\<exists>txn. txns i = Some txn \<and> K = dom (bufferedWriteMap txn))"
  by (auto simp: owned_def)

definition keys_recorded :: "Transaction \<Rightarrow> bool" where
  "keys_recorded txn \<longleftrightarrow> distinct (lockAcquiredKeys txn) \<and> set (lockAcquiredKeys txn) = dom (bufferedWriteMap txn)"

lemma locks_ok_iff:
  assumes "ids_ok tm txns"
  shows "locks_ok tm txns \<longleftrightarrow> (\<forall>i txn. txns i = Some txn \<longrightarrow> keys_recorded txn) \<and> granted (holder tm) (owned txns)"
proof -
  have "i \<noteq> 0" if "txns i = Some txn" for i txn using ids_okD(2) [OF assms that] by simp
  then show ?thesis
    unfolding locks_ok_def granted_def owned_Some keys_recorded_def by blast
qed

lemma locks_ok_granted: "\<lbrakk>ids_ok tm txns; locks_ok tm txns\<rbrakk> \<Longrightarrow> granted (holder tm) (owned txns)"
  by (simp add: locks_ok_iff)

lemma locks_ok_begin:
  assumes "locks_ok tm txns" "txns (nextTransactionId tm) = None" "\<forall>k. holder tm k \<noteq> nextTransactionId tm"
  shows "locks_ok (tm_begin tm) txns" "locks_ok (tm_begin tm) (txns(nextTransactionId tm \<mapsto> new_txn tm))"
  using assms unfolding locks_ok_def new_txn_def by auto

lemma locks_ok_end:
  fixes db :: "'t DB"
  assumes "ids_ok (db_tm db) txns" "locks_ok (db_tm db) txns" "txns i = Some txn"
  shows "locks_ok (tm_end txn (db_tm db)) (txns(i := None))"
proof -
  let ?tm = "tm_end txn (db_tm db)"
  have own: "distinct (lockAcquiredKeys txn)" "owned txns i = Some (set (lockAcquiredKeys txn))"
    using locks_okD [OF assms(2,3)] assms(3) by (simp_all add: owned_def)
  from locks.granted_release [OF locks_ok_granted [OF assms(1,2)] own(2,1)]
  obtain db' :: "'t DB" where db': "granted (holder (db_tm db')) (owned (txns(i := None)))"
    "\<forall>k. holder (db_tm db') k = holder ?tm k" by auto
  then have "holder (db_tm db') = holder ?tm" by (simp add: fun_eq_iff)
  with db'(1) have "granted (holder ?tm) (owned (txns(i := None)))" by simp
  moreover have "keys_recorded t" if "(txns(i := None)) j = Some t" for j t
    using that locks_okD(1,2) [OF assms(2)] by (auto simp: keys_recorded_def split: if_splits)
  ultimately show ?thesis
    by (simp only: locks_ok_iff [OF ids_ok_end [OF assms(1,3)]]) blast
qed

lemma locks_ok_put:
  fixes db :: "'t DB"
  assumes ids: "ids_ok (db_tm db) txns" and locks: "locks_ok (db_tm db) txns" and live: "txns i = Some txn"
    and put: "txn_Put txn db k v = (r, txn', db')"
  shows "ids_ok (db_tm db') (txns(i \<mapsto> txn'))" "locks_ok (db_tm db') (txns(i \<mapsto> txn'))"
proof -
  have id: "txn_id txn = i" "txn_id txn \<noteq> 0" using ids_okD(1,2) [OF ids live] by auto
  have own: "owned txns i = Some (dom (bufferedWriteMap txn))" by (simp add: owned_def live)
  note granted = locks_ok_granted [OF ids locks]
  from put id(2) have "ids_ok (db_tm db') (txns(i \<mapsto> txn')) \<and> locks_ok (db_tm db') (txns(i \<mapsto> txn'))"
  proof (cases rule: txn_Put_cases)
    case ok
    have ids': "ids_ok (db_tm db') (txns(i \<mapsto> txn'))" by (rule ids_ok_update [OF ids live ok(5-8)])
    have "owned (txns(i \<mapsto> txn')) = (owned txns)(i \<mapsto> insert k (dom (bufferedWriteMap txn)))" by (simp add: ok(3))
    with locks.granted_acquire [OF granted own ok(2) [unfolded id(1)]]
    have "granted (holder (db_tm db')) (owned (txns(i \<mapsto> txn')))" by simp
    moreover have "holder (db_tm db) k = 0 \<or> holder (db_tm db) k = i"
      using locks.acquire_None [OF id(2), of k db] ok(2) id(1) by auto
    then have "keys_recorded txn'"
      using locks_okD(1,2) [OF locks live] granted_iff [OF granted own, of k] id by (auto simp: keys_recorded_def ok(3,4))
    then have "keys_recorded t" if "(txns(i \<mapsto> txn')) j = Some t" for j t
      using that locks_okD(1,2) [OF locks] by (auto simp: keys_recorded_def split: if_splits)
    ultimately show ?thesis using ids' locks_ok_iff [OF ids'] by blast
  next
    case refused
    then have "txns(i \<mapsto> txn') = txns" using live by auto
    with refused(4) ids locks show ?thesis by simp
  qed
  then show "ids_ok (db_tm db') (txns(i \<mapsto> txn'))" "locks_ok (db_tm db') (txns(i \<mapsto> txn'))" by blast+
qed

section \<open>Versions\<close>

text \<open>Every version committed so far: those flushed and those in the memtable.\<close>

definition versions :: "'t btree \<Rightarrow> 't sys \<Rightarrow> Entry list" where
  "versions bt s = sy_hist s @ mt_entries bt (db_memTable (sy_db s))"

definition writes_of :: "Transaction \<Rightarrow> Entry set" where
  "writes_of txn = {mk_entry k v (txn_id txn) | k v. bufferedWriteMap txn k = Some v}"

definition versions_ok :: "u64 \<Rightarrow> (u64 \<rightharpoonup> Transaction) \<Rightarrow> Entry list \<Rightarrow> bool" where
  "versions_ok nxt txns es \<longleftrightarrow> unique_versions es \<and>
     (\<forall>e \<in> set es. 0 < TxnId e \<and> TxnId e < nxt \<and> txns (TxnId e) = None)"

lemma set_mt_entries:
  "btree_ok bt \<Longrightarrow> set (mt_entries bt m) = {mk_entry k v i | k v i. mt_map bt m (k, i) = Some v}"
  by (auto simp: mt_map_Some_iff) (metis mk_entry_eta)

lemma committed_map:
  assumes "btree_ok bt" "range_order rngM" "finite (dom (bufferedWriteMap txn))"
  shows "mt_map bt (committed_memtable bt rngM txn db) (k, j) =
    (if j = txn_id txn \<and> k \<in> dom (bufferedWriteMap txn) then bufferedWriteMap txn k
     else mt_map bt (db_memTable db) (k, j))"
proof -
  have "enumerates (rngM (bufferedWriteMap txn)) (bufferedWriteMap txn)"
    using assms(2,3) by (simp add: range_order_def)
  then show ?thesis
    using commit_puts_map [of "rngM (bufferedWriteMap txn)" "txn_id txn" k j]
    by (auto simp: committed_memtable_def Memtable_Puts_map [OF assms(1)] foldl_updates enumerates_def
        map_add_def split: option.splits)
qed

lemma committed_entries:
  assumes "btree_ok bt" "range_order rngM" "finite (dom (bufferedWriteMap txn))"
    and "\<forall>e \<in> set (mt_entries bt (db_memTable db)). TxnId e \<noteq> txn_id txn"
  shows "set (mt_entries bt (committed_memtable bt rngM txn db)) =
    set (mt_entries bt (db_memTable db)) \<union> writes_of txn"
proof -
  have old: "mt_map bt (db_memTable db) (k, txn_id txn) = None" for k
  proof (rule ccontr)
    assume "mt_map bt (db_memTable db) (k, txn_id txn) \<noteq> None"
    then obtain v where "mk_entry k v (txn_id txn) \<in> set (mt_entries bt (db_memTable db))"
      by (auto simp: mt_map_Some_iff [OF assms(1)])
    with assms(4) show False by auto
  qed
  have "mt_map bt (committed_memtable bt rngM txn db) (k, j) = Some v \<longleftrightarrow>
      mt_map bt (db_memTable db) (k, j) = Some v \<or> j = txn_id txn \<and> bufferedWriteMap txn k = Some v" for k j v
    using old [of k] by (auto simp: committed_map [OF assms(1-3)])
  then show ?thesis
    unfolding set_mt_entries [OF assms(1)] writes_of_def by blast
qed

section \<open>The invariant of the system\<close>

definition sys_inv :: "'t btree \<Rightarrow> 't sys \<Rightarrow> bool" where
  "sys_inv bt s \<longleftrightarrow>
     ids_ok (db_tm (sy_db s)) (sy_txns s) \<and> locks_ok (db_tm (sy_db s)) (sy_txns s) \<and>
     versions_ok (nextTransactionId (db_tm (sy_db s))) (sy_txns s) (versions bt s) \<and>
     (\<exists>log. wal_rel bt (sy_db s) log \<and> log_max 0 log < nextTransactionId (db_tm (sy_db s))) \<and>
     (\<exists>tfs. table_rel (ts_of s) tfs)"

lemma sys_invD:
  assumes "sys_inv bt s"
  shows "ids_ok (db_tm (sy_db s)) (sy_txns s)" "locks_ok (db_tm (sy_db s)) (sy_txns s)"
    "versions_ok (nextTransactionId (db_tm (sy_db s))) (sy_txns s) (versions bt s)"
    "\<exists>log. wal_rel bt (sy_db s) log \<and> log_max 0 log < nextTransactionId (db_tm (sy_db s))"
    "\<exists>tfs. table_rel (ts_of s) tfs"
  using assms by (auto simp: sys_inv_def)

lemma live_finite:
  assumes "sys_inv bt s" "sy_txns s i = Some txn"
  shows "finite (dom (bufferedWriteMap txn))"
  using locks_okD(2) [OF sys_invD(2) [OF assms(1)] assms(2)] by (metis List.finite_set)

lemma versions_ok_mono:
  assumes "versions_ok nxt txns es" "\<And>x. x < nxt \<Longrightarrow> x < nxt'"
    "\<And>x. \<lbrakk>x < nxt; txns x = None\<rbrakk> \<Longrightarrow> txns' x = None"
  shows "versions_ok nxt' txns' es"
  using assms unfolding versions_ok_def by blast

lemma versions_ok_set:
  "\<lbrakk>versions_ok nxt txns es; set fs = set es; unique_versions fs\<rbrakk> \<Longrightarrow> versions_ok nxt txns fs"
  by (simp add: versions_ok_def)

lemma wal_rel_cong:
  "\<lbrakk>wal_rel bt db log; f_content (wal_file (db_wal db')) = f_content (wal_file (db_wal db));
    db_memTable db' = db_memTable db\<rbrakk> \<Longrightarrow> wal_rel bt db' log"
  by (simp add: wal_rel_def)

lemma sys_init_inv: "btree_ok bt \<Longrightarrow> sys_inv bt (sys_init bt dir bl)"
  using table_rel_init [of dir bl]
  by (auto simp: sys_inv_def sys_init_def ids_ok_def locks_ok_def holder_def versions_ok_def versions_def
      mt_entries_def NewMemtable_def btree_okD(1) unique_versions_def wal_rel_def NewWal_def ts_of_def table_init_def
      intro!: exI [of _ "[]"])

text \<open>The flush, as an effect on the invariant.\<close>

lemma flushed_simps [simp]:
  "db_tm (flushed bt db) = db_tm db"
  "db_memTable (flushed bt db) = Memtable_Clear bt (db_memTable db)"
  "db_wal (flushed bt db) = Wal_Clear (db_wal db)"
  by (simp_all add: flushed_def Let_def)

lemma mt_entries_Clear: "btree_ok bt \<Longrightarrow> mt_entries bt (Memtable_Clear bt m) = []"
  by (simp add: mt_entries_def Memtable_Clear_def btree_okD(6))

lemma wal_rel_flushed:
  "btree_ok bt \<Longrightarrow> wal_rel bt (flushed bt db) []"
  by (simp add: wal_rel_def Wal_Clear_def mt_map_Clear mt_map_New)

lemma table_rel_flushed:
  assumes "table_rel (ts_of s) tfs" "flushable (sy_hist s) (mt_entries bt m)"
    and "db' = flushed bt ((sy_db s)\<lparr>db_wal := w, db_memTable := m\<rparr>)"
  shows "\<exists>tfs'. table_rel (ts_of (s\<lparr>sy_db := db'\<lparr>db_tm := tm\<rparr>, sy_txns := txns, sy_hist := sy_hist s @ mt_entries bt m\<rparr>)) tfs'"
proof -
  let ?w = "write_entries (ts_st (ts_of s), ts_d (ts_of s)) (calls_of (mt_entries bt m))"
  have "flushable (ts_hist (ts_of s)) (mt_entries bt m)"
    using assms(2) by (simp add: ts_of_def)
  from table_rel_flush [OF assms(1) this, of "fst ?w" "snd ?w"] show ?thesis
    by (simp add: ts_of_def assms(3) flushed_def Let_def)
qed

section \<open>The effects of the steps\<close>

text \<open>
  In a state with the invariant, what each step does to the state in closed form. Every proof about all steps starts
  from these cases.
\<close>

inductive_cases sys_stepE [consumes 1, case_names begin_txn put get rollback commit commit_fail flush table]:
  "sys_step bt rngA rngW rngM rngC s s'"

lemma sys_step_effects:
  fixes s s' :: "'t sys"
  assumes "sys_step bt rngA rngW rngM rngC s s'" "sys_inv bt s"
  obtains
    (begin_txn) "nextTransactionId (db_tm (sy_db s)) + 1 \<noteq> 0"
      "s' = s\<lparr>sy_db := (sy_db s)\<lparr>db_tm := tm_begin (db_tm (sy_db s))\<rparr>,
        sy_txns := (sy_txns s)(nextTransactionId (db_tm (sy_db s)) \<mapsto> new_txn (db_tm (sy_db s)))\<rparr>"
  | (put) i txn k v r txn' db where "sy_txns s i = Some txn" "txn_Put txn (sy_db s) k v = (r, txn', db)"
      "db = (sy_db s)\<lparr>db_tm := db_tm db\<rparr>" "nextTransactionId (db_tm db) = nextTransactionId (db_tm (sy_db s))"
      "activeTransactionsSnapshot txn' = activeTransactionsSnapshot txn"
      "s' = s\<lparr>sy_db := db, sy_txns := (sy_txns s)(i \<mapsto> txn')\<rparr>"
  | (get) "nextTransactionId (db_tm (sy_db s)) + 1 \<noteq> 0"
      "s' = s\<lparr>sy_db := (sy_db s)\<lparr>db_tm := tm_begin (db_tm (sy_db s))\<rparr>\<rparr>"
  | (rollback) i txn where "sy_txns s i = Some txn"
      "s' = s\<lparr>sy_db := (sy_db s)\<lparr>db_tm := tm_end txn (db_tm (sy_db s))\<rparr>, sy_txns := (sy_txns s)(i := None)\<rparr>"
  | (commit) i txn m where "sy_txns s i = Some txn" "payload_fits rngW txn" "m = committed_memtable bt rngM txn (sy_db s)"
      "ShouldFlush m \<longrightarrow> flushable (sy_hist s) (mt_entries bt m)"
      "s' = s\<lparr>sy_db := (committed bt rngW rngM txn (sy_db s))\<lparr>db_tm := tm_end txn (db_tm (sy_db s))\<rparr>,
        sy_txns := (sy_txns s)(i := None), sy_hist := (if ShouldFlush m then sy_hist s @ mt_entries bt m else sy_hist s)\<rparr>"
  | (commit_fail) i txn where "sy_txns s i = Some txn"
      "s' = s\<lparr>sy_db := (sy_db s)\<lparr>db_wal := snd (WriteEntry (IoFail 0) (db_wal (sy_db s))
        (commit_payload (txn_id txn, rngW (bufferedWriteMap txn))))\<rparr>\<rparr>"
  | (flush) "flushable (sy_hist s) (mt_entries bt (db_memTable (sy_db s)))"
      "s' = s\<lparr>sy_db := flushed bt (sy_db s), sy_hist := sy_hist s @ mt_entries bt (db_memTable (sy_db s))\<rparr>"
  | (table) t where "table_step rngC (ts_of s) t" "ts_hist t = sy_hist s" "s' = with_table s t"
  using assms(1)
proof -
  note own = live_owns_locks [OF sys_invD(1,2) [OF assms(2)]]
  from assms(1) show thesis
  proof (cases rule: sys_stepE)
    case (begin_txn txn db)
    then show thesis by (intro that(1)) (auto simp: db_Begin_eq new_txn_def)
  next
    case (put i txn k v r txn' db)
    have "txn_id txn \<noteq> 0" using own [OF put(2)] by (simp add: owns_locks_def)
    with put(3) have "db = (sy_db s)\<lparr>db_tm := db_tm db\<rparr>" "nextTransactionId (db_tm db) = nextTransactionId (db_tm (sy_db s))"
      "activeTransactionsSnapshot txn' = activeTransactionsSnapshot txn"
      by (auto simp: txn_Put_eq split: if_splits)
    from that(2) [OF put(2,3) this put(1)] show thesis .
  next
    case (get k r db)
    then show thesis using db_Get_eq [of bt "sy_db s" k] by (intro that(3)) simp_all
  next
    case (rollback i txn txn' db)
    then show thesis
      using endTransaction_eq [OF own [OF rollback(2)]] by (intro that(4) [OF rollback(2)]) (simp add: txn_Rollback_def)
  next
    case (commit i txn bnd txn' db)
    have "db = (committed bt rngW rngM txn (sy_db s))\<lparr>db_tm := tm_end txn (db_tm (sy_db s))\<rparr>"
      using commit(5) txn_Commit_eq [OF own [OF commit(2)], of bt rngA rngW rngM] by auto
    from that(5) [OF commit(2,3) refl commit(4) commit(1) [unfolded this]] show thesis .
  next
    case (commit_fail i txn r txn' db)
    then have "(sy_txns s)(i \<mapsto> txn') = sy_txns s" by (auto simp: txn_Commit_fail)
    with commit_fail show thesis by (intro that(6) [OF commit_fail(2)]) (auto simp: txn_Commit_fail)
  next
    case (flush bnd db)
    then show thesis using flush_eq [of bt rngA "sy_db s"] by (intro that(7)) (simp_all add: FlushMemtable_def)
  next
    case (table t)
    then show thesis by (intro that(8))
  qed
qed

section \<open>Every step keeps the invariant\<close>

lemma fresh_id:
  assumes "sys_inv bt s"
  shows "sy_txns s (nextTransactionId (db_tm (sy_db s))) = None"
    "\<forall>k. holder (db_tm (sy_db s)) k \<noteq> nextTransactionId (db_tm (sy_db s))"
proof -
  let ?tm = "db_tm (sy_db s)"
  note inv = sys_invD(1,2) [OF assms]
  show none: "sy_txns s (nextTransactionId ?tm) = None"
    using ids_okD(4) [OF inv(1)] by fastforce
  have "nextTransactionId ?tm \<noteq> 0"
    using inv(1) by (auto simp: ids_ok_def)
  with none show "\<forall>k. holder ?tm k \<noteq> nextTransactionId ?tm"
    using locks_ok_holder [OF inv(2)] by (metis option.distinct(1))
qed

lemma sys_inv_tm:
  assumes "sys_inv bt s" "ids_ok tm txns" "locks_ok tm txns" "versions_ok (nextTransactionId tm) txns (versions bt s)"
    and le: "nextTransactionId (db_tm (sy_db s)) \<le> nextTransactionId tm"
  shows "sys_inv bt (s\<lparr>sy_db := (sy_db s)\<lparr>db_tm := tm\<rparr>, sy_txns := txns\<rparr>)"
proof -
  let ?s = "s\<lparr>sy_db := (sy_db s)\<lparr>db_tm := tm\<rparr>, sy_txns := txns\<rparr>"
  have "versions bt ?s = versions bt s" "ts_of ?s = ts_of s" "wal_rel bt (sy_db ?s) = wal_rel bt (sy_db s)"
    by (simp_all add: versions_def ts_of_def wal_rel_def fun_eq_iff)
  moreover have "\<exists>log. wal_rel bt (sy_db s) log \<and> log_max 0 log < nextTransactionId tm"
    using sys_invD(4) [OF assms(1)] le by (blast intro: less_le_trans)
  ultimately show ?thesis
    using assms(2-4) sys_invD(5) [OF assms(1)] unfolding sys_inv_def by simp
qed

lemma sys_inv_begin:
  assumes inv: "sys_inv bt s" and nxt: "nextTransactionId (db_tm (sy_db s)) + 1 \<noteq> 0"
    and s': "s' = s\<lparr>sy_db := (sy_db s)\<lparr>db_tm := tm_begin (db_tm (sy_db s))\<rparr>, sy_txns := txns\<rparr>"
    and txns: "txns = sy_txns s \<or> txns = (sy_txns s)(nextTransactionId (db_tm (sy_db s)) \<mapsto> new_txn (db_tm (sy_db s)))"
  shows "sys_inv bt s'"
proof -
  let ?tm = "db_tm (sy_db s)"
  note i = sys_invD [OF inv]
  note fresh = fresh_id [OF inv]
  have "ids_ok (tm_begin ?tm) txns" "locks_ok (tm_begin ?tm) txns"
    using txns ids_ok_begin [OF i(1) nxt] locks_ok_begin [OF i(2) fresh] by metis+
  moreover have "versions_ok (nextTransactionId ?tm + 1) txns (versions bt s)"
  proof (rule versions_ok_mono [OF i(3)])
    show "x < nextTransactionId ?tm + 1" if "x < nextTransactionId ?tm" for x
      using that by (simp only: word_next [OF nxt] less_imp_le)
    show "txns x = None" if "x < nextTransactionId ?tm" "sy_txns s x = None" for x
      using txns that by (metis fun_upd_other less_irrefl)
  qed
  moreover have "nextTransactionId ?tm \<le> nextTransactionId ?tm + 1"
    using word_next [OF nxt, of "nextTransactionId ?tm"] by simp
  ultimately show ?thesis
    unfolding s' by (intro sys_inv_tm [OF inv]) simp_all
qed

lemma sys_inv_put:
  assumes inv: "sys_inv bt s" and live: "sy_txns s i = Some txn"
    and put: "txn_Put txn (sy_db s) k v = (r, txn', db)"
  shows "sys_inv bt (s\<lparr>sy_db := db, sy_txns := (sy_txns s)(i \<mapsto> txn')\<rparr>)"
proof -
  note i = sys_invD [OF inv]
  have "txn_id txn \<noteq> 0"
    using ids_okD(1,2) [OF i(1) live] by auto
  then have db: "db = (sy_db s)\<lparr>db_tm := db_tm db\<rparr>" "nextTransactionId (db_tm db) = nextTransactionId (db_tm (sy_db s))"
    using put by (auto simp: txn_Put_eq split: if_splits)
  note ok = locks_ok_put [OF i(1,2) live put]
  moreover have "versions_ok (nextTransactionId (db_tm (sy_db s))) ((sy_txns s)(i \<mapsto> txn')) (versions bt s)"
    using live by (intro versions_ok_mono [OF i(3)]) auto
  ultimately show ?thesis
    using db(2) by (subst db(1)) (intro sys_inv_tm [OF inv], simp_all)
qed

lemma sys_inv_rollback:
  assumes inv: "sys_inv bt s" and live: "sy_txns s i = Some txn"
  shows "sys_inv bt (s\<lparr>sy_db := (sy_db s)\<lparr>db_tm := tm_end txn (db_tm (sy_db s))\<rparr>, sy_txns := (sy_txns s)(i := None)\<rparr>)"
proof -
  note i = sys_invD [OF inv]
  have "versions_ok (nextTransactionId (db_tm (sy_db s))) ((sy_txns s)(i := None)) (versions bt s)"
    by (intro versions_ok_mono [OF i(3)]) auto
  with ids_ok_end [OF i(1) live] locks_ok_end [OF i(1,2) live] show ?thesis
    by (intro sys_inv_tm [OF inv]) simp_all
qed

lemma sys_inv_flush:
  assumes ok: "btree_ok bt" and inv: "sys_inv bt s"
    and fl: "flushable (sy_hist s) (mt_entries bt (db_memTable (sy_db s)))"
  shows "sys_inv bt (s\<lparr>sy_db := flushed bt (sy_db s), sy_hist := sy_hist s @ mt_entries bt (db_memTable (sy_db s))\<rparr>)"
    (is "sys_inv bt ?s'")
proof -
  note i = sys_invD [OF inv]
  obtain tfs where "table_rel (ts_of s) tfs" using i(5) by blast
  from table_rel_flushed [OF this fl, where db' = "flushed bt (sy_db s)" and w = "db_wal (sy_db s)"
      and tm = "db_tm (sy_db s)" and txns = "sy_txns s"]
  have "\<exists>tfs. table_rel (ts_of ?s') tfs" by (simp add: ts_of_def)
  moreover have "\<exists>log. wal_rel bt (flushed bt (sy_db s)) log \<and> log_max 0 log < nextTransactionId (db_tm (sy_db s))"
    using wal_rel_flushed [OF ok, of "sy_db s"] i(1) by (auto simp: ids_ok_def intro!: exI [of _ "[]"])
  moreover have "versions bt ?s' = versions bt s"
    by (simp add: versions_def mt_entries_Clear [OF ok])
  ultimately show ?thesis
    using i(1-3) by (simp add: sys_inv_def)
qed

lemma sys_inv_table:
  assumes inv: "sys_inv bt s" and rng: "range_order rngC" and st: "table_step rngC (ts_of s) t"
    and hist: "ts_hist t = sy_hist s"
  shows "sys_inv bt (with_table s t)"
proof -
  note i = sys_invD [OF inv]
  obtain tfs where "table_rel (ts_of s) tfs" using i(5) by blast
  with st rng have "\<exists>tfs'. table_rel t tfs'" by (rule table_rel_step)
  moreover have "ts_of (with_table s t) = t"
    by (cases t) (simp add: ts_of_def with_table_def)
  ultimately show ?thesis
    using i(1-4) hist by (simp add: sys_inv_def with_table_def versions_def wal_rel_def)
qed

lemma versions_ok_commit:
  assumes ok: "btree_ok bt" and rng: "range_order rngM" and inv: "sys_inv bt s"
    and live: "sy_txns s i = Some txn"
  defines "es \<equiv> sy_hist s @ mt_entries bt (committed_memtable bt rngM txn (sy_db s))"
  shows "versions_ok (nextTransactionId (db_tm (sy_db s))) ((sy_txns s)(i := None)) es"
    "set es = set (versions bt s) \<union> writes_of txn"
proof -
  note d = sys_invD [OF inv]
  note t = ids_okD [OF d(1) live]
  have old: "0 < TxnId e \<and> TxnId e < nextTransactionId (db_tm (sy_db s)) \<and> TxnId e \<noteq> i"
    if "e \<in> set (versions bt s)" for e
    using d(3) that live by (auto simp: versions_ok_def)
  then have "\<forall>e \<in> set (mt_entries bt (db_memTable (sy_db s))). TxnId e \<noteq> txn_id txn"
    by (simp add: versions_def t(1))
  note new = committed_entries [OF ok rng live_finite [OF inv live] this]
  show set: "set es = set (versions bt s) \<union> writes_of txn"
    by (auto simp: es_def new versions_def)
  have "version_of e \<noteq> version_of f"
    if "e \<in> set (sy_hist s)" "f \<in> set (mt_entries bt (committed_memtable bt rngM txn (sy_db s)))" for e f
  proof (cases "f \<in> set (mt_entries bt (db_memTable (sy_db s)))")
    case True
    then show ?thesis
      using d(3) that(1) by (auto simp: versions_ok_def versions_def unique_versions_append)
  next
    case False
    then have "TxnId f = i"
      using that(2) t(1) by (auto simp: new writes_of_def)
    with old [of e] that(1) show ?thesis by (auto simp: versions_def version_of_def)
  qed
  moreover have "unique_versions (mt_entries bt (committed_memtable bt rngM txn (sy_db s)))"
    by (rule ordered_unique [OF mt_entries_ordered [OF ok]])
  moreover have "unique_versions (sy_hist s)"
    using d(3) by (simp add: versions_ok_def versions_def unique_versions_append)
  ultimately have "unique_versions es"
    unfolding es_def unique_versions_append by fastforce
  moreover have "0 < TxnId e \<and> TxnId e < nextTransactionId (db_tm (sy_db s)) \<and> ((sy_txns s)(i := None)) (TxnId e) = None"
    if "e \<in> set es" for e
    using that d(3) t(1,2,4) unfolding set by (auto simp: versions_ok_def writes_of_def)
  ultimately show "versions_ok (nextTransactionId (db_tm (sy_db s))) ((sy_txns s)(i := None)) es"
    by (simp add: versions_ok_def)
qed

lemma WriteEntry_content:
  "f_content (wal_file (snd (WriteEntry io w p))) =
    f_content (wal_file w) @ (case io of IoOk \<Rightarrow> walRecord p | IoFail n \<Rightarrow> take n (walRecord p))"
  by (simp add: WriteEntry_def Let_def split: io_outcome.splits)

lemma wal_rel_commit:
  assumes ok: "btree_ok bt" and rng: "range_order rngW" "range_order rngM" and rel: "wal_rel bt db log"
    and fin: "finite (dom (bufferedWriteMap txn))" and fits: "payload_fits rngW txn"
  defines "c \<equiv> (txn_id txn, rngW (bufferedWriteMap txn))"
  shows "wal_rel bt (db\<lparr>db_wal := snd (WriteEntry IoOk (db_wal db) (commit_payload c)),
    db_memTable := committed_memtable bt rngM txn db\<rparr>) (log @ [c])"
proof -
  have en: "enumerates (rngW (bufferedWriteMap txn)) (bufferedWriteMap txn)"
    "enumerates (rngM (bufferedWriteMap txn)) (bufferedWriteMap txn)"
    using rng fin by (simp_all add: range_order_def)
  have "mt_map bt (committed_memtable bt rngM txn db) = mt_map bt (Memtable_Puts bt (db_memTable db) (commit_puts c))"
    unfolding committed_memtable_def c_def by (rule commit_puts_order [OF ok en(2,1)])
  also have "\<dots> = mt_map bt (Memtable_Puts bt (Memtable_Puts bt (NewMemtable bt) (log_puts log)) (commit_puts c))"
    using rel by (intro Memtable_Puts_map_cong [OF ok]) (simp add: wal_rel_def)
  finally show ?thesis
    using rel fits
    by (simp add: wal_rel_def WriteEntry_content payload_fits_def c_def Memtable_Puts_append)
qed

lemma sys_inv_commit:
  fixes bt :: "'t btree" and s :: "'t sys" and txn :: Transaction
    and rngM :: "(string \<rightharpoonup> string) \<Rightarrow> (string \<times> string) list"
  defines "m \<equiv> committed_memtable bt rngM txn (sy_db s)"
  assumes ok: "btree_ok bt" and rng: "range_order rngW" "range_order rngM" and inv: "sys_inv bt s"
    and live: "sy_txns s i = Some txn" and fits: "payload_fits rngW txn"
    and fl: "ShouldFlush m \<longrightarrow> flushable (sy_hist s) (mt_entries bt m)"
    and db: "db = (committed bt rngW rngM txn (sy_db s))\<lparr>db_tm := tm_end txn (db_tm (sy_db s))\<rparr>"
    and s': "s' = s\<lparr>sy_db := db, sy_txns := (sy_txns s)(i := None),
      sy_hist := (if ShouldFlush m then sy_hist s @ mt_entries bt m else sy_hist s)\<rparr>"
  shows "sys_inv bt s'" "set (versions bt s') = set (versions bt s) \<union> writes_of txn"
proof -
  note d = sys_invD [OF inv]
  define c where "c = (txn_id txn, rngW (bufferedWriteMap txn))"
  define w where "w = snd (WriteEntry IoOk (db_wal (sy_db s)) (commit_payload c))"
  define db1 where "db1 = (sy_db s)\<lparr>db_wal := w, db_memTable := m\<rparr>"
  have com: "committed bt rngW rngM txn (sy_db s) = (if ShouldFlush m then flushed bt db1 else db1)"
    by (simp add: committed_def m_def db1_def w_def c_def Let_def)
  have "versions bt s' = sy_hist s @ mt_entries bt m"
    by (simp add: versions_def s' db com db1_def mt_entries_Clear [OF ok])
  note vers = versions_ok_commit [OF ok rng(2) inv live, folded m_def, folded this]
  show "set (versions bt s') = set (versions bt s) \<union> writes_of txn"
    by (rule vers(2))
  have "\<exists>log. wal_rel bt db log \<and> log_max 0 log < nextTransactionId (db_tm db)"
  proof -
    obtain log where log: "wal_rel bt (sy_db s) log" "log_max 0 log < nextTransactionId (db_tm (sy_db s))"
      using d(4) by blast
    from wal_rel_commit [OF ok rng log(1) live_finite [OF inv live] fits]
    have "wal_rel bt db1 (log @ [c])"
      by (simp add: db1_def w_def c_def m_def)
    moreover have "log_max 0 (log @ [c]) < nextTransactionId (db_tm (sy_db s))"
      using log(2) ids_okD(1,4) [OF d(1) live] by (simp add: log_max_def c_def)
    moreover have "log_max 0 [] < nextTransactionId (db_tm (sy_db s))"
      using d(1) by (simp add: ids_ok_def)
    ultimately have "\<exists>log. wal_rel bt (committed bt rngW rngM txn (sy_db s)) log \<and>
        log_max 0 log < nextTransactionId (db_tm (sy_db s))"
      unfolding com using wal_rel_flushed [OF ok, of db1] by (cases "ShouldFlush m") auto
    then show ?thesis
      by (simp add: db wal_rel_def)
  qed
  moreover have "\<exists>tfs. table_rel (ts_of s') tfs"
  proof (cases "ShouldFlush m")
    case True
    obtain tfs where "table_rel (ts_of s) tfs" using d(5) by blast
    from table_rel_flushed [OF this fl [rule_format, OF True], where db' = "flushed bt db1" and w = w
        and tm = "tm_end txn (db_tm (sy_db s))" and txns = "(sy_txns s)(i := None)"] True
    show ?thesis by (simp add: s' db com db1_def)
  next
    case False
    then have "ts_of s' = ts_of s"
      by (simp add: s' db com db1_def ts_of_def)
    with d(5) show ?thesis by simp
  qed
  ultimately show "sys_inv bt s'"
    using vers(1) ids_ok_end [OF d(1) live] locks_ok_end [OF d(1,2) live]
    by (simp add: sys_inv_def s' db)
qed

lemma sys_inv_commit_fail:
  assumes inv: "sys_inv bt s"
  shows "sys_inv bt (s\<lparr>sy_db := (sy_db s)\<lparr>db_wal := snd (WriteEntry (IoFail 0) (db_wal (sy_db s)) p)\<rparr>\<rparr>)" (is "sys_inv bt ?s'")
proof -
  have "wal_rel bt (sy_db ?s') = wal_rel bt (sy_db s)"
    by (simp add: wal_rel_def WriteEntry_content fun_eq_iff)
  moreover have "versions bt ?s' = versions bt s" "ts_of ?s' = ts_of s"
    by (simp_all add: versions_def ts_of_def)
  ultimately show ?thesis
    using inv by (simp add: sys_inv_def)
qed

lemma sys_inv_step:
  assumes "btree_ok bt" "range_order rngW" "range_order rngM" "range_order rngC"
    and inv: "sys_inv bt s" and step: "sys_step bt rngA rngW rngM rngC s s'"
  shows "sys_inv bt s'"
  using step inv
proof (cases rule: sys_step_effects)
  case begin_txn
  from sys_inv_begin [OF inv begin_txn disjI2 [OF refl]] show ?thesis .
next
  case (put i txn k v r txn' db)
  from sys_inv_put [OF inv put(1,2)] show ?thesis unfolding put(6) .
next
  case get
  then show ?thesis by (intro sys_inv_begin [OF inv, where txns = "sy_txns s"]) simp_all
next
  case (rollback i txn)
  from sys_inv_rollback [OF inv rollback(1)] show ?thesis unfolding rollback(2) .
next
  case (commit i txn m)
  from sys_inv_commit(1) [OF assms(1-3) inv commit(1,2) commit(4) [unfolded commit(3)] refl refl]
  show ?thesis unfolding commit(3,5) .
next
  case (commit_fail i txn)
  show ?thesis unfolding commit_fail(2) by (rule sys_inv_commit_fail [OF inv])
next
  case flush
  from sys_inv_flush [OF assms(1) inv flush(1)] show ?thesis unfolding flush(2) .
next
  case (table t)
  from sys_inv_table [OF inv assms(4) table(1,2)] show ?thesis unfolding table(3) .
qed

lemma sys_reachable_inv:
  assumes "btree_ok bt" "range_order rngW" "range_order rngM" "range_order rngC"
    and "sys_reachable bt rngA rngW rngM rngC s"
  shows "sys_inv bt s"
  using assms(5)
proof (induction rule: sys_reachable.induct)
  case (init dir bl)
  then show ?case by (rule sys_init_inv [OF assms(1)])
next
  case (step s s')
  from sys_inv_step [OF assms(1-4) step.IH step.hyps(2)] show ?case .
qed

end
