(* ===== verification/DbProps.thy ===== *)
theory DbProps
  imports DbSteps
begin

text \<open>
  What the store promises in every reachable state: recovery, exclusive writes, atomic commits, clean
  rollbacks and stable snapshots; and where these promises end.
\<close>

section \<open>The environment\<close>

text \<open>
  The tree behaves as documented, and Go's \<open>range\<close> visits every entry of a map once, in any order.
\<close>

definition runtime_ok ::
  "'t btree \<Rightarrow> ((string \<rightharpoonup> string) \<Rightarrow> (string \<times> string) list) \<Rightarrow>
   ((string \<rightharpoonup> string) \<Rightarrow> (string \<times> string) list) \<Rightarrow>
   ((string \<rightharpoonup> valueTxnId) \<Rightarrow> (string \<times> valueTxnId) list) \<Rightarrow> bool" where
  "runtime_ok bt rngW rngM rngC \<longleftrightarrow>
     btree_ok bt \<and> range_order rngW \<and> range_order rngM \<and> range_order rngC"

lemma runtime_okD:
  assumes "runtime_ok bt rngW rngM rngC"
  shows "btree_ok bt" "range_order rngW" "range_order rngM" "range_order rngC"
  using assms by (auto simp: runtime_ok_def)

lemma reachable_inv:
  "\<lbrakk>runtime_ok bt rngW rngM rngC; sys_reachable bt rngA rngW rngM rngC s\<rbrakk> \<Longrightarrow> sys_inv bt s"
  using sys_reachable_inv runtime_okD by metis

lemma reachable_steps:
  assumes "sys_reachable bt rngA rngW rngM rngC s" "(sys_step bt rngA rngW rngM rngC)\<^sup>*\<^sup>* s s'"
  shows "sys_reachable bt rngA rngW rngM rngC s'"
  using assms(2,1) by induction (auto intro: sys_reachable.step)

text \<open>The steps as functions, and a run for the witnesses: two transactions, one buffered write.\<close>

definition sys_begin :: "'t sys \<Rightarrow> 't sys" where
  "sys_begin s = (let (txn, db) = db_Begin (sy_db s)
     in s\<lparr>sy_db := db, sy_txns := (sy_txns s)(txn_id txn \<mapsto> txn)\<rparr>)"

definition sys_put :: "u64 \<Rightarrow> string \<Rightarrow> string \<Rightarrow> 't sys \<Rightarrow> 't sys" where
  "sys_put i k v s = (case txn_Put (the (sy_txns s i)) (sy_db s) k v of
     (r, txn, db) \<Rightarrow> s\<lparr>sy_db := db, sy_txns := (sy_txns s)(i \<mapsto> txn)\<rparr>)"

lemma sys_begin_reachable:
  assumes "sys_reachable bt rngA rngW rngM rngC s" "nextTransactionId (db_tm (sy_db s)) + 1 \<noteq> 0"
  shows "sys_reachable bt rngA rngW rngM rngC (sys_begin s)"
proof -
  obtain txn db where b: "db_Begin (sy_db s) = (txn, db)" by fastforce
  show ?thesis
    using sys_reachable.step [OF assms(1) sys_step.begin_txn [OF assms(2) b]] by (simp add: sys_begin_def b)
qed

lemma sys_put_reachable:
  assumes "sys_reachable bt rngA rngW rngM rngC s" "sy_txns s i = Some txn"
  shows "sys_reachable bt rngA rngW rngM rngC (sys_put i k v s)"
proof -
  obtain r txn' db where p: "txn_Put txn (sy_db s) k v = (r, txn', db)" by (metis prod_cases3)
  show ?thesis
    using sys_reachable.step [OF assms(1) sys_step.put [OF assms(2) p]] by (simp add: sys_put_def assms(2) p)
qed

lemma sample_runtime: "runtime_ok list_btree sorted_range sorted_range sorted_range"
  by (simp add: runtime_ok_def list_btree_ok sorted_range_order)

definition sample_sys0 :: "entry_tree sys" where
  "sample_sys0 = sys_init list_btree ''d'' 100"

definition sample_sys :: "entry_tree sys" where
  "sample_sys = sys_put 1 ''k'' ''v'' (sys_begin (sys_begin sample_sys0))"

definition sample_txn :: Transaction where
  "sample_txn = \<lparr>txn_id = 1, bufferedWriteMap = [''k'' \<mapsto> ''v''], lockAcquiredKeys = [''k''],
     activeTransactionsSnapshot = {1}\<rparr>"

definition sample_other :: Transaction where
  "sample_other = \<lparr>txn_id = 2, bufferedWriteMap = Map.empty, lockAcquiredKeys = [],
     activeTransactionsSnapshot = {1, 2}\<rparr>"

lemmas sample_defs = sample_sys_def sample_sys0_def sys_init_def sys_begin_def sys_put_def db_Begin_eq new_txn_def
  tm_begin_def txn_Put_eq holder_def tm_lock_def

lemma sample_sys_reachable: "sys_reachable list_btree rngA sorted_range sorted_range sorted_range sample_sys"
proof -
  let ?reach = "sys_reachable list_btree rngA sorted_range sorted_range sorted_range"
  have 0: "?reach sample_sys0"
    unfolding sample_sys0_def by (rule sys_reachable.init)
  have 1: "?reach (sys_begin sample_sys0)"
    by (rule sys_begin_reachable [OF 0]) (simp add: sample_defs)
  have 2: "?reach (sys_begin (sys_begin sample_sys0))"
    by (rule sys_begin_reachable [OF 1]) (simp add: sample_defs)
  have "\<exists>txn. sy_txns (sys_begin (sys_begin sample_sys0)) 1 = Some txn"
    by (simp add: sample_defs)
  with 2 show ?thesis
    unfolding sample_sys_def by (blast intro: sys_put_reachable)
qed

lemma sample_txns: "sy_txns sample_sys 1 = Some sample_txn" "sy_txns sample_sys 2 = Some sample_other"
  by (auto simp: sample_defs sample_txn_def sample_other_def)

lemma sample_tm:
  "holder (db_tm (sy_db sample_sys)) ''k'' = 1" "activeTransactionsMap (db_tm (sy_db sample_sys)) = {1, 2}"
  by (auto simp: sample_defs)

section \<open>Recovery\<close>

lemma log_puts_ids: "(k, v, i) \<in> set (log_puts log) \<Longrightarrow> i \<le> log_max 0 log"
  using log_max_ge(2) by (fastforce simp: log_puts_def commit_puts_def)

lemma recover_memtable:
  assumes "runtime_ok bt rngW rngM rngC" "sys_reachable bt rngA rngW rngM rngC s"
  shows "\<exists>m x. fst (buildMemtableFromWal bt (openWal (f_content (wal_file (db_wal (sy_db s)))))) = Ok (m, x) \<and>
    mt_entries bt m = mt_entries bt (db_memTable (sy_db s)) \<and> (\<forall>e \<in> set (mt_entries bt m). TxnId e \<le> x) \<and>
    x < nextTransactionId (db_tm (sy_db s)) \<and> mt_size m = total_size (mt_entries bt m)"
proof -
  note ok = runtime_okD(1) [OF assms(1)]
  obtain log where log: "wal_rel bt (sy_db s) log" "log_max 0 log < nextTransactionId (db_tm (sy_db s))"
    using sys_invD(4) [OF reachable_inv [OF assms]] by blast
  let ?m = "Memtable_Puts bt (NewMemtable bt) (log_puts log)"
  have "fst (buildMemtableFromWal bt (openWal (f_content (wal_file (db_wal (sy_db s)))))) = Ok (?m, log_max 0 log)"
    using log buildMemtableFromWal_log [of log bt] by (simp add: wal_rel_def)
  moreover have "mt_entries bt ?m = mt_entries bt (db_memTable (sy_db s))"
    using log by (intro mt_entries_eqI [OF ok]) (simp add: wal_rel_def)
  moreover have "TxnId e \<le> log_max 0 log" if "e \<in> set (mt_entries bt ?m)" for e
  proof -
    have "mt_map bt ?m (Key e, TxnId e) = Some (Value e)"
      using that by (simp add: mt_map_Some_iff [OF ok])
    then have "((Key e, TxnId e), Value e) \<in> (\<lambda>(k, v, i). ((k, i), v)) ` set (log_puts log)"
      by (auto simp: Memtable_Puts_map [OF ok] foldl_updates mt_map_New [OF ok] dest!: map_of_SomeD)
    then show ?thesis
      by (auto intro: log_puts_ids)
  qed
  moreover have "mt_size ?m = total_size (mt_entries bt ?m)"
    by (rule Memtable_Puts_size [OF ok mt_size_New [OF ok]])
  ultimately show ?thesis using log(2) by blast
qed

text \<open>The size that decides about flushing is the size of the entries, in every reachable state.\<close>

lemma mt_size_reachable:
  fixes s :: "'t sys"
  assumes "runtime_ok bt rngW rngM rngC" "sys_reachable bt rngA rngW rngM rngC s"
  shows "mt_size (db_memTable (sy_db s)) = total_size (mt_entries bt (db_memTable (sy_db s)))"
  using assms(2)
proof (induction rule: sys_reachable.induct)
  case (init dir bl)
  show ?case by (simp add: sys_init_def mt_size_New [OF runtime_okD(1) [OF assms(1)]])
next
  case (step s s')
  note ok = runtime_okD(1) [OF assms(1)]
  let ?sized = "\<lambda>m. mt_size m = total_size (mt_entries bt m)"
  have clear: "?sized (Memtable_Clear bt m)" for m
    by (simp add: mt_entries_Clear [OF ok] total_size_def) (simp add: Memtable_Clear_def)
  from step(2) reachable_inv [OF assms(1) step(1)] show ?case
  proof (cases rule: sys_step_effects)
    case (put i txn k v r txn' db)
    have "db_memTable db = db_memTable (sy_db s)" by (subst put(3)) simp
    with put(6) step(3) show ?thesis by simp
  next
    case (commit i txn m)
    have "?sized (committed_memtable bt rngM txn (sy_db s))"
      unfolding committed_memtable_def by (rule Memtable_Puts_size [OF ok step(3)])
    then show ?thesis
      unfolding commit(5) by (simp add: committed_def flushed_def Let_def clear)
  next
    case flush
    then show ?thesis by (simp add: flushed_def Let_def clear)
  qed (use step(3) in \<open>simp_all add: with_table_def\<close>)
qed



section \<open>Write locks\<close>

lemma locks_granted:
  "\<lbrakk>runtime_ok bt rngW rngM rngC; sys_reachable bt rngA rngW rngM rngC s\<rbrakk> \<Longrightarrow>
   granted (holder (db_tm (sy_db s))) (owned (sy_txns s))"
  using locks_ok_granted sys_invD(1,2) reachable_inv by metis

text \<open>
  C8. Two live transactions never have uncommitted writes to the same key.
\<close>

theorem writes_exclusive:
  assumes "runtime_ok bt rngW rngM rngC" "sys_reachable bt rngA rngW rngM rngC s"
    and "sy_txns s i = Some txn" "sy_txns s j = Some txn'" "i \<noteq> j"
  shows "dom (bufferedWriteMap txn) \<inter> dom (bufferedWriteMap txn') = {}"
  by (rule granted_exclusive [OF locks_granted [OF assms(1,2)]]) (use assms(3-5) in \<open>simp_all add: owned_def\<close>)

theorem writes_exclusive_witness:
  "dom (bufferedWriteMap sample_txn) \<inter> dom (bufferedWriteMap sample_other) = {}"
  by (rule writes_exclusive [OF sample_runtime sample_sys_reachable sample_txns]) simp

text \<open>
  A write is refused exactly when another live transaction has an uncommitted write to the key; the
  error names this transaction, and a refused write changes nothing.
\<close>

theorem put_refused_iff:
  assumes "runtime_ok bt rngW rngM rngC" "sys_reachable bt rngA rngW rngM rngC s"
    and "sy_txns s i = Some txn"
  shows "case txn_Put txn (sy_db s) k v of
      (Ok _, txn', db') \<Rightarrow> bufferedWriteMap txn' = (bufferedWriteMap txn)(k \<mapsto> v) \<and>
        (\<forall>j other. sy_txns s j = Some other \<and> j \<noteq> i \<longrightarrow> k \<notin> dom (bufferedWriteMap other))
    | (Err er, txn', db') \<Rightarrow> txn' = txn \<and> db' = sy_db s \<and>
        (\<exists>j other. er = WriteLockHeldBy j \<and> j \<noteq> i \<and> sy_txns s j = Some other \<and> k \<in> dom (bufferedWriteMap other))
    | (Panic, _) \<Rightarrow> False"
proof -
  note granted = locks_granted [OF assms(1,2)]
  note id = ids_okD(1,2) [OF sys_invD(1) [OF reachable_inv [OF assms(1,2)]] assms(3)]
  have own: "owned (sy_txns s) i = Some (dom (bufferedWriteMap txn))" by (simp add: owned_def assms(3))
  have others: "acquireLock i k (sy_db s) = None \<longleftrightarrow>
      (\<exists>j other. j \<noteq> i \<and> sy_txns s j = Some other \<and> k \<in> dom (bufferedWriteMap other))"
    unfolding locks.refused_iff [OF granted own] owned_Some by blast
  obtain r txn' db' where put: "txn_Put txn (sy_db s) k v = (r, txn', db')" by (metis prod_cases3)
  have "txn_id txn \<noteq> 0" using id by auto
  with put show ?thesis
  proof (cases rule: txn_Put_cases)
    case ok
    with others id(1) put show ?thesis by auto
  next
    case refused
    then obtain j other where "j \<noteq> i" "sy_txns s j = Some other" "k \<in> dom (bufferedWriteMap other)"
      using others id(1) by auto
    moreover from this(2,3) have "holder (db_tm (sy_db s)) k = j"
      by (intro grantedD(2) [OF granted, where K = "dom (bufferedWriteMap other)"]) (simp_all add: owned_def)
    ultimately show ?thesis using refused put by auto
  qed
qed

theorem put_refused_iff_witness:
  "fst (txn_Put sample_other (sy_db sample_sys) ''k'' ''w'') = Err (WriteLockHeldBy 1)"
proof -
  note p = put_refused_iff [OF sample_runtime sample_sys_reachable sample_txns(2), of "''k''" "''w''"]
  obtain r txn' db' where r: "txn_Put sample_other (sy_db sample_sys) ''k'' ''w'' = (r, txn', db')"
    by (metis prod_cases3)
  have buffered: "''k'' \<in> dom (bufferedWriteMap sample_txn)"
    by (simp add: sample_txn_def)
  have only: "j = 1" if "sy_txns sample_sys j = Some other" "j \<noteq> 2" for j other
    using that by (auto simp: sample_defs split: if_splits)
  show ?thesis
  proof (cases r)
    case (Ok u)
    with p r buffered sample_txns(1) show ?thesis by fastforce
  next
    case (Err er)
    with p r only show ?thesis by auto
  next
    case Panic
    with p r show ?thesis by simp
  qed
qed

text \<open>
  C20. A rollback always succeeds and leaves no trace: memtable, log and tables are as before, exactly the
  locks of the transaction are released, and it is no longer active.
\<close>

theorem rollback_no_trace:
  assumes "runtime_ok bt rngW rngM rngC" "sys_reachable bt rngA rngW rngM rngC s"
    and "sy_txns s i = Some txn"
  shows "\<exists>txn' db'. txn_Rollback txn (sy_db s) = Ok (txn', db') \<and> bufferedWriteMap txn' = Map.empty \<and>
    db_memTable db' = db_memTable (sy_db s) \<and> db_wal db' = db_wal (sy_db s) \<and>
    db_ssTable db' = db_ssTable (sy_db s) \<and> db_disk db' = db_disk (sy_db s) \<and>
    activeTransactionsMap (db_tm db') = activeTransactionsMap (db_tm (sy_db s)) - {i} \<and>
    (\<forall>k. holder (db_tm db') k = (if k \<in> dom (bufferedWriteMap txn) then 0 else holder (db_tm (sy_db s)) k))"
proof -
  note d = sys_invD(1,2) [OF reachable_inv [OF assms(1,2)]]
  have "txn_Rollback txn (sy_db s) = Ok (ended txn, (sy_db s)\<lparr>db_tm := tm_end txn (db_tm (sy_db s))\<rparr>)"
    using endTransaction_eq [OF live_owns_locks [OF d assms(3)]] by (simp add: txn_Rollback_def)
  then show ?thesis
    using ids_okD(1) [OF d(1) assms(3)] locks_okD(2) [OF d(2) assms(3)] by (simp add: ended_def)
qed

theorem rollback_no_trace_witness:
  "\<exists>txn' db'. txn_Rollback sample_txn (sy_db sample_sys) = Ok (txn', db') \<and>
    holder (db_tm db') ''k'' = 0 \<and> activeTransactionsMap (db_tm db') = {2}"
proof -
  obtain txn' db' where "txn_Rollback sample_txn (sy_db sample_sys) = Ok (txn', db')"
    "activeTransactionsMap (db_tm db') = activeTransactionsMap (db_tm (sy_db sample_sys)) - {1}"
    "\<forall>k. holder (db_tm db') k =
      (if k \<in> dom (bufferedWriteMap sample_txn) then 0 else holder (db_tm (sy_db sample_sys)) k)"
    using rollback_no_trace [OF sample_runtime sample_sys_reachable sample_txns(1)] by blast
  then show ?thesis
    by (auto simp: sample_tm sample_txn_def)
qed

end
