(* ===== verification/DbIsolation.thy ===== *)
theory DbIsolation
  imports DbProps
begin

text \<open>
  Atomicity and isolation over arbitrary runs of the store: what a commit adds, what a transaction can
  read, and that its snapshot does not change while it lives.
\<close>

text \<open>One order in which the active transactions may be visited.\<close>

definition rngA0 :: "u64 set \<Rightarrow> u64 list" where
  "rngA0 A = sorted_list_of_set A"

section \<open>Commits\<close>

text \<open>The states of a system after a commit, and the condition under which its flush is in bounds.\<close>

definition after_commit ::
  "'t btree \<Rightarrow> ((string \<rightharpoonup> string) \<Rightarrow> (string \<times> string) list) \<Rightarrow> 't sys \<Rightarrow> Transaction \<Rightarrow> 't DB \<Rightarrow> 't sys" where
  "after_commit bt rngM s txn db =
     (let m = committed_memtable bt rngM txn (sy_db s)
      in s\<lparr>sy_db := db, sy_txns := (sy_txns s)(txn_id txn := None),
           sy_hist := (if ShouldFlush m then sy_hist s @ mt_entries bt m else sy_hist s)\<rparr>)"

definition commit_fits ::
  "'t btree \<Rightarrow> ((string \<rightharpoonup> string) \<Rightarrow> (string \<times> string) list) \<Rightarrow>
   ((string \<rightharpoonup> string) \<Rightarrow> (string \<times> string) list) \<Rightarrow> 't sys \<Rightarrow> Transaction \<Rightarrow> bool" where
  "commit_fits bt rngW rngM s txn \<longleftrightarrow> payload_fits rngW txn \<and>
     (let m = committed_memtable bt rngM txn (sy_db s)
      in ShouldFlush m \<longrightarrow> flushable (sy_hist s) (mt_entries bt m))"

text \<open>What a commit whose record is written does, as one step of the system.\<close>

lemma commit_result:
  assumes "runtime_ok bt rngW rngM rngC" "sys_reachable bt rngA rngW rngM rngC s"
    and "sy_txns s i = Some txn" "commit_fits bt rngW rngM s txn"
  defines "db' \<equiv> (committed bt rngW rngM txn (sy_db s))\<lparr>db_tm := tm_end txn (db_tm (sy_db s))\<rparr>"
  shows "\<exists>bnd. txn_Commit bt rngA rngW rngM IoOk txn (sy_db s) = (Ok bnd, ended txn, db')"
    "set (versions bt (after_commit bt rngM s txn db')) = set (versions bt s) \<union> writes_of txn"
    "sys_step bt rngA rngW rngM rngC s (after_commit bt rngM s txn db')"
proof -
  note inv = reachable_inv [OF assms(1,2)]
  note d = sys_invD [OF inv]
  note id = ids_okD(1) [OF d(1) assms(3)]
  from txn_Commit_eq [OF live_owns_locks [OF d(1,2) assms(3)]]
  obtain bnd where c: "txn_Commit bt rngA rngW rngM IoOk txn (sy_db s) = (Ok bnd, ended txn, db')"
    unfolding db'_def by blast
  then show "\<exists>bnd. txn_Commit bt rngA rngW rngM IoOk txn (sy_db s) = (Ok bnd, ended txn, db')" by blast
  show "set (versions bt (after_commit bt rngM s txn db')) = set (versions bt s) \<union> writes_of txn"
    using assms(4) sys_inv_commit(2) [OF runtime_okD(1-3) [OF assms(1)] inv assms(3) _ _ db'_def [THEN meta_eq_to_obj_eq] refl]
    by (simp add: commit_fits_def after_commit_def Let_def id)
  show "sys_step bt rngA rngW rngM rngC s (after_commit bt rngM s txn db')"
    using sys_step.commit [OF assms(3) _ refl _ c] assms(4)
    by (simp add: after_commit_def commit_fits_def Let_def id)
qed


lemma sample_commit_fits: "commit_fits list_btree sorted_range sorted_range sample_sys sample_txn"
proof -
  have r: "sorted_range [''k'' \<mapsto> ''v''] = [(''k'', ''v'')]"
    by (simp add: sorted_range_def)
  have "\<not> ShouldFlush (committed_memtable list_btree sorted_range sample_txn (sy_db sample_sys))"
    by (simp add: ShouldFlush_def committed_memtable_def sample_defs commit_puts_def sample_txn_def r
        Memtable_Put_def NewMemtable_def memtableSizeLimit_def)
  then show ?thesis
    by (simp add: commit_fits_def payload_fits_def sample_txn_def r commit_payload_def
        serialiseTransactionCommitPayload_eq enc_kv_def CmdTransaction_def)
qed


text \<open>
  A commit whose log write fails reports the error and changes nothing but the log file: no write
  becomes visible, and the transaction stays active with its locks until it is rolled back.
\<close>

theorem commit_failure_keeps_state:
  "\<exists>w. txn_Commit bt rngA rngW rngM (IoFail n) txn db = (Err WriteFailed, txn, db\<lparr>db_wal := w\<rparr>) \<and>
    (\<exists>p. f_content (wal_file w) = f_content (wal_file (db_wal db)) @ take n (walRecord p))"
proof -
  let ?p = "commit_payload (txn_id txn, rngW (bufferedWriteMap txn))"
  let ?w = "snd (WriteEntry (IoFail n) (db_wal db) ?p)"
  have "f_content (wal_file ?w) = f_content (wal_file (db_wal db)) @ take n (walRecord ?p)"
    by (simp add: WriteEntry_content)
  then show ?thesis
    unfolding txn_Commit_fail by blast
qed

section \<open>What a transaction can read\<close>

text \<open>
  C7. No dirty reads: a lookup of a live transaction never fails; it returns the value that the
  transaction itself wrote, if there is one, and otherwise a value that a committed version of the
  key holds which its snapshot admits, or the empty string.
\<close>

theorem no_dirty_reads:
  assumes "runtime_ok bt rngW rngM rngC" "sys_reachable bt rngA rngW rngM rngC s"
    and "sy_txns s i = Some txn"
  shows "\<exists>v. txn_Get bt txn (sy_db s) k = Ok v \<and>
    (case bufferedWriteMap txn k of
       Some w \<Rightarrow> v = w
     | None \<Rightarrow> v = '''' \<or> (\<exists>e \<in> set (versions bt s). Key e = k \<and> Value e = v \<and>
         visible i (activeTransactionsSnapshot txn) (TxnId e)))"
proof (cases "bufferedWriteMap txn k")
  case (Some w)
  then show ?thesis by (simp add: txn_Get_def)
next
  case None
  note ok = runtime_okD(1) [OF assms(1)]
  note d = sys_invD [OF reachable_inv [OF assms(1,2)]]
  note id = ids_okD(1) [OF d(1) assms(3)]
  let ?a = "activeTransactionsSnapshot txn" and ?m = "mt_entries bt (db_memTable (sy_db s))"
  show ?thesis
  proof (cases "latest_version k i ?a ?m")
    case (Some e)
    then have "txn_Get bt txn (sy_db s) k = Ok (Value e)"
      by (simp add: txn_Get_def None getWithSnapshot_def Memtable_Get_eq [OF ok] id)
    with latest_version_SomeD(1-3) [OF Some] None show ?thesis
      by (auto simp: versions_def)
  next
    case not_mem: None
    obtain tfs where rel: "table_rel (ts_of s) tfs" using d(5) by blast
    obtain v where v: "SsTable_Get (db_ssTable (sy_db s)) (db_disk (sy_db s)) k i ?a = Ok v"
      "v \<noteq> '''' \<longrightarrow> (\<exists>e \<in> set (sy_hist s). Key e = k \<and> Value e = v \<and> visible i ?a (TxnId e))"
      using table_rel_Get [OF rel, of k i ?a] by (auto simp: ts_of_def)
    then have "txn_Get bt txn (sy_db s) k = Ok v"
      by (simp add: txn_Get_def None getWithSnapshot_def Memtable_Get_eq [OF ok] id not_mem)
    with v(2) None show ?thesis
      by (auto simp: versions_def)
  qed
qed

theorem no_dirty_reads_witness:
  "\<exists>v. txn_Get list_btree sample_txn (sy_db sample_sys) ''k'' = Ok v \<and> v = ''v''"
  using no_dirty_reads [OF sample_runtime sample_sys_reachable sample_txns(1), of "''k''"]
  by (simp add: sample_txn_def)

section \<open>Snapshots\<close>

text \<open>
  What one step does to the other transactions: ids that have ended stay ended, the snapshot of a live
  transaction is kept, and the versions that are added carry the id of the transaction that ends in
  this step.
\<close>

definition quiet :: "'t btree \<Rightarrow> 't sys \<Rightarrow> 't sys \<Rightarrow> bool" where
  "quiet bt s s' \<longleftrightarrow>
     nextTransactionId (db_tm (sy_db s)) \<le> nextTransactionId (db_tm (sy_db s')) \<and>
     (\<forall>j. j < nextTransactionId (db_tm (sy_db s)) \<and> sy_txns s j = None \<longrightarrow> sy_txns s' j = None) \<and>
     (\<forall>j txn txn'. sy_txns s j = Some txn \<and> sy_txns s' j = Some txn' \<longrightarrow>
        activeTransactionsSnapshot txn' = activeTransactionsSnapshot txn) \<and>
     set (versions bt s) \<subseteq> set (versions bt s') \<and>
     (\<forall>e \<in> set (versions bt s') - set (versions bt s). sy_txns s (TxnId e) \<noteq> None \<and> sy_txns s' (TxnId e) = None)"

lemma quietI:
  assumes "nextTransactionId (db_tm (sy_db s)) \<le> nextTransactionId (db_tm (sy_db s'))"
    and "\<And>j. \<lbrakk>j < nextTransactionId (db_tm (sy_db s)); sy_txns s j = None\<rbrakk> \<Longrightarrow> sy_txns s' j = None"
    and "\<And>j txn txn'. \<lbrakk>sy_txns s j = Some txn; sy_txns s' j = Some txn'\<rbrakk> \<Longrightarrow>
      activeTransactionsSnapshot txn' = activeTransactionsSnapshot txn"
    and "set (versions bt s) \<subseteq> set (versions bt s')"
    and "\<And>e. \<lbrakk>e \<in> set (versions bt s'); e \<notin> set (versions bt s)\<rbrakk> \<Longrightarrow>
      sy_txns s (TxnId e) \<noteq> None \<and> sy_txns s' (TxnId e) = None"
  shows "quiet bt s s'"
  unfolding quiet_def using assms by (metis DiffE)

lemma quiet_refl_versions:
  assumes "versions bt s' = versions bt s"
    and "nextTransactionId (db_tm (sy_db s)) \<le> nextTransactionId (db_tm (sy_db s'))"
    and "\<And>j. \<lbrakk>j < nextTransactionId (db_tm (sy_db s)); sy_txns s j = None\<rbrakk> \<Longrightarrow> sy_txns s' j = None"
    and "\<And>j txn txn'. \<lbrakk>sy_txns s j = Some txn; sy_txns s' j = Some txn'\<rbrakk> \<Longrightarrow>
      activeTransactionsSnapshot txn' = activeTransactionsSnapshot txn"
  shows "quiet bt s s'"
  by (rule quietI) (use assms in auto)

lemma word_succ_ge: "(x :: u64) + 1 \<noteq> 0 \<Longrightarrow> x \<le> x + 1"
  using word_next [of x x] by simp

lemma sys_step_quiet:
  assumes ok: "runtime_ok bt rngW rngM rngC" and inv: "sys_inv bt s" and st: "sys_step bt rngA rngW rngM rngC s s'"
  shows "quiet bt s s'"
  using st inv
proof (cases rule: sys_step_effects)
  case begin_txn
  show ?thesis
    unfolding begin_txn(2)
    by (rule quiet_refl_versions)
      (auto simp: versions_def new_txn_def word_succ_ge begin_txn(1) fresh_id(1) [OF inv] split: if_splits)
next
  case (put i txn k v r txn' db)
  have "db_memTable db = db_memTable (sy_db s)" by (subst put(3)) simp
  then show ?thesis
    unfolding put(6) by (intro quiet_refl_versions) (auto simp: versions_def put(1,4,5) split: if_splits)
next
  case get
  then show ?thesis
    unfolding get(2) by (intro quiet_refl_versions) (auto simp: versions_def word_succ_ge)
next
  case (rollback i txn)
  show ?thesis
    unfolding rollback(2) by (rule quiet_refl_versions) (auto simp: versions_def split: if_splits)
next
  case (commit i txn m)
  have "set (versions bt s') = set (versions bt s) \<union> writes_of txn"
    by (rule sys_inv_commit(2) [OF runtime_okD(1-3) [OF ok] inv commit(1,2) _ refl]) (use commit(3-5) in simp_all)
  moreover have "txn_id txn = i" by (rule ids_okD(1) [OF sys_invD(1) [OF inv] commit(1)])
  moreover have "sy_txns s' = (sy_txns s)(i := None)" "db_tm (sy_db s') = tm_end txn (db_tm (sy_db s))"
    by (simp_all add: commit(5))
  ultimately show ?thesis
    by (intro quietI) (auto simp: writes_of_def commit(1) split: if_splits)
next
  case (commit_fail i txn)
  show ?thesis
    unfolding commit_fail(2) by (rule quiet_refl_versions) (auto simp: versions_def)
next
  case flush
  show ?thesis
    unfolding flush(2)
    by (rule quiet_refl_versions) (auto simp: versions_def mt_entries_Clear [OF runtime_okD(1) [OF ok]])
next
  case (table t)
  show ?thesis
    unfolding table(3) by (rule quiet_refl_versions) (auto simp: versions_def with_table_def table(2))
qed

lemma quiet_reads:
  assumes inv: "sys_inv bt s" "sys_inv bt s'" and q: "quiet bt s s'"
    and live: "sy_txns s i = Some txn" "sy_txns s' i = Some txn'"
  shows "activeTransactionsSnapshot txn' = activeTransactionsSnapshot txn"
    "latest_version k i (activeTransactionsSnapshot txn) (versions bt s') =
     latest_version k i (activeTransactionsSnapshot txn) (versions bt s)"
proof -
  let ?a = "activeTransactionsSnapshot txn"
  note ids = ids_okD [OF sys_invD(1) [OF inv(1)] live(1)]
  show "activeTransactionsSnapshot txn' = ?a"
    using q live unfolding quiet_def by blast
  have uni: "unique_versions (versions bt s)" "unique_versions (versions bt s')"
    using sys_invD(3) [OF inv(1)] sys_invD(3) [OF inv(2)] by (simp_all add: versions_ok_def)
  have "e \<in> set (versions bt s)" if e: "e \<in> set (versions bt s')" "visible i ?a (TxnId e)" for e
  proof (rule ccontr)
    assume "e \<notin> set (versions bt s)"
    with q e(1) have j: "sy_txns s (TxnId e) \<noteq> None" "sy_txns s' (TxnId e) = None"
      unfolding quiet_def by blast+
    then have "TxnId e \<noteq> i"
      using live(2) by auto
    with e(2) j(1) ids(7) show False
      by (auto simp: visible_def)
  qed
  moreover have "set (versions bt s) \<subseteq> set (versions bt s')"
    using q by (simp add: quiet_def)
  ultimately show "latest_version k i ?a (versions bt s') = latest_version k i ?a (versions bt s)"
    by (intro latest_version_cong [OF uni(2,1)]) blast
qed


text \<open>A run for the witness: the first transaction commits while the second one is live.\<close>

definition sample_run_end :: "entry_tree sys" where
  "sample_run_end = after_commit list_btree sorted_range sample_sys sample_txn
     (snd (snd (txn_Commit list_btree rngA0 sorted_range sorted_range IoOk sample_txn (sy_db sample_sys))))"

lemma sample_run_step: "sys_step list_btree rngA0 sorted_range sorted_range sorted_range sample_sys sample_run_end"
proof -
  note c = commit_result [OF sample_runtime sample_sys_reachable sample_txns(1) sample_commit_fits]
  from c(1) [of rngA0] c(3) [of rngA0] show ?thesis
    by (auto simp: sample_run_end_def)
qed


section \<open>Restart\<close>



text \<open>
  C21. Opening the database after a flush and a crash gives back the flushed tables and an empty
  memtable. But the transaction ids start again at 1, whatever ids the flushed versions carry: they are
  kept neither in the tables' manifest nor in the emptied log.
\<close>

theorem restart_after_flush:
  fixes s :: "'t sys"
  assumes "runtime_ok bt rngW rngM rngC" "sys_reachable bt rngA rngW rngM rngC s"
    and "flushable (sy_hist s) (mt_entries bt (db_memTable (sy_db s)))"
    and "FlushMemtable bt rngA (sy_db s) = (bnd, db)"
    and "dataFilesDirectory (db_ssTable db) \<noteq> ''''" "blockLength (db_ssTable db) \<noteq> 0"
  shows "\<exists>db'. openDB bt [defaultWalPath \<mapsto> f_content (wal_file (db_wal db))] (db_disk db) defaultWalPath
      \<lparr>cfg_DataFilesDirectory = dataFilesDirectory (db_ssTable db),
       cfg_BlockLength = blockLength (db_ssTable db), cfg_SkipIndex = False\<rparr> = Ok db' \<and>
    db_ssTable db' = (db_ssTable db)\<lparr>compacting := False\<rparr> \<and> db_disk db' = db_disk db \<and>
    mt_entries bt (db_memTable db') = [] \<and> nextTransactionId (db_tm db') = 1"
proof -
  note ok = runtime_okD(1) [OF assms(1)]
  obtain tfs where rel: "table_rel (ts_of s) tfs"
    using sys_invD(5) [OF reachable_inv [OF assms(1,2)]] by blast
  have db: "db = flushed bt (sy_db s)"
    using flush_eq [of bt rngA "sy_db s"] assms(4) by (simp add: FlushMemtable_def)
  obtain st d where w: "write_entries (db_ssTable (sy_db s), db_disk (sy_db s))
      (calls_of (mt_entries bt (db_memTable (sy_db s)))) = (st, d)" by fastforce
  have st: "db_ssTable db = st" "db_disk db = d" and wal: "f_content (wal_file (db_wal db)) = []"
    by (simp_all add: db flushed_def w Wal_Clear_def)
  have "\<exists>tfs. table_rel (ts_of (s\<lparr>sy_db := db, sy_hist := sy_hist s @ mt_entries bt (db_memTable (sy_db s))\<rparr>)) tfs"
    using sys_invD(5) [OF sys_inv_flush [OF ok reachable_inv [OF assms(1,2)] assms(3)]] unfolding db .
  then obtain tfs' where "sst_inv st d tfs'"
    by (auto simp: table_rel_def ts_of_def st)
  from reopen [OF this write_entries_manifest [OF w]] assms(5,6)
  have sst: "NewSsTable \<lparr>cfg_DataFilesDirectory = dataFilesDirectory st, cfg_BlockLength = blockLength st,
      cfg_SkipIndex = False\<rparr> d = Ok (st\<lparr>compacting := False\<rparr>)"
    by (simp add: st)
  have "ReadEntry (openWal []) = (Err IoEOF, openWal [])"
    by (rule ReadEntry_at_end) (simp add: openWal_def)
  then have "buildMemtableFromWal bt (openWal []) = (Ok (NewMemtable bt, 0), openWal [])"
    by (simp add: buildMemtableFromWal_def buildMemtableFromWal_loop.simps)
  moreover have "NewWal [defaultWalPath \<mapsto> f_content (wal_file (db_wal db))] defaultWalPath = openWal []"
    by (simp add: NewWal_def openWal_def wal defaultWalPath_def)
  moreover have "mt_entries bt (NewMemtable bt) = []"
    by (simp add: mt_entries_def NewMemtable_def btree_okD(1) [OF ok])
  ultimately show ?thesis
    by (simp add: openDB_def sst st)
qed

theorem restart_after_flush_witness:
  "\<exists>bnd db db'. FlushMemtable list_btree rngA0 (sy_db sample_sys) = (bnd, db) \<and>
    openDB list_btree [defaultWalPath \<mapsto> f_content (wal_file (db_wal db))] (db_disk db) defaultWalPath
      \<lparr>cfg_DataFilesDirectory = ''d'', cfg_BlockLength = 100, cfg_SkipIndex = False\<rparr> = Ok db' \<and>
    nextTransactionId (db_tm (sy_db sample_sys)) = 3 \<and> nextTransactionId (db_tm db') = 1"
proof -
  obtain bnd db where fl: "FlushMemtable list_btree rngA0 (sy_db sample_sys) = (bnd, db)" by fastforce
  have empty: "mt_entries list_btree (db_memTable (sy_db sample_sys)) = []"
    by (simp add: sample_defs mt_entries_def NewMemtable_def)
  then have "flushable (sy_hist sample_sys) (mt_entries list_btree (db_memTable (sy_db sample_sys)))"
    by (simp add: flushable_def sample_defs unique_versions_def)
  moreover have "db = flushed list_btree (sy_db sample_sys)"
    using flush_eq [of list_btree rngA0 "sy_db sample_sys"] fl by (simp add: FlushMemtable_def)
  then have "dataFilesDirectory (db_ssTable db) = ''d''" "blockLength (db_ssTable db) = 100"
    by (simp_all add: flushed_def write_entries_def NewFile_def SsTable_Write_def Let_def split_beta
        sample_defs table_of_def)
  moreover have "nextTransactionId (db_tm (sy_db sample_sys)) = 3"
    by (simp add: sample_defs)
  ultimately show ?thesis
    using restart_after_flush [OF sample_runtime sample_sys_reachable _ fl] fl by auto
qed

end
