(* ===== verification/CommitSteps.thy ===== *)
theory CommitSteps
  imports DbIsolation
begin

text \<open>
  Commits at the grain at which goroutines interleave. \<open>Commit\<close> of \<open>transaction.go\<close> takes no lock between its log
  record, its puts into the memtable, the flush and its end, so other transactions begin, write and commit, and a
  flush may run, between any two of them. Readers still see a commit as a whole or not at all. A flush in the
  middle of a commit, though, clears the log record of writes that it has not flushed.
\<close>

section \<open>Steps\<close>

text \<open>
  \<open>ms_todo\<close>: the commits under way, each with the writes that it has still to put; \<open>ms_check\<close>: those that have looked
  at the size of the memtable, and whether they have still to flush it. Ghosts: the entries flushed so far, and the
  write maps of the commits that have returned.
\<close>

record 't ms =
  ms_db :: "'t DB"
  ms_live :: "u64 \<rightharpoonup> Transaction"
  ms_todo :: "u64 \<rightharpoonup> (string \<times> string) list"
  ms_check :: "u64 \<rightharpoonup> bool"
  ms_flushed :: "Entry list"
  ms_committed :: "u64 \<rightharpoonup> (string \<rightharpoonup> string)"

definition ms_of :: "'t DB \<Rightarrow> 't ms" where
  "ms_of db = \<lparr>ms_db = db, ms_live = Map.empty, ms_todo = Map.empty, ms_check = Map.empty, ms_flushed = [], ms_committed = Map.empty\<rparr>"

text \<open>
  The steps of a commit are \<open>log\<close>, \<open>mem_put\<close> for each write, \<open>check_size\<close>, \<open>flush_own\<close> if the memtable is too large, and
  \<open>finish\<close>. \<open>FlushMemtable\<close>, which is exported, may be called at any time.
\<close>

inductive ms_step ::
  "'t btree \<Rightarrow> (u64 set \<Rightarrow> u64 list) \<Rightarrow> ((string \<rightharpoonup> string) \<Rightarrow> (string \<times> string) list) \<Rightarrow>
   ((string \<rightharpoonup> string) \<Rightarrow> (string \<times> string) list) \<Rightarrow> 't ms \<Rightarrow> 't ms \<Rightarrow> bool"
  for bt rngA rngW rngM where
  begin_txn: "\<lbrakk>nextTransactionId (db_tm (ms_db s)) + 1 \<noteq> 0; db_Begin (ms_db s) = (txn, db)\<rbrakk> \<Longrightarrow>
    ms_step bt rngA rngW rngM s (s\<lparr>ms_db := db, ms_live := (ms_live s)(txn_id txn \<mapsto> txn)\<rparr>)"
| put: "\<lbrakk>ms_live s i = Some txn; ms_todo s i = None; txn_Put txn (ms_db s) k v = (r, txn', db)\<rbrakk> \<Longrightarrow>
    ms_step bt rngA rngW rngM s (s\<lparr>ms_db := db, ms_live := (ms_live s)(i \<mapsto> txn')\<rparr>)"
| rollback: "\<lbrakk>ms_live s i = Some txn; ms_todo s i = None; txn_Rollback txn (ms_db s) = Ok (txn', db)\<rbrakk> \<Longrightarrow>
    ms_step bt rngA rngW rngM s (s\<lparr>ms_db := db, ms_live := (ms_live s)(i := None)\<rparr>)"
| log: "\<lbrakk>ms_live s i = Some txn; ms_todo s i = None;
    writeSingleWalEntryForCommit IoOk (rngW (bufferedWriteMap txn)) txn (ms_db s) = (Ok (), db)\<rbrakk> \<Longrightarrow>
    ms_step bt rngA rngW rngM s (s\<lparr>ms_db := db, ms_todo := (ms_todo s)(i \<mapsto> rngM (bufferedWriteMap txn))\<rparr>)"
| mem_put: "ms_todo s i = Some ((k, v) # ws) \<Longrightarrow>
    ms_step bt rngA rngW rngM s
      (s\<lparr>ms_db := (ms_db s)\<lparr>db_memTable := Memtable_Put bt (db_memTable (ms_db s)) k v i\<rparr>, ms_todo := (ms_todo s)(i \<mapsto> ws)\<rparr>)"
| check_size: "\<lbrakk>ms_todo s i = Some []; ms_check s i = None\<rbrakk> \<Longrightarrow>
    ms_step bt rngA rngW rngM s (s\<lparr>ms_check := (ms_check s)(i \<mapsto> ShouldFlush (db_memTable (ms_db s)))\<rparr>)"
| flush_own: "\<lbrakk>ms_check s i = Some True; createSsTableAndClearWalAndMemTable bt rngA (ms_db s) = (bnd, db)\<rbrakk> \<Longrightarrow>
    ms_step bt rngA rngW rngM s
      (s\<lparr>ms_db := db, ms_check := (ms_check s)(i \<mapsto> False),
         ms_flushed := ms_flushed s @ mt_entries bt (db_memTable (ms_db s))\<rparr>)"
| finish: "\<lbrakk>ms_live s i = Some txn; ms_todo s i = Some []; ms_check s i = Some False;
    endTransaction txn (ms_db s) = Ok (txn', db)\<rbrakk> \<Longrightarrow>
    ms_step bt rngA rngW rngM s
      (s\<lparr>ms_db := db, ms_live := (ms_live s)(i := None), ms_todo := (ms_todo s)(i := None),
         ms_check := (ms_check s)(i := None), ms_committed := (ms_committed s)(i \<mapsto> bufferedWriteMap txn)\<rparr>)"
| flush: "FlushMemtable bt rngA (ms_db s) = (bnd, db) \<Longrightarrow>
    ms_step bt rngA rngW rngM s
      (s\<lparr>ms_db := db, ms_flushed := ms_flushed s @ mt_entries bt (db_memTable (ms_db s))\<rparr>)"

abbreviation ms_run ::
  "'t btree \<Rightarrow> (u64 set \<Rightarrow> u64 list) \<Rightarrow> ((string \<rightharpoonup> string) \<Rightarrow> (string \<times> string) list) \<Rightarrow>
   ((string \<rightharpoonup> string) \<Rightarrow> (string \<times> string) list) \<Rightarrow> 't ms \<Rightarrow> 't ms \<Rightarrow> bool" where
  "ms_run bt rngA rngW rngM \<equiv> (ms_step bt rngA rngW rngM)\<^sup>*\<^sup>*"

section \<open>The invariant\<close>

text \<open>The writes of a transaction that are in the memtable or in a table file.\<close>

definition written :: "'t btree \<Rightarrow> 't ms \<Rightarrow> u64 \<Rightarrow> (string \<times> string) set" where
  "written bt s i = {(k, v). mk_entry k v i \<in> set (ms_flushed s) \<union> set (mt_entries bt (db_memTable (ms_db s)))}"

text \<open>
  A commit that has returned has put all its writes, one under way has put those that it has not still to put, and
  nobody else has put anything.
\<close>

definition ms_inv :: "'t btree \<Rightarrow> 't ms \<Rightarrow> bool" where
  "ms_inv bt s \<longleftrightarrow> ids_ok (db_tm (ms_db s)) (ms_live s) \<and>
     (\<forall>i txn. ms_live s i = Some txn \<longrightarrow> finite (dom (bufferedWriteMap txn)) \<and> ms_committed s i = None) \<and>
     (\<forall>i m. ms_committed s i = Some m \<longrightarrow> i < nextTransactionId (db_tm (ms_db s)) \<and> written bt s i = Map.graph m) \<and>
     (\<forall>i. ms_committed s i = None \<and> ms_todo s i = None \<longrightarrow> written bt s i = {}) \<and>
     (\<forall>i ws. ms_todo s i = Some ws \<longrightarrow>
        (\<exists>txn. ms_live s i = Some txn \<and> written bt s i \<union> set ws = Map.graph (bufferedWriteMap txn)))"

lemma ms_invD:
  assumes "ms_inv bt s"
  shows "ids_ok (db_tm (ms_db s)) (ms_live s)"
    "ms_live s i = Some txn \<Longrightarrow> finite (dom (bufferedWriteMap txn)) \<and> ms_committed s i = None"
    "ms_committed s i = Some m \<Longrightarrow> i < nextTransactionId (db_tm (ms_db s)) \<and> written bt s i = Map.graph m"
    "\<lbrakk>ms_committed s i = None; ms_todo s i = None\<rbrakk> \<Longrightarrow> written bt s i = {}"
    "ms_todo s i = Some ws \<Longrightarrow> \<exists>txn. ms_live s i = Some txn \<and> written bt s i \<union> set ws = Map.graph (bufferedWriteMap txn)"
  using assms unfolding ms_inv_def by blast+

lemma written_cong:
  "\<lbrakk>ms_flushed s' = ms_flushed s; db_memTable (ms_db s') = db_memTable (ms_db s)\<rbrakk> \<Longrightarrow> written bt s' = written bt s"
  by (simp add: written_def fun_eq_iff)

lemma written_flush:
  assumes "btree_ok bt" "ms_flushed s' = ms_flushed s @ mt_entries bt (db_memTable (ms_db s))"
    and "mt_entries bt (db_memTable (ms_db s')) = []"
  shows "written bt s' = written bt s"
  using assms by (simp add: written_def fun_eq_iff)

lemma written_put:
  assumes "btree_ok bt" "ms_inv bt s" "ms_todo s i = Some ((k, v) # ws)"
    and "ms_flushed s' = ms_flushed s" "db_memTable (ms_db s') = Memtable_Put bt (db_memTable (ms_db s)) k v i"
  shows "written bt s' = (written bt s)(i := insert (k, v) (written bt s i))"
proof -
  obtain txn :: Transaction where w: "written bt s i \<union> set ((k, v) # ws) = Map.graph (bufferedWriteMap txn)"
    using ms_invD(5) [OF assms(2,3)] by blast
  have same: "v' = v" if "(k, v') \<in> written bt s i" for v'
  proof -
    have "(k, v') \<in> Map.graph (bufferedWriteMap txn)" "(k, v) \<in> Map.graph (bufferedWriteMap txn)"
      using that w by auto
    from in_graphD [OF this(1)] in_graphD [OF this(2)] show ?thesis by simp
  qed
  show ?thesis
  proof (rule ext)
    fix j
    show "written bt s' j = ((written bt s)(i := insert (k, v) (written bt s i))) j"
      using same by (auto simp: written_def assms(4,5) set_mt_entries_Put [OF assms(1)] mk_entry_def)
  qed
qed

lemma mem_entries_written:
  "e \<in> set (mt_entries bt (db_memTable (ms_db s))) \<Longrightarrow> (Key e, Value e) \<in> written bt s (TxnId e)"
  by (simp add: written_def mk_entry_eta)

lemma ms_inv_begin:
  assumes "ms_inv bt s" "nextTransactionId (db_tm (ms_db s)) + 1 \<noteq> 0"
  defines "tm \<equiv> db_tm (ms_db s)"
  shows "ms_inv bt (s\<lparr>ms_db := (ms_db s)\<lparr>db_tm := tm_begin tm\<rparr>, ms_live := (ms_live s)(nextTransactionId tm \<mapsto> new_txn tm)\<rparr>)"
    (is "ms_inv bt ?s'")
proof -
  note d = ms_invD [OF assms(1)]
  let ?n = "nextTransactionId tm"
  have w: "written bt ?s' = written bt s" by (rule written_cong) simp_all
  have less: "i < ?n + 1" if "i < ?n" for i
    using word_next [OF assms(2), of i] that by (simp add: tm_def)
  have new: "ms_committed s ?n = None" "ms_todo s ?n = None"
  proof -
    show "ms_committed s ?n = None" using d(3) by (cases "ms_committed s ?n") (auto simp: tm_def)
    show "ms_todo s ?n = None"
    proof (rule ccontr)
      assume "ms_todo s ?n \<noteq> None"
      then obtain txn :: Transaction where "ms_live s ?n = Some txn" using d(5) by blast
      from ids_okD(4) [OF d(1) this] show False by (simp add: tm_def)
    qed
  qed
  show ?thesis
    unfolding ms_inv_def w
    using d(1-5) new less ids_ok_begin(2) [OF d(1) assms(2)]
    by (auto simp: tm_def tm_begin_def new_txn_def)
qed

lemma ms_inv_update:
  assumes "ms_inv bt s" "ms_live s i = Some txn" "ms_todo s i = None"
    and "ids_ok (db_tm db) ((ms_live s)(i \<mapsto> txn'))" "finite (dom (bufferedWriteMap txn'))"
    and "nextTransactionId (db_tm db) = nextTransactionId (db_tm (ms_db s))" "db_memTable db = db_memTable (ms_db s)"
  shows "ms_inv bt (s\<lparr>ms_db := db, ms_live := (ms_live s)(i \<mapsto> txn')\<rparr>)" (is "ms_inv bt ?s'")
proof -
  note d = ms_invD [OF assms(1)]
  have w: "written bt ?s' = written bt s" by (rule written_cong) (simp_all add: assms(7))
  show ?thesis
    unfolding ms_inv_def w using d(2-5) assms(2-6) by auto
qed

lemma ms_inv_put:
  assumes "ms_inv bt s" "ms_live s i = Some txn" "ms_todo s i = None" "txn_Put txn (ms_db s) k v = (r, txn', db)"
  shows "ms_inv bt (s\<lparr>ms_db := db, ms_live := (ms_live s)(i \<mapsto> txn')\<rparr>)"
proof (rule ms_inv_update [OF assms(1-3)])
  note d = ms_invD(1,2) [OF assms(1)]
  note ids = ids_okD(1,2) [OF d(1) assms(2)]
  then have put: "txn_id txn' = txn_id txn" "activeTransactionsSnapshot txn' = activeTransactionsSnapshot txn"
    "nextTransactionId (db_tm db) = nextTransactionId (db_tm (ms_db s))"
    "activeTransactionsMap (db_tm db) = activeTransactionsMap (db_tm (ms_db s))"
    "db_memTable db = db_memTable (ms_db s)" "finite (dom (bufferedWriteMap txn'))"
    using assms(4) d(2) [OF assms(2)] by (auto simp: txn_Put_eq split: if_splits)
  show "ids_ok (db_tm db) ((ms_live s)(i \<mapsto> txn'))" by (rule ids_ok_update [OF d(1) assms(2) put(1-4)])
  show "finite (dom (bufferedWriteMap txn'))" "nextTransactionId (db_tm db) = nextTransactionId (db_tm (ms_db s))"
    "db_memTable db = db_memTable (ms_db s)" by (rule put)+
qed

text \<open>The end of a transaction whose locks can be released.\<close>

lemma endTransaction_tm:
  assumes "endTransaction txn db = Ok (txn', db')"
  shows "nextTransactionId (db_tm db') = nextTransactionId (db_tm db)"
    "activeTransactionsMap (db_tm db') = activeTransactionsMap (db_tm db) - {txn_id txn}" "db_memTable db' = db_memTable db"
  using assms by (auto simp: endTransaction_def releaseAllLocks_def rbind_Ok_iff deleteActive_def)

lemma ids_ok_remove:
  assumes "ids_ok tm txns" "txns i = Some txn" "nextTransactionId tm' = nextTransactionId tm"
    and "activeTransactionsMap tm' = activeTransactionsMap tm - {txn_id txn}"
  shows "ids_ok tm' (txns(i := None))"
  using assms ids_okD(1) [OF assms(1,2)] unfolding ids_ok_def by auto

lemma ms_inv_end:
  assumes "ms_inv bt s" "ms_live s i = Some txn" "endTransaction txn (ms_db s) = Ok (txn', db)"
  shows "ms_todo s i = None \<Longrightarrow> ms_inv bt (s\<lparr>ms_db := db, ms_live := (ms_live s)(i := None)\<rparr>)"
    "ms_todo s i = Some [] \<Longrightarrow> ms_inv bt (s\<lparr>ms_db := db, ms_live := (ms_live s)(i := None), ms_todo := (ms_todo s)(i := None),
         ms_check := (ms_check s)(i := None), ms_committed := (ms_committed s)(i \<mapsto> bufferedWriteMap txn)\<rparr>)"
proof -
  note d = ms_invD [OF assms(1)] and e = endTransaction_tm [OF assms(3)]
  note ids = ids_ok_remove [OF d(1) assms(2) e(1,2)]
  have none: "ms_committed s i = None" and less: "i < nextTransactionId (db_tm (ms_db s))"
    using d(2) [OF assms(2)] ids_okD(4) [OF d(1) assms(2)] by simp_all
  {
    let ?s' = "s\<lparr>ms_db := db, ms_live := (ms_live s)(i := None)\<rparr>"
    assume todo: "ms_todo s i = None"
    have w: "written bt ?s' = written bt s" by (rule written_cong) (simp_all add: e)
    from todo show "ms_inv bt ?s'" unfolding ms_inv_def w using d(2-5) ids e(1) by auto
  next
    let ?s' = "s\<lparr>ms_db := db, ms_live := (ms_live s)(i := None), ms_todo := (ms_todo s)(i := None),
      ms_check := (ms_check s)(i := None), ms_committed := (ms_committed s)(i \<mapsto> bufferedWriteMap txn)\<rparr>"
    assume todo: "ms_todo s i = Some []"
    have w: "written bt ?s' = written bt s" by (rule written_cong) (simp_all add: e)
    have "written bt s i = Map.graph (bufferedWriteMap txn)" using d(5) [OF todo] assms(2) by auto
    then show "ms_inv bt ?s'" unfolding ms_inv_def w using d(2-5) ids e(1) none less by auto
  }
qed

lemma ms_inv_log:
  assumes "ms_inv bt s" "range_order rngM" "ms_live s i = Some txn" "ms_todo s i = None"
    and "db_tm db = db_tm (ms_db s)" "db_memTable db = db_memTable (ms_db s)"
  shows "ms_inv bt (s\<lparr>ms_db := db, ms_todo := (ms_todo s)(i \<mapsto> rngM (bufferedWriteMap txn))\<rparr>)" (is "ms_inv bt ?s'")
proof -
  note d = ms_invD [OF assms(1)]
  have w: "written bt ?s' = written bt s" by (rule written_cong) (simp_all add: assms(6))
  have "enumerates (rngM (bufferedWriteMap txn)) (bufferedWriteMap txn)"
    using assms(2) d(2) [OF assms(3)] by (simp add: range_order_def)
  then have "set (rngM (bufferedWriteMap txn)) = Map.graph (bufferedWriteMap txn)"
    by (auto simp: graph_def enumerates_set)
  moreover have "written bt s i = {}" using d(2,4) assms(3,4) by blast
  ultimately show ?thesis
    unfolding ms_inv_def w using d(1-5) assms(3-5) by auto
qed

lemma ms_inv_mem_put:
  assumes "ms_inv bt s" "btree_ok bt" "ms_todo s i = Some ((k, v) # ws)"
  shows "ms_inv bt (s\<lparr>ms_db := (ms_db s)\<lparr>db_memTable := Memtable_Put bt (db_memTable (ms_db s)) k v i\<rparr>,
    ms_todo := (ms_todo s)(i \<mapsto> ws)\<rparr>)" (is "ms_inv bt ?s'")
proof -
  note d = ms_invD [OF assms(1)]
  have w: "written bt ?s' = (written bt s)(i := insert (k, v) (written bt s i))"
    by (rule written_put [OF assms(2,1,3)]) simp_all
  obtain txn :: Transaction where txn: "ms_live s i = Some txn"
    "insert (k, v) (written bt s i) \<union> set ws = Map.graph (bufferedWriteMap txn)" using d(5) [OF assms(3)] by auto
  then have "ms_committed s i = None" using d(2) by blast
  with txn show ?thesis
    unfolding ms_inv_def w using d(1-5) by auto
qed

lemma ms_inv_flush:
  assumes "ms_inv bt s" "btree_ok bt" "createSsTableAndClearWalAndMemTable bt rngA (ms_db s) = (bnd, db)"
  shows "ms_inv bt (s\<lparr>ms_db := db, ms_flushed := ms_flushed s @ mt_entries bt (db_memTable (ms_db s))\<rparr>)" (is "ms_inv bt ?s'")
proof -
  note d = ms_invD [OF assms(1)]
  have db: "db = flushed bt (ms_db s)" using flush_eq [of bt rngA "ms_db s"] assms(3) by simp
  have w: "written bt ?s' = written bt s"
    by (rule written_flush [OF assms(2)]) (simp_all add: db mt_entries_Clear [OF assms(2)])
  show ?thesis
    unfolding ms_inv_def w using d(1-5) by (auto simp: db)
qed

lemma ms_inv_check: "ms_inv bt s \<Longrightarrow> ms_inv bt (s\<lparr>ms_check := c\<rparr>)"
  by (simp add: ms_inv_def written_def)

lemma ms_inv_step:
  assumes "btree_ok bt" "range_order rngM" "ms_step bt rngA rngW rngM s s'" "ms_inv bt s"
  shows "ms_inv bt s'"
  using assms(3)
proof (cases rule: ms_step.cases)
  case (begin_txn txn db)
  then have "txn = new_txn (db_tm (ms_db s))" "db = (ms_db s)\<lparr>db_tm := tm_begin (db_tm (ms_db s))\<rparr>" by (simp_all add: db_Begin_eq)
  with begin_txn(1) ms_inv_begin [OF assms(4) begin_txn(2)] show ?thesis by (simp add: new_txn_def)
next
  case (put i txn k v r txn' db)
  then show ?thesis using ms_inv_put [OF assms(4)] by simp
next
  case (rollback i txn txn' db)
  then show ?thesis using ms_inv_end(1) [OF assms(4)] by (simp add: txn_Rollback_def)
next
  case (log i txn db)
  then have "db_tm db = db_tm (ms_db s)" "db_memTable db = db_memTable (ms_db s)"
    by (auto simp: writeSingleWalEntryForCommit_def split_beta)
  with log show ?thesis using ms_inv_log [OF assms(4,2)] by simp
next
  case (mem_put i k v ws)
  then show ?thesis using ms_inv_mem_put [OF assms(4,1)] by simp
next
  case (check_size i)
  then show ?thesis using ms_inv_check [OF assms(4)] by simp
next
  case (flush_own i bnd db)
  with ms_inv_check [OF ms_inv_flush [OF assms(4,1) flush_own(3)], of "(ms_check s)(i \<mapsto> False)"]
  show ?thesis by (cases s) simp
next
  case (flush bnd db)
  then show ?thesis using ms_inv_flush [OF assms(4,1)] by (simp add: FlushMemtable_def)
next
  case (finish i txn txn' db)
  then show ?thesis using ms_inv_end(2) [OF assms(4)] by simp
qed

lemma ms_inv_init:
  assumes "btree_ok bt" "mt_entries bt (db_memTable db) = []" "0 < nextTransactionId (db_tm db)" "activeTransactionsMap (db_tm db) = {}"
  shows "ms_inv bt (ms_of db)"
  using assms by (simp add: ms_inv_def ms_of_def written_def ids_ok_def)

lemma ms_inv_run:
  assumes "btree_ok bt" "range_order rngM" "ms_run bt rngA rngW rngM s s'" "ms_inv bt s"
  shows "ms_inv bt s'"
  using assms(3,4) by (induction rule: rtranclp_induct) (auto intro: ms_inv_step [OF assms(1,2)])

section \<open>A commit is seen as a whole or not at all\<close>

text \<open>
  C4. However the commits of several transactions, with their log writes, single puts and flushes, and the beginnings of
  others interleave: what a transaction that is not itself committing reads from the memtable is a write of a
  commit that had returned before it began, and all writes of that commit are in the memtable or in a table file.
\<close>

theorem reads_only_complete_commits:
  assumes "btree_ok bt" "range_order rngM" "mt_entries bt (db_memTable db) = []" "db_tm db = \<lparr>nextTransactionId = 1,
      keyVsLocksAcquiredMap = Map.empty, activeTransactionsMap = {}\<rparr>"
    and "ms_run bt rngA rngW rngM (ms_of db) s" "ms_live s j = Some txn" "ms_todo s j = None"
    and "Memtable_Get bt (db_memTable (ms_db s)) k (txn_id txn) (activeTransactionsSnapshot txn) = (v, True)"
  shows "\<exists>i m. ms_committed s i = Some m \<and> m k = Some v \<and> i < j \<and> i \<notin> activeTransactionsSnapshot txn \<and>
    (\<forall>k' v'. m k' = Some v' \<longrightarrow> mk_entry k' v' i \<in> set (ms_flushed s) \<union> set (mt_entries bt (db_memTable (ms_db s))))"
proof -
  have inv: "ms_inv bt s"
    by (rule ms_inv_run [OF assms(1,2,5)]) (rule ms_inv_init [OF assms(1,3)], simp_all add: assms(4))
  note d = ms_invD [OF inv]
  have j: "txn_id txn = j" using ids_okD(1) [OF d(1) assms(6)] .
  obtain e where e: "latest_version k j (activeTransactionsSnapshot txn) (mt_entries bt (db_memTable (ms_db s))) = Some e" "Value e = v"
    using assms(8) by (auto simp: Memtable_Get_eq [OF assms(1)] j split: option.splits)
  note l = latest_version_SomeD [OF e(1)]
  let ?i = "TxnId e"
  have w: "(k, v) \<in> written bt s ?i" using mem_entries_written [OF l(1)] l(2) e(2) by simp
  have "?i \<noteq> j" using d(2) [OF assms(6)] d(4) [of j] assms(7) w by auto
  with l(3) have seen: "?i < j" "?i \<notin> activeTransactionsSnapshot txn" by (auto simp: visible_def)
  with ids_okD(7) [OF d(1) assms(6)] have dead: "ms_live s ?i = None" by blast
  then have "ms_todo s ?i = None" using d(5) [of ?i] by (cases "ms_todo s ?i") auto
  with d(4) w obtain m where m: "ms_committed s ?i = Some m" by (cases "ms_committed s ?i") auto
  then have "written bt s ?i = Map.graph m" using d(3) by blast
  with w have "m k = Some v" "\<forall>k' v'. m k' = Some v' \<longrightarrow> (k', v') \<in> written bt s ?i" by (simp_all add: graph_def)
  then have "\<forall>k' v'. m k' = Some v' \<longrightarrow> mk_entry k' v' ?i \<in> set (ms_flushed s) \<union> set (mt_entries bt (db_memTable (ms_db s)))"
    by (simp add: written_def)
  with m seen \<open>m k = Some v\<close> show ?thesis by blast
qed

section \<open>Running a commit without interruption\<close>

lemma ms_run_first_puts:
  fixes s :: "'t ms"
  shows "ms_run bt rngA rngW rngM (s\<lparr>ms_db := d, ms_todo := (ms_todo s)(i \<mapsto> ws1 @ ws2)\<rparr>)
    (s\<lparr>ms_db := d\<lparr>db_memTable := Memtable_Puts bt (db_memTable d) (commit_puts (i, ws1))\<rparr>, ms_todo := (ms_todo s)(i \<mapsto> ws2)\<rparr>)"
proof (induction ws1 arbitrary: d)
  case Nil
  then show ?case by (simp add: commit_puts_def Memtable_Puts_def)
next
  case (Cons kv ws1)
  obtain k v where kv: "kv = (k, v)" by (cases kv)
  let ?s = "s\<lparr>ms_db := d, ms_todo := (ms_todo s)(i \<mapsto> (kv # ws1) @ ws2)\<rparr>"
  have todo: "ms_todo ?s i = Some ((k, v) # ws1 @ ws2)" by (simp add: kv)
  have "?s\<lparr>ms_db := (ms_db ?s)\<lparr>db_memTable := Memtable_Put bt (db_memTable (ms_db ?s)) k v i\<rparr>, ms_todo := (ms_todo ?s)(i \<mapsto> ws1 @ ws2)\<rparr> =
      s\<lparr>ms_db := d\<lparr>db_memTable := Memtable_Put bt (db_memTable d) k v i\<rparr>, ms_todo := (ms_todo s)(i \<mapsto> ws1 @ ws2)\<rparr>" by simp
  with ms_step.mem_put [OF todo, of bt rngA rngW rngM]
  have step: "ms_step bt rngA rngW rngM ?s
      (s\<lparr>ms_db := d\<lparr>db_memTable := Memtable_Put bt (db_memTable d) k v i\<rparr>, ms_todo := (ms_todo s)(i \<mapsto> ws1 @ ws2)\<rparr>)" by metis
  let ?d = "d\<lparr>db_memTable := Memtable_Put bt (db_memTable d) k v i\<rparr>"
  have "?d\<lparr>db_memTable := Memtable_Puts bt (db_memTable ?d) (commit_puts (i, ws1))\<rparr> =
      d\<lparr>db_memTable := Memtable_Puts bt (db_memTable d) (commit_puts (i, kv # ws1))\<rparr>"
    by (simp add: kv commit_puts_def Memtable_Puts_def)
  note rest = Cons.IH [of ?d, unfolded this]
  show ?case by (rule converse_rtranclp_into_rtranclp [OF step rest])
qed

lemma ms_run_puts:
  fixes s :: "'t ms"
  assumes "ms_todo s i = Some ws"
  shows "ms_run bt rngA rngW rngM s
    (s\<lparr>ms_db := (ms_db s)\<lparr>db_memTable := Memtable_Puts bt (db_memTable (ms_db s)) (commit_puts (i, ws))\<rparr>,
       ms_todo := (ms_todo s)(i \<mapsto> [])\<rparr>)"
proof -
  have "s\<lparr>ms_db := ms_db s, ms_todo := (ms_todo s)(i \<mapsto> ws @ [])\<rparr> = s"
    using assms by (cases s) auto
  with ms_run_first_puts [of bt rngA rngW rngM s] show ?thesis by (metis append_Nil2)
qed

lemma ms_run_log_puts:
  fixes s :: "'t ms"
  assumes "ms_live s i = Some txn" "ms_todo s i = None" "rngM (bufferedWriteMap txn) = ws1 @ ws2"
    and "writeSingleWalEntryForCommit IoOk (rngW (bufferedWriteMap txn)) txn (ms_db s) = (Ok (), d)"
  shows "ms_run bt rngA rngW rngM s
    (s\<lparr>ms_db := d\<lparr>db_memTable := Memtable_Puts bt (db_memTable d) (commit_puts (i, ws1))\<rparr>, ms_todo := (ms_todo s)(i \<mapsto> ws2)\<rparr>)"
proof (rule converse_rtranclp_into_rtranclp)
  show "ms_step bt rngA rngW rngM s (s\<lparr>ms_db := d, ms_todo := (ms_todo s)(i \<mapsto> ws1 @ ws2)\<rparr>)"
    unfolding assms(3) [symmetric] by (rule ms_step.log) (rule assms(1,2,4))+
  show "ms_run bt rngA rngW rngM (s\<lparr>ms_db := d, ms_todo := (ms_todo s)(i \<mapsto> ws1 @ ws2)\<rparr>)
    (s\<lparr>ms_db := d\<lparr>db_memTable := Memtable_Puts bt (db_memTable d) (commit_puts (i, ws1))\<rparr>, ms_todo := (ms_todo s)(i \<mapsto> ws2)\<rparr>)"
    by (rule ms_run_first_puts)
qed

text \<open>The rest of a commit when nothing intervenes: the size check, its flush, and the end.\<close>

lemma ms_run_end:
  fixes s :: "'t ms"
  assumes "ms_live s i = Some txn" "ms_todo s i = Some []" "ms_check s i = None"
    and flush: "(if ShouldFlush (db_memTable (ms_db s)) then createSsTableAndClearWalAndMemTable bt rngA (ms_db s)
      else (None, ms_db s)) = (b, d)"
    and fin: "endTransaction txn d = Ok (txn', db)"
  defines "m \<equiv> db_memTable (ms_db s)"
  shows "ms_run bt rngA rngW rngM s (s\<lparr>ms_db := db, ms_live := (ms_live s)(i := None), ms_todo := (ms_todo s)(i := None),
      ms_check := (ms_check s)(i := None), ms_flushed := (if ShouldFlush m then ms_flushed s @ mt_entries bt m else ms_flushed s),
      ms_committed := (ms_committed s)(i \<mapsto> bufferedWriteMap txn)\<rparr>)"
proof -
  let ?step = "ms_step bt rngA rngW rngM"
  define s1 where "s1 = s\<lparr>ms_check := (ms_check s)(i \<mapsto> ShouldFlush m)\<rparr>"
  define s2 where "s2 = s\<lparr>ms_db := d, ms_check := (ms_check s)(i \<mapsto> False),
    ms_flushed := (if ShouldFlush m then ms_flushed s @ mt_entries bt m else ms_flushed s)\<rparr>"
  have "?step s s1" unfolding s1_def m_def by (rule ms_step.check_size) (rule assms(2,3))+
  moreover have "?step\<^sup>*\<^sup>* s1 s2"
  proof (cases "ShouldFlush m")
    case True
    then have "ms_check s1 i = Some True" "createSsTableAndClearWalAndMemTable bt rngA (ms_db s1) = (b, d)"
      using flush by (simp_all add: s1_def m_def)
    from ms_step.flush_own [OF this] show ?thesis using True by (simp add: s1_def s2_def m_def r_into_rtranclp)
  next
    case False
    with flush have "s2 = s1" by (cases s) (simp add: s1_def s2_def m_def)
    then show ?thesis by simp
  qed
  moreover have "?step s2 (s2\<lparr>ms_db := db, ms_live := (ms_live s2)(i := None), ms_todo := (ms_todo s2)(i := None),
      ms_check := (ms_check s2)(i := None), ms_committed := (ms_committed s2)(i \<mapsto> bufferedWriteMap txn)\<rparr>)"
    by (rule ms_step.finish) (use assms(1,2) fin in \<open>simp_all add: s2_def\<close>)
  ultimately have "?step\<^sup>*\<^sup>* s (s2\<lparr>ms_db := db, ms_live := (ms_live s2)(i := None), ms_todo := (ms_todo s2)(i := None),
      ms_check := (ms_check s2)(i := None), ms_committed := (ms_committed s2)(i \<mapsto> bufferedWriteMap txn)\<rparr>)"
    by (meson converse_rtranclp_into_rtranclp rtranclp.rtrancl_into_rtrancl)
  then show ?thesis by (cases s) (simp add: s2_def)
qed

text \<open>
  An uninterrupted commit is the operation of the store: what \<open>txn_Commit\<close> returns and leaves behind is what its log
  write, its puts, its check, its flush and its end do one after the other.
\<close>

lemma commit_run:
  fixes s :: "'t ms"
  assumes "ms_live s i = Some txn" "txn_id txn = i" "ms_todo s i = None" "ms_check s i = None"
    and "txn_Commit bt rngA rngW rngM IoOk txn (ms_db s) = (Ok bnd, txn', db)"
  defines "m \<equiv> committed_memtable bt rngM txn (ms_db s)"
  shows "ms_run bt rngA rngW rngM s (s\<lparr>ms_db := db, ms_live := (ms_live s)(i := None), ms_todo := (ms_todo s)(i := None),
      ms_check := (ms_check s)(i := None), ms_flushed := (if ShouldFlush m then ms_flushed s @ mt_entries bt m else ms_flushed s),
      ms_committed := (ms_committed s)(i \<mapsto> bufferedWriteMap txn)\<rparr>)"
proof -
  let ?ws = "rngM (bufferedWriteMap txn)"
  obtain d1 where log: "writeSingleWalEntryForCommit IoOk (rngW (bufferedWriteMap txn)) txn (ms_db s) = (Ok (), d1)"
    by (simp add: writeSingleWalEntryForCommit_def WriteEntry_def Let_def)
  have d1: "db_memTable d1 = db_memTable (ms_db s)"
    using log by (auto simp: writeSingleWalEntryForCommit_def split_beta)
  define d2 where "d2 = d1\<lparr>db_memTable := m\<rparr>"
  have mem: "db_memTable d2 = m" by (simp add: d2_def)
  have puts: "Memtable_Puts bt (db_memTable d1) (commit_puts (i, ?ws)) = m"
    by (simp add: m_def committed_memtable_def d1 assms(2))
  obtain b d3 where fl: "(if ShouldFlush m then createSsTableAndClearWalAndMemTable bt rngA d2 else (None, d2)) = (b, d3)"
    by fastforce
  have calls: "map (\<lambda>(key, value). (key, value, txn_id txn)) ?ws = commit_puts (i, ?ws)"
    by (simp add: commit_puts_def assms(2))
  have "txn_Commit bt rngA rngW rngM IoOk txn (ms_db s) =
      (case endTransaction txn d3 of Ok (txn, db) \<Rightarrow> (Ok b, txn, db) | Err er \<Rightarrow> (Err er, txn, d3) | Panic \<Rightarrow> (Panic, txn, d3))"
    unfolding txn_Commit_def log prod.case result.case Let_def calls puts d2_def [symmetric]
    using fl by (simp add: d2_def)
  then have fin: "endTransaction txn d3 = Ok (txn', db)" using assms(5) by (auto split: result.splits)
  let ?s = "s\<lparr>ms_db := d2, ms_todo := (ms_todo s)(i \<mapsto> [])\<rparr>"
  have puts_run: "ms_run bt rngA rngW rngM s ?s"
    using ms_run_log_puts [of s i txn rngM ?ws "[]" rngW d1 bt rngA] assms(1,3) log by (simp add: puts d2_def)
  have "ms_live ?s i = Some txn" "ms_todo ?s i = Some []" "ms_check ?s i = None"
    "(if ShouldFlush (db_memTable (ms_db ?s)) then createSsTableAndClearWalAndMemTable bt rngA (ms_db ?s)
      else (None, ms_db ?s)) = (b, d3)"
    using assms(1,4) fl mem by (simp_all split: if_splits)
  from rtranclp_trans [OF puts_run ms_run_end [OF this fin, of rngW rngM]]
  show ?thesis by (cases "ShouldFlush m") (simp_all add: mem)
qed

section \<open>A flush in the middle of a commit\<close>

text \<open>
  C5. A commit during which a flush runs can return success and be torn by a crash. The flush writes the puts made so far
  to a table file and clears the log, with the record of the whole commit; the puts that follow are in the memtable
  only, which is too small for the commit to flush it. After a crash the first part of the commit is there and the
  second is lost.
\<close>

theorem flush_tears_commit:
  fixes s :: "'t ms" and bt :: "'t btree"
  assumes "ms_live s i = Some txn" "txn_id txn = i" "ms_todo s i = None" "ms_check s i = None" "owns_locks txn (db_tm (ms_db s))"
    and "rngM (bufferedWriteMap txn) = ws1 @ ws2"
  defines "m \<equiv> Memtable_Puts bt (db_memTable (ms_db s)) (commit_puts (i, ws1))"
  assumes small: "\<not> ShouldFlush (Memtable_Puts bt (Memtable_Clear bt m) (commit_puts (i, ws2)))"
  shows "\<exists>s'. ms_run bt rngA rngW rngM s s' \<and> ms_committed s' i = Some (bufferedWriteMap txn) \<and>
    ms_flushed s' = ms_flushed s @ mt_entries bt m \<and>
    fst (buildMemtableFromWal bt (openWal (f_content (wal_file (db_wal (ms_db s')))))) = Ok (NewMemtable bt, 0)"
proof -
  let ?run = "ms_run bt rngA rngW rngM"
  obtain d1 where log: "writeSingleWalEntryForCommit IoOk (rngW (bufferedWriteMap txn)) txn (ms_db s) = (Ok (), d1)"
    by (simp add: writeSingleWalEntryForCommit_def WriteEntry_def Let_def)
  have d1: "db_memTable d1 = db_memTable (ms_db s)" "db_tm d1 = db_tm (ms_db s)"
    using log by (auto simp: writeSingleWalEntryForCommit_def split_beta)
  define s2 where "s2 = s\<lparr>ms_db := d1\<lparr>db_memTable := m\<rparr>, ms_todo := (ms_todo s)(i \<mapsto> ws2)\<rparr>"
  define d3 where "d3 = flushed bt (d1\<lparr>db_memTable := m\<rparr>)"
  define s3 where "s3 = s2\<lparr>ms_db := d3, ms_flushed := ms_flushed s @ mt_entries bt m\<rparr>"
  define d4 where "d4 = d3\<lparr>db_memTable := Memtable_Puts bt (db_memTable d3) (commit_puts (i, ws2))\<rparr>"
  define s4 where "s4 = s3\<lparr>ms_db := d4, ms_todo := (ms_todo s3)(i \<mapsto> [])\<rparr>"
  define d5 where "d5 = d4\<lparr>db_tm := tm_end txn (db_tm d4)\<rparr>"
  have d4: "\<not> ShouldFlush (db_memTable d4)" using small by (simp add: d4_def d3_def flushed_def Let_def)
  have "?run s s2"
    using ms_run_log_puts [of s i txn rngM ws1 ws2 rngW d1 bt rngA] assms(1,3,6) log by (simp add: s2_def m_def d1)
  also have "ms_step bt rngA rngW rngM s2 s3"
  proof -
    obtain b where "FlushMemtable bt rngA (ms_db s2) = (b, d3)"
      by (cases "createSsTableAndClearWalAndMemTable bt rngA (ms_db s2)")
        (use flush_eq [of bt rngA "ms_db s2"] in \<open>simp add: d3_def s2_def FlushMemtable_def\<close>)
    from ms_step.flush [OF this, of rngW rngM] show ?thesis by (simp add: s3_def s2_def)
  qed
  also have "?run s3 s4"
    using ms_run_puts [of s3 i ws2 bt rngA rngW rngM] by (simp add: s4_def s3_def s2_def d4_def)
  finally have to_s4: "?run s s4" .
  have "db_tm d4 = db_tm (ms_db s)" by (simp add: d4_def d3_def d1)
  then have fin: "endTransaction txn d4 = Ok (ended txn, d5)"
    using endTransaction_eq [of txn d4] assms(5) by (simp add: d5_def)
  have "ms_live s4 i = Some txn" "ms_todo s4 i = Some []" "ms_check s4 i = None"
    "(if ShouldFlush (db_memTable (ms_db s4)) then createSsTableAndClearWalAndMemTable bt rngA (ms_db s4)
      else (None, ms_db s4)) = (None, d4)"
    using assms(1,4) d4 by (simp_all add: s4_def s3_def s2_def)
  from rtranclp_trans [OF to_s4 ms_run_end [OF this fin]]
  obtain s5 where run: "?run s s5" and s5: "ms_db s5 = d5" "ms_committed s5 i = Some (bufferedWriteMap txn)" "ms_flushed s5 = ms_flushed s4"
    using d4 by (fastforce simp: s4_def)
  have log_empty: "f_content (wal_file (db_wal (ms_db s5))) = []"
    by (simp add: s5 d5_def d4_def d3_def flushed_def Wal_Clear_def Let_def)
  have recovered: "fst (buildMemtableFromWal bt (openWal [])) = Ok (NewMemtable bt, 0)"
    using buildMemtableFromWal_log [of "[]" bt] by (simp add: Memtable_Puts_def)
  have "ms_flushed s5 = ms_flushed s @ mt_entries bt m" by (simp add: s5 s4_def s3_def)
  with run s5(2) log_empty recovered show ?thesis by (intro exI [of _ s5]) (simp only: simp_thms)
qed

section \<open>Sample runs\<close>

text \<open>The sample run of the store, as a run at this grain.\<close>

definition ms_of_sys :: "'t sys \<Rightarrow> 't ms" where
  "ms_of_sys s = \<lparr>ms_db = sy_db s, ms_live = sy_txns s, ms_todo = Map.empty, ms_check = Map.empty, ms_flushed = [], ms_committed = Map.empty\<rparr>"

lemma ms_of_sys_begin:
  "nextTransactionId (db_tm (sy_db s)) + 1 \<noteq> 0 \<Longrightarrow> ms_step bt rngA rngW rngM (ms_of_sys s) (ms_of_sys (sys_begin s))"
  using ms_step.begin_txn [of "ms_of_sys s" "fst (db_Begin (sy_db s))" "snd (db_Begin (sy_db s))" bt rngA rngW rngM]
  by (simp add: ms_of_sys_def sys_begin_def split_beta)

lemma ms_of_sys_put:
  assumes "sy_txns s i = Some txn"
  shows "ms_step bt rngA rngW rngM (ms_of_sys s) (ms_of_sys (sys_put i k v s))"
proof -
  obtain r txn' db where p: "txn_Put txn (sy_db s) k v = (r, txn', db)" by (metis prod_cases3)
  from ms_step.put [of "ms_of_sys s" i txn k v r txn' db bt rngA rngW rngM] assms p show ?thesis
    by (simp add: ms_of_sys_def sys_put_def)
qed

lemma sample_ms_run: "ms_run list_btree rngA0 sorted_range sorted_range (ms_of (sy_db sample_sys0)) (ms_of_sys sample_sys)"
proof -
  let ?step = "ms_step list_btree rngA0 sorted_range sorted_range"
  have 0: "ms_of (sy_db sample_sys0) = ms_of_sys sample_sys0" by (simp add: ms_of_def ms_of_sys_def sample_sys0_def sys_init_def)
  have 1: "?step (ms_of_sys sample_sys0) (ms_of_sys (sys_begin sample_sys0))"
    by (rule ms_of_sys_begin) (simp add: sample_defs)
  have 2: "?step (ms_of_sys (sys_begin sample_sys0)) (ms_of_sys (sys_begin (sys_begin sample_sys0)))"
    by (rule ms_of_sys_begin) (simp add: sample_defs)
  have "\<exists>txn. sy_txns (sys_begin (sys_begin sample_sys0)) 1 = Some txn" by (simp add: sample_defs)
  then have 3: "?step (ms_of_sys (sys_begin (sys_begin sample_sys0))) (ms_of_sys sample_sys)"
    unfolding sample_sys_def using ms_of_sys_put by blast
  show ?thesis
    unfolding 0 by (rule rtranclp.rtrancl_into_rtrancl [OF rtranclp.rtrancl_into_rtrancl [OF r_into_rtranclp [of ?step]]]) (rule 1 2 3)+
qed

lemma sample_ms: "ms_live (ms_of_sys sample_sys) 1 = Some sample_txn" "txn_id sample_txn = 1" "ms_todo (ms_of_sys sample_sys) 1 = None"
  "ms_check (ms_of_sys sample_sys) 1 = None"
  by (simp_all add: ms_of_sys_def sample_txns sample_txn_def)

lemma sample_ms_commit:
  obtains bnd where "txn_Commit list_btree rngA0 sorted_range sorted_range IoOk sample_txn (ms_db (ms_of_sys sample_sys)) =
    (Ok bnd, ended sample_txn, (committed list_btree sorted_range sorted_range sample_txn (sy_db sample_sys))
       \<lparr>db_tm := tm_end sample_txn (db_tm (sy_db sample_sys))\<rparr>)"
  using commit_result(1) [OF sample_runtime sample_sys_reachable sample_txns(1) sample_commit_fits, of rngA0]
  by (auto simp: ms_of_sys_def)

theorem reads_only_complete_commits_witness:
  "\<exists>s. ms_run list_btree rngA0 sorted_range sorted_range (ms_of (sy_db sample_sys0)) s \<and>
    Memtable_Get list_btree (db_memTable (ms_db s)) ''k'' 3 {2, 3} = (''v'', True) \<and>
    (\<exists>i m. ms_committed s i = Some m \<and> m ''k'' = Some ''v'' \<and> i < 3)"
proof -
  let ?run = "ms_run list_btree rngA0 sorted_range sorted_range" and ?mem = "committed_memtable list_btree sorted_range sample_txn (sy_db sample_sys)"
  let ?db = "(committed list_btree sorted_range sorted_range sample_txn (sy_db sample_sys))\<lparr>db_tm := tm_end sample_txn (db_tm (sy_db sample_sys))\<rparr>"
  obtain bnd where c: "txn_Commit list_btree rngA0 sorted_range sorted_range IoOk sample_txn (ms_db (ms_of_sys sample_sys)) = (Ok bnd, ended sample_txn, ?db)"
    by (rule sample_ms_commit)
  obtain s :: "entry_tree ms" where s: "?run (ms_of_sys sample_sys) s" "ms_db s = ?db" "ms_todo s = Map.empty"
    by (rule that, rule commit_run [OF sample_ms c]) (simp_all add: ms_of_sys_def)
  have nf: "\<not> ShouldFlush ?mem"
    by (simp add: ShouldFlush_def committed_memtable_def sample_defs commit_puts_def sample_txn_def
        Memtable_Put_def NewMemtable_def memtableSizeLimit_def sorted_range_def)
  have tm: "nextTransactionId (db_tm (ms_db s)) = 3" "activeTransactionsMap (db_tm (ms_db s)) = {2}"
    using sample_tm(2) by (auto simp: s(2) tm_end_def sample_txn_def) (simp add: sample_defs)
  let ?r = "new_txn (db_tm (ms_db s))"
  let ?s' = "s\<lparr>ms_db := (ms_db s)\<lparr>db_tm := tm_begin (db_tm (ms_db s))\<rparr>, ms_live := (ms_live s)(txn_id ?r \<mapsto> ?r)\<rparr>"
  have step: "ms_step list_btree rngA0 sorted_range sorted_range s ?s'"
    by (rule ms_step.begin_txn) (simp_all add: tm db_Begin_eq)
  have r: "txn_id ?r = 3" "activeTransactionsSnapshot ?r = {2, 3}" by (auto simp: new_txn_def tm)
  have run: "?run (ms_of (sy_db sample_sys0)) ?s'"
    by (rule rtranclp.rtrancl_into_rtrancl [OF rtranclp_trans [OF sample_ms_run s(1)] step])
  have mem: "db_memTable (ms_db ?s') = ?mem" using nf by (simp add: s(2) committed_def Let_def)
  have "mt_entries list_btree (db_memTable (sy_db sample_sys)) = []" by (simp add: sample_defs mt_entries_def NewMemtable_def)
  then have "set (mt_entries list_btree ?mem) = writes_of sample_txn"
    by (subst committed_entries [OF list_btree_ok sorted_range_order]) (simp_all add: sample_txn_def)
  also have "\<dots> = {mk_entry ''k'' ''v'' 1}" by (auto simp: writes_of_def sample_txn_def split: if_splits)
  finally have "latest_version ''k'' 3 {2, 3} (mt_entries list_btree ?mem) = Some (mk_entry ''k'' ''v'' 1)"
    by (intro latest_versionI [OF ordered_unique [OF mt_entries_ordered [OF list_btree_ok]]]) (auto simp: visible_def)
  then have get: "Memtable_Get list_btree (db_memTable (ms_db ?s')) ''k'' 3 {2, 3} = (''v'', True)"
    unfolding mem by (simp add: Memtable_Get_eq [OF list_btree_ok])
  have init: "mt_entries list_btree (db_memTable (sy_db sample_sys0)) = []"
    "db_tm (sy_db sample_sys0) = \<lparr>nextTransactionId = 1, keyVsLocksAcquiredMap = Map.empty, activeTransactionsMap = {}\<rparr>"
    by (simp_all add: sample_sys0_def sys_init_def mt_entries_def NewMemtable_def)
  have "ms_live ?s' 3 = Some ?r" "ms_todo ?s' 3 = None" by (simp_all add: r(1) s(3))
  from reads_only_complete_commits [OF list_btree_ok sorted_range_order init run this get [folded r]]
  show ?thesis using run get by blast
qed

text \<open>A transaction with two writes, between which the flush runs.\<close>

definition two_writes :: Transaction where
  "two_writes = \<lparr>txn_id = 1, bufferedWriteMap = [''a'' \<mapsto> ''1'', ''b'' \<mapsto> ''2''], lockAcquiredKeys = [''a'', ''b''],
     activeTransactionsSnapshot = {1}\<rparr>"

definition two_writes_ms :: "entry_tree ms" where
  "two_writes_ms = (ms_of (sy_db (sys_init list_btree ''d'' 100)))
     \<lparr>ms_db := (sy_db (sys_init list_btree ''d'' 100))\<lparr>db_tm := \<lparr>nextTransactionId = 2,
        keyVsLocksAcquiredMap = [''a'' \<mapsto> \<lparr>writerTxnId = 1, readerTxnIds = []\<rparr>, ''b'' \<mapsto> \<lparr>writerTxnId = 1, readerTxnIds = []\<rparr>],
        activeTransactionsMap = {1}\<rparr>\<rparr>,
      ms_live := [1 \<mapsto> two_writes]\<rparr>"

theorem flush_tears_commit_witness:
  "\<exists>s'. ms_run list_btree rngA0 sorted_range sorted_range two_writes_ms s' \<and>
    ms_committed s' 1 = Some [''a'' \<mapsto> ''1'', ''b'' \<mapsto> ''2''] \<and> ms_flushed s' = [mk_entry ''a'' ''1'' 1] \<and>
    fst (buildMemtableFromWal list_btree (openWal (f_content (wal_file (db_wal (ms_db s')))))) = Ok (NewMemtable list_btree, 0)"
proof -
  have live: "ms_live two_writes_ms 1 = Some two_writes" "txn_id two_writes = 1" "ms_todo two_writes_ms 1 = None" "ms_check two_writes_ms 1 = None"
    "owns_locks two_writes (db_tm (ms_db two_writes_ms))"
    by (simp_all add: two_writes_ms_def ms_of_def two_writes_def owns_locks_def holder_def)
  have "sorted_range (bufferedWriteMap two_writes) = [(''a'', ''1'')] @ [(''b'', ''2'')]"
    by (auto simp: sorted_range_def two_writes_def)
  moreover have "\<not> ShouldFlush (Memtable_Puts list_btree (Memtable_Clear list_btree m) (commit_puts (1, [(''b'', ''2'')])))" for m
    by (simp add: ShouldFlush_def Memtable_Puts_def commit_puts_def Memtable_Put_def Memtable_Clear_def memtableSizeLimit_def)
  ultimately have "\<exists>s'. ms_run list_btree rngA0 sorted_range sorted_range two_writes_ms s' \<and>
      ms_committed s' 1 = Some (bufferedWriteMap two_writes) \<and>
      ms_flushed s' = ms_flushed two_writes_ms @ mt_entries list_btree (Memtable_Puts list_btree (db_memTable (ms_db two_writes_ms)) (commit_puts (1, [(''a'', ''1'')]))) \<and>
      fst (buildMemtableFromWal list_btree (openWal (f_content (wal_file (db_wal (ms_db s')))))) = Ok (NewMemtable list_btree, 0)"
    by (rule flush_tears_commit [OF live])
  then
  obtain s' where
    s': "ms_run list_btree rngA0 sorted_range sorted_range two_writes_ms s'" "ms_committed s' 1 = Some (bufferedWriteMap two_writes)"
    "ms_flushed s' = ms_flushed two_writes_ms @ mt_entries list_btree (Memtable_Puts list_btree (db_memTable (ms_db two_writes_ms)) (commit_puts (1, [(''a'', ''1'')])))"
    "fst (buildMemtableFromWal list_btree (openWal (f_content (wal_file (db_wal (ms_db s')))))) = Ok (NewMemtable list_btree, 0)" by blast
  moreover have "mt_entries list_btree (Memtable_Puts list_btree (NewMemtable list_btree) [(''a'', ''1'', 1)]) = [mk_entry ''a'' ''1'' 1]"
  proof -
    have "set (mt_entries list_btree (Memtable_Put list_btree (NewMemtable list_btree) ''a'' ''1'' 1)) = {mk_entry ''a'' ''1'' 1}"
      by (simp add: set_mt_entries_Put [OF list_btree_ok]) (simp add: mt_entries_def NewMemtable_def)
    moreover have "distinct (mt_entries list_btree (Memtable_Put list_btree (NewMemtable list_btree) ''a'' ''1'' 1))"
      by (rule ordered_distinct [OF mt_entries_ordered [OF list_btree_ok]])
    ultimately have "mt_entries list_btree (Memtable_Put list_btree (NewMemtable list_btree) ''a'' ''1'' 1) = [mk_entry ''a'' ''1'' 1]"
      by (cases "mt_entries list_btree (Memtable_Put list_btree (NewMemtable list_btree) ''a'' ''1'' 1)")
        (simp_all, metis insert_iff list.set_intros(1) neq_Nil_conv singletonD subset_singletonD set_empty2)
    then show ?thesis by (simp add: Memtable_Puts_def)
  qed
  ultimately show ?thesis
    by (intro exI [of _ s']) (simp add: two_writes_def two_writes_ms_def ms_of_def sys_init_def commit_puts_def)
qed

end
