(* ===== verification/CompactionRace.thy ===== *)
theory CompactionRace
  imports TableSteps
begin

text \<open>
  Two compactions at a time. \<open>flushMemtableToSsTable\<close> tests \<open>ShouldRunCompaction\<close> and then starts a goroutine, which sets
  \<open>compacting\<close> when it is scheduled: a second flush in between starts a second goroutine. The relation here has any number
  of them, each with its own phase. When the second one takes a file that the first one did not, the two swaps leave
  the merged files in the wrong order, and a lookup returns a value that was overwritten.
\<close>

section \<open>Steps\<close>

text \<open>\<open>rc_pending\<close>: the bounds of the goroutines that are started and have not run yet; \<open>rc_running\<close>: the phases of the others.\<close>

record race_state =
  rc_st :: SsTable
  rc_d :: disk
  rc_pending :: "u64 list"
  rc_running :: "phase list"
  rc_hist :: "Entry list"

definition race_init :: "string \<Rightarrow> int \<Rightarrow> race_state" where
  "race_init dir bl =
     \<lparr>rc_st = (table_of dir [])\<lparr>blockLength := bl\<rparr>, rc_d = disk_of dir [], rc_pending = [], rc_running = [], rc_hist = []\<rparr>"

inductive race_step ::
  "((string \<rightharpoonup> valueTxnId) \<Rightarrow> (string \<times> valueTxnId) list) \<Rightarrow> race_state \<Rightarrow> race_state \<Rightarrow> bool"
  for rng where
  flush: "\<lbrakk>flushable (rc_hist s) es; write_entries (rc_st s, rc_d s) (calls_of es) = (st, d)\<rbrakk> \<Longrightarrow>
    race_step rng s (s\<lparr>rc_st := st, rc_d := d,
      rc_pending := (if ShouldRunCompaction st then rc_pending s @ [lim] else rc_pending s), rc_hist := rc_hist s @ es\<rparr>)"
| start: "\<lbrakk>rc_pending s = lims1 @ lim # lims2; compaction_start (rc_st s) = (st, fs)\<rbrakk> \<Longrightarrow>
    race_step rng s (s\<lparr>rc_st := st, rc_pending := lims1 @ lims2, rc_running := rc_running s @ [Collecting fs lim]\<rparr>)"
| merge: "\<lbrakk>rc_running s = ps @ Collecting fs lim # qs;
    compaction_write rng lim (rc_st s) (rc_d s) fs = Ok (f, off, ib, st, d)\<rbrakk> \<Longrightarrow>
    race_step rng s (s\<lparr>rc_st := st, rc_d := d, rc_running := ps @ Written fs f off ib # qs\<rparr>)"
| finish: "\<lbrakk>rc_running s = ps @ Written fs f off ib # qs;
    compaction_finish (rc_st s) (rc_d s) f fs ib off = (st, d)\<rbrakk> \<Longrightarrow>
    race_step rng s (s\<lparr>rc_st := st, rc_d := d, rc_running := ps @ qs\<rparr>)"

abbreviation race_run ::
  "((string \<rightharpoonup> valueTxnId) \<Rightarrow> (string \<times> valueTxnId) list) \<Rightarrow> race_state \<Rightarrow> race_state \<Rightarrow> bool" where
  "race_run rng \<equiv> (race_step rng)\<^sup>*\<^sup>*"

section \<open>Flushes\<close>



lemma ShouldRun_iff: "sst_inv st d tfs \<Longrightarrow> ShouldRunCompaction st \<longleftrightarrow> \<not> compacting st \<and> 4 \<le> length tfs"
  by (simp add: ShouldRunCompaction_def sst_inv_def)

lemma race_flush:
  assumes inv: "sst_inv (rc_st s) (rc_d s) tfs" and fl: "flushable (rc_hist s) es"
  shows "\<exists>st d tf. race_step rng s (s\<lparr>rc_st := st, rc_d := d,
      rc_pending := (if \<not> compacting (rc_st s) \<and> 3 \<le> length tfs then rc_pending s @ [lim] else rc_pending s),
      rc_hist := rc_hist s @ es\<rparr>) \<and>
    sst_inv st d (tfs @ [tf]) \<and> tf_entries tf = es \<and> compacting st = compacting (rc_st s)"
proof -
  obtain st d where w: "write_entries (rc_st s, rc_d s) (calls_of es) = (st, d)" by fastforce
  let ?tf = "new_file (rc_st s) (ssTableFilePath (dataFilesDirectory (rc_st s)) (NextFileId (st_manifest (rc_st s)))) es"
  have "2 * length (enc_entries es) + 4 < 2 ^ 32" using fl by (simp add: flushable_def)
  then have inv': "sst_inv st d (tfs @ [?tf])"
    using write_entries_inv [OF inv, of es] fl w by (simp add: flushable_def)
  have c: "compacting st = compacting (rc_st s)" by (rule write_entries_config(1) [OF w])
  have "ShouldRunCompaction st \<longleftrightarrow> \<not> compacting (rc_st s) \<and> 3 \<le> length tfs"
    using ShouldRun_iff [OF inv'] c by auto
  with race_step.flush [OF fl w, of rng lim] inv' c show ?thesis
    by (intro exI [of _ st] exI [of _ d] exI [of _ ?tf]) simp
qed

fun flushable_seq :: "Entry list \<Rightarrow> Entry list list \<Rightarrow> bool" where
  "flushable_seq hist [] \<longleftrightarrow> True"
| "flushable_seq hist (es # ess) \<longleftrightarrow> flushable hist es \<and> flushable_seq (hist @ es) ess"

text \<open>Flushes one after the other, before any goroutine is scheduled: from the fourth file on, each starts one.\<close>

lemma race_flushes:
  assumes "sst_inv (rc_st s) (rc_d s) tfs" "\<not> compacting (rc_st s)" "flushable_seq (rc_hist s) ess"
  shows "\<exists>s' tfs'. race_run rng s s' \<and> sst_inv (rc_st s') (rc_d s') tfs' \<and> \<not> compacting (rc_st s') \<and>
    all_entries tfs' = all_entries tfs @ concat ess \<and> length tfs' = length tfs + length ess \<and>
    rc_hist s' = rc_hist s @ concat ess \<and> rc_running s' = rc_running s \<and>
    rc_pending s' = rc_pending s @ replicate (length tfs + length ess - max (length tfs) 3) lim"
  using assms
proof (induction ess arbitrary: s tfs)
  case Nil
  then show ?case by (intro exI [of _ s] exI [of _ tfs]) simp
next
  case (Cons es ess)
  from race_flush [OF Cons.prems(1), of es rng lim] Cons.prems(3) obtain st d tf where
    step: "race_step rng s (s\<lparr>rc_st := st, rc_d := d,
      rc_pending := (if \<not> compacting (rc_st s) \<and> 3 \<le> length tfs then rc_pending s @ [lim] else rc_pending s),
      rc_hist := rc_hist s @ es\<rparr>)" (is "race_step rng s ?s1")
    and tf: "sst_inv st d (tfs @ [tf])" "tf_entries tf = es" "compacting st = compacting (rc_st s)" by auto
  have "\<exists>s' tfs'. race_run rng ?s1 s' \<and> sst_inv (rc_st s') (rc_d s') tfs' \<and> \<not> compacting (rc_st s') \<and>
      all_entries tfs' = all_entries (tfs @ [tf]) @ concat ess \<and> length tfs' = length (tfs @ [tf]) + length ess \<and>
      rc_hist s' = rc_hist ?s1 @ concat ess \<and> rc_running s' = rc_running ?s1 \<and>
      rc_pending s' = rc_pending ?s1 @ replicate (length (tfs @ [tf]) + length ess - max (length (tfs @ [tf])) 3) lim"
    by (rule Cons.IH) (use Cons.prems tf in simp_all)
  then obtain s' tfs' where r: "race_run rng ?s1 s'" "sst_inv (rc_st s') (rc_d s') tfs'" "\<not> compacting (rc_st s')"
    "all_entries tfs' = all_entries (tfs @ [tf]) @ concat ess" "length tfs' = length (tfs @ [tf]) + length ess"
    "rc_hist s' = rc_hist ?s1 @ concat ess" "rc_running s' = rc_running ?s1"
    "rc_pending s' = rc_pending ?s1 @ replicate (length (tfs @ [tf]) + length ess - max (length (tfs @ [tf])) 3) lim" by blast
  have pending: "rc_pending s' = rc_pending s @ replicate (length tfs + length (es # ess) - max (length tfs) 3) lim"
  proof (cases "3 \<le> length tfs")
    case True
    then have "length (tfs @ [tf]) + length ess - max (length (tfs @ [tf])) 3 = length ess"
      "length tfs + length (es # ess) - max (length tfs) 3 = Suc (length ess)" by simp_all
    with True Cons.prems(2) show ?thesis by (simp add: r(8))
  next
    case False
    then have "length (tfs @ [tf]) + length ess - max (length (tfs @ [tf])) 3 = length tfs + length (es # ess) - max (length tfs) 3"
      by simp
    with False show ?thesis by (simp add: r(8))
  qed
  show ?case
    by (intro exI [of _ s'] exI [of _ tfs'] conjI converse_rtranclp_into_rtranclp [OF step r(1)] r(2,3) pending)
      (simp_all add: r(4-7) tf(2))
qed

section \<open>Two overlapping merges\<close>

lemma writeToFile_frame: "writeToFile st d f calls = (x, y, d') \<Longrightarrow> g \<noteq> f \<Longrightarrow> d_files d' g = d_files d g"
  by (auto simp: writeToFile_def append_file_def Let_def split: prod.splits)

lemma compaction_write_frame:
  assumes "sst_inv st d tfs" "compaction_write rng lim st d fs = Ok (f, off, ib, st', d')" "file_ok d c"
  shows "file_ok d' c" "tf_name c \<noteq> f"
proof -
  obtain g st1 d1 where new: "NewFile st d = (g, st1, d1)" by (metis prod_cases3)
  note nf = NewFile_fresh(1,3) [OF assms(1) new]
  obtain es where es: "buildCompactedEntries rng d fs lim = Ok es"
    using assms(2) by (auto simp: compaction_write_def rbind_Ok_iff)
  obtain x y d2 where w: "writeToFile st1 d1 g (map (\<lambda>e. (Key e, Value e, TxnId e)) (sortedSsTableEntries es)) = (x, y, d2)"
    by (rule prod_cases3)
  have out: "g = f" "d2 = d'"
    using assms(2) by (simp_all add: compaction_write_def es new w Let_def)
  have "d_files d g = None" using assms(1) nf(1) by (simp add: sst_inv_def)
  then show ne: "tf_name c \<noteq> f" using assms(3) out by (auto simp: file_ok_def)
  have "d_files d2 (tf_name c) = d_files d (tf_name c)"
    using writeToFile_frame [OF w] nf(2) ne out(1) by simp
  with assms(3) out show "file_ok d' c" by (simp add: file_ok_def)
qed

lemma fits_compacted:
  assumes "unique_versions (all_entries olds)" "2 * length (enc_entries (all_entries olds)) + 4 < 2 ^ 32"
  shows "compacted_fits lim olds"
proof -
  have "length (enc_entries (compacted lim (all_entries olds))) \<le> length (enc_entries (all_entries olds))"
    using ordered_distinct [OF compacted_ordered [OF assms(1)]] by (intro length_enc_entries_mono) auto
  with assms(2) show ?thesis by (simp add: compacted_fits_def)
qed

text \<open>
  Both goroutines merge before either swaps. The second swap puts its file first, in front of that of the first one,
  although it holds the newer versions.
\<close>

text \<open>A merge that has written its file.\<close>

abbreviation written_as :: "string list \<Rightarrow> table_file \<Rightarrow> phase" where
  "written_as fs c \<equiv> Written fs (tf_name c) (tf_offset c) (tf_index c)"

lemma overlapping_merges:
  assumes rng: "range_order rng" and inv: "sst_inv (rc_st s) (rc_d s) (olds @ newer)"
    and uni: "unique_versions (all_entries (olds @ newer))" and size: "2 * length (enc_entries (all_entries (olds @ newer))) + 4 < 2 ^ 32"
  defines "f1 \<equiv> map tf_name olds" and "f2 \<equiv> map tf_name (olds @ newer)"
  assumes running: "rc_running s = [Collecting f1 l1, Collecting f2 l2]"
  obtains st d c1 c2 where "race_run rng s (s\<lparr>rc_st := st, rc_d := d, rc_running := [written_as f1 c1, written_as f2 c2]\<rparr>)"
    "sst_inv st d (olds @ newer)" "file_ok d c1" "file_ok d c2" "tf_name c1 \<notin> set f2" "tf_name c2 \<notin> set f2" "tf_name c1 \<noteq> tf_name c2"
    "tf_entries c1 = compacted l1 (all_entries olds)" "tf_entries c2 = compacted l2 (all_entries (olds @ newer))"
proof -
  have uni1: "unique_versions (all_entries olds)" and size1: "2 * length (enc_entries (all_entries olds)) + 4 < 2 ^ 32"
    using uni size by (simp_all add: unique_versions_append)
  obtain c1 st1 d1 where m1: "compaction_write rng l1 (rc_st s) (rc_d s) f1 = Ok (tf_name c1, tf_offset c1, tf_index c1, st1, d1)"
    "tf_entries c1 = compacted l1 (all_entries olds)" "sst_inv st1 d1 (olds @ newer)" "file_ok d1 c1" "tf_name c1 \<notin> set f2"
    using compaction_write_inv [OF inv uni1 rng fits_compacted [OF uni1 size1], folded f1_def f2_def] by metis
  have inv1: "sst_inv st1 d1 ((olds @ newer) @ [])" using m1(3) by simp
  obtain c2 st2 d2 where m2: "compaction_write rng l2 st1 d1 f2 = Ok (tf_name c2, tf_offset c2, tf_index c2, st2, d2)"
    "tf_entries c2 = compacted l2 (all_entries (olds @ newer))" "sst_inv st2 d2 (olds @ newer)" "file_ok d2 c2" "tf_name c2 \<notin> set f2"
    using compaction_write_inv [OF inv1 uni rng fits_compacted [OF uni size], folded f2_def] by (metis append_Nil2 f2_def)
  let ?s1 = "s\<lparr>rc_st := st1, rc_d := d1, rc_running := [written_as f1 c1, Collecting f2 l2]\<rparr>"
  have "race_run rng s ?s1"
    using race_step.merge [of s "[]" f1 l1 "[Collecting f2 l2]"] running m1(1) by (simp add: r_into_rtranclp)
  also have "race_step rng ?s1 (s\<lparr>rc_st := st2, rc_d := d2, rc_running := [written_as f1 c1, written_as f2 c2]\<rparr>)"
    using race_step.merge [of ?s1 "[written_as f1 c1]" f2 l2 "[]"] m2(1) by simp
  finally have "race_run rng s (s\<lparr>rc_st := st2, rc_d := d2, rc_running := [written_as f1 c1, written_as f2 c2]\<rparr>)" .
  with compaction_write_frame [OF m1(3) m2(1) m1(4)] m1(2,5) m2(2-5) show thesis by (intro that)
qed

lemma overlapping_swaps:
  assumes inv: "sst_inv (rc_st s) (rc_d s) (olds @ newer)" and ok: "file_ok (rc_d s) c1" "file_ok (rc_d s) c2"
  defines "f1 \<equiv> map tf_name olds" and "f2 \<equiv> map tf_name (olds @ newer)"
  assumes names: "tf_name c1 \<notin> set f2" "tf_name c2 \<notin> set f2" "tf_name c1 \<noteq> tf_name c2"
    and running: "rc_running s = [written_as f1 c1, written_as f2 c2]"
  obtains st d where "race_run rng s (s\<lparr>rc_st := st, rc_d := d, rc_running := []\<rparr>)" "sst_inv st d [c2, c1]"
proof -
  obtain st1 d1 where fin1: "compaction_finish (rc_st s) (rc_d s) (tf_name c1) f1 (tf_index c1) (tf_offset c1) = (st1, d1)" by fastforce
  have "tf_name c1 \<notin> set (map tf_name (olds @ newer))" "tf_name c1 \<notin> set f1" using names(1) by (simp_all add: f1_def f2_def)
  note r1 = compaction_finish_files [OF inv ok(1) this fin1]
  have "filter (\<lambda>tf. tf_name tf \<notin> set f1) (olds @ newer) = newer"
    using inv by (auto simp: f1_def sst_inv_def filter_empty_conv filter_id_conv disjoint_iff)
  with r1(1) have inv1: "sst_inv st1 d1 (c1 # newer)" by simp
  have ok1: "file_ok d1 c2" using ok(2) names(2) r1(3) by (auto simp: file_ok_def restrict_map_def f1_def f2_def)
  obtain st2 d2 where fin2: "compaction_finish st1 d1 (tf_name c2) f2 (tf_index c2) (tf_offset c2) = (st2, d2)" by fastforce
  have "tf_name c2 \<notin> set (map tf_name (c1 # newer))" using names by (auto simp: f2_def)
  note r2 = compaction_finish_files [OF inv1 ok1 this names(2) fin2]
  have "filter (\<lambda>tf. tf_name tf \<notin> set f2) (c1 # newer) = [c1]"
    using names(1) by (auto simp: filter_empty_conv f2_def)
  with r2(1) have inv2: "sst_inv st2 d2 [c2, c1]" by simp
  let ?s1 = "s\<lparr>rc_st := st1, rc_d := d1, rc_running := [written_as f2 c2]\<rparr>"
  have "race_run rng s ?s1"
    using race_step.finish [of s "[]" f1 "tf_name c1"] running fin1 by (simp add: r_into_rtranclp)
  also have "race_step rng ?s1 (s\<lparr>rc_st := st2, rc_d := d2, rc_running := []\<rparr>)"
    using race_step.finish [of ?s1 "[]" f2 "tf_name c2" "tf_offset c2" "tf_index c2" "[]"] fin2 by simp
  finally have "race_run rng s (s\<lparr>rc_st := st2, rc_d := d2, rc_running := []\<rparr>)" .
  then show thesis using inv2 by (rule that)
qed

section \<open>The write that is hidden\<close>

definition early_flushes :: "Entry list list" where
  "early_flushes = [[mk_entry ''k'' ''old'' 1], [mk_entry ''a'' ''1'' 2], [mk_entry ''b'' ''1'' 3],
     [mk_entry ''c'' ''1'' 4], [mk_entry ''d'' ''1'' 5]]"

definition late_flush :: "Entry list" where
  "late_flush = [mk_entry ''k'' ''new'' 6]"

lemma early_flushable: "flushable_seq [] early_flushes" "flushable (concat early_flushes) late_flush"
  by (simp_all add: early_flushes_def late_flush_def flushable_def unique_versions_def version_of_def length_enc_entry)

lemma sst_inv_compacting: "sst_inv st d tfs \<Longrightarrow> sst_inv (st\<lparr>compacting := b\<rparr>) d tfs"
  by (simp add: sst_inv_def)

lemma two_goroutines:
  assumes "range_order rng"
  obtains s olds new where "race_run rng (race_init ''d'' 100) s" "sst_inv (rc_st s) (rc_d s) (olds @ [new])"
    "all_entries olds = concat early_flushes" "tf_entries new = late_flush" "rc_hist s = concat early_flushes @ late_flush"
    "rc_pending s = []" "rc_running s = [Collecting (map tf_name olds) (- 1), Collecting (map tf_name (olds @ [new])) (- 1)]"
proof -
  have "sst_inv (rc_st (race_init ''d'' 100)) (rc_d (race_init ''d'' 100)) []" "\<not> compacting (rc_st (race_init ''d'' 100))"
    by (simp_all add: race_init_def sst_inv_def table_of_def disk_of_def)
  from race_flushes [OF this, of early_flushes rng "- 1"] early_flushable(1) obtain s1 olds where
    1: "race_run rng (race_init ''d'' 100) s1" "sst_inv (rc_st s1) (rc_d s1) olds" "all_entries olds = concat early_flushes"
    "rc_hist s1 = concat early_flushes" "rc_running s1 = []" "rc_pending s1 = [- 1, - 1]"
    by (auto simp: race_init_def early_flushes_def numeral_eq_Suc)
  have files: "firstLevelFiles (rc_st s1) = map tf_name olds" using 1(2) by (simp add: sst_inv_def)
  let ?s2 = "s1\<lparr>rc_st := (rc_st s1)\<lparr>compacting := True\<rparr>, rc_pending := [- 1], rc_running := [Collecting (map tf_name olds) (- 1)]\<rparr>"
  have 2: "race_step rng s1 ?s2"
    using race_step.start [of s1 "[]" "- 1" "[- 1]" "(rc_st s1)\<lparr>compacting := True\<rparr>" "map tf_name olds" rng] 1(5,6)
    by (simp add: compaction_start_def files)
  have "sst_inv (rc_st ?s2) (rc_d ?s2) olds" "flushable (rc_hist ?s2) late_flush"
    using sst_inv_compacting [OF 1(2)] early_flushable(2) 1(4) by simp_all
  from race_flush [OF this, of rng "- 1"] obtain st d new where
    3: "race_step rng ?s2 (?s2\<lparr>rc_st := st, rc_d := d, rc_pending := [- 1], rc_hist := concat early_flushes @ late_flush\<rparr>)"
    "sst_inv st d (olds @ [new])" "tf_entries new = late_flush" by (auto simp: 1(4))
  let ?s3 = "?s2\<lparr>rc_st := st, rc_d := d, rc_pending := [- 1], rc_hist := concat early_flushes @ late_flush\<rparr>"
  let ?s4 = "?s3\<lparr>rc_st := st\<lparr>compacting := True\<rparr>, rc_pending := [],
    rc_running := [Collecting (map tf_name olds) (- 1), Collecting (map tf_name (olds @ [new])) (- 1)]\<rparr>"
  have "firstLevelFiles st = map tf_name (olds @ [new])" using 3(2) by (simp add: sst_inv_def)
  then have 4: "race_step rng ?s3 ?s4"
    using race_step.start [of ?s3 "[]" "- 1" "[]" "st\<lparr>compacting := True\<rparr>" "map tf_name (olds @ [new])" rng]
    by (simp add: compaction_start_def)
  have "race_run rng (race_init ''d'' 100) ?s4"
    using 1(1) 2 3(1) 4 by (meson rtranclp.rtrancl_into_rtrancl)
  then show thesis
    by (rule that) (use sst_inv_compacting [OF 3(2)] 1(3) 3(3) in simp_all)
qed



end
