(* ===== verification/Tokeniser.thy ===== *)
theory Tokeniser
  imports Prelude
begin

text \<open>
  The tokeniser of \<open>sql_parser/tokeniser.go\<close>. It works on the code points of the query
  (\<open>[]rune(input)\<close>), so Go's UTF-8 decoding and encoding are written out; of the Unicode tables of
  package \<open>unicode\<close> the ASCII part is written out and the rest is a parameter.
\<close>

section \<open>Runes\<close>

type_synonym rune = nat

text \<open>The classes of the code points from 128 on.\<close>

record unicode =
  uni_space :: "rune \<Rightarrow> bool"
  uni_digit :: "rune \<Rightarrow> bool"
  uni_letter :: "rune \<Rightarrow> bool"
  uni_upper :: "rune \<Rightarrow> rune"

definition IsSpace :: "unicode \<Rightarrow> rune \<Rightarrow> bool" where
  "IsSpace u r = (if r < 128 then 9 \<le> r \<and> r \<le> 13 \<or> r = 32 else uni_space u r)"

definition IsDigit :: "unicode \<Rightarrow> rune \<Rightarrow> bool" where
  "IsDigit u r = (if r < 128 then 48 \<le> r \<and> r \<le> 57 else uni_digit u r)"

definition IsLetter :: "unicode \<Rightarrow> rune \<Rightarrow> bool" where
  "IsLetter u r = (if r < 128 then 65 \<le> r \<and> r \<le> 90 \<or> 97 \<le> r \<and> r \<le> 122 else uni_letter u r)"

definition ToUpper :: "unicode \<Rightarrow> rune list \<Rightarrow> rune list" where
  "ToUpper u = map (\<lambda>r. if r < 128 then (if 97 \<le> r \<and> r \<le> 122 then r - 32 else r) else uni_upper u r)"

text \<open>
  \<open>[]rune(s)\<close>: UTF-8 with the restrictions on overlong forms, surrogates and the largest code point;
  a byte that does not begin a valid sequence becomes U+FFFD.
\<close>

definition runeError :: rune where
  "runeError = 65533"

definition utf8_first :: "nat \<Rightarrow> (nat \<times> nat \<times> nat) option" where
  "utf8_first b =
     (if 194 \<le> b \<and> b \<le> 223 then Some (1, 128, 191)
      else if b = 224 then Some (2, 160, 191)
      else if b = 237 then Some (2, 128, 159)
      else if 225 \<le> b \<and> b \<le> 239 then Some (2, 128, 191)
      else if b = 240 then Some (3, 144, 191)
      else if 241 \<le> b \<and> b \<le> 243 then Some (3, 128, 191)
      else if b = 244 then Some (3, 128, 143)
      else None)"

text \<open>The rune at the beginning of a non-empty byte list, and the number of bytes it takes.\<close>

definition decode_rune :: "nat list \<Rightarrow> rune \<times> nat" where
  "decode_rune bs =
     (let b = hd bs in
      if b < 128 then (b, 1)
      else case utf8_first b of
        None \<Rightarrow> (runeError, 1)
      | Some (n, lo, hi) \<Rightarrow>
          let cs = take n (tl bs) in
          if length cs = n \<and> lo \<le> hd cs \<and> hd cs \<le> hi \<and> (\<forall>c \<in> set (tl cs). 128 \<le> c \<and> c \<le> 191)
          then (foldl (\<lambda>r c. 64 * r + c mod 64) (b mod 2 ^ (6 - n)) cs, n + 1)
          else (runeError, 1))"

function decode_runes :: "nat list \<Rightarrow> rune list" where
  "decode_runes bs = (if bs = [] then [] else let (r, n) = decode_rune bs in r # decode_runes (drop n bs))"
  by pat_completeness auto
termination
  by (relation "measure length")
    (auto simp: decode_rune_def Let_def neq_Nil_conv split: if_splits option.splits)

declare decode_runes.simps [simp del]

definition runes_of :: "string \<Rightarrow> rune list" where
  "runes_of s = decode_runes (map of_char s)"

text \<open>\<open>string(runes)\<close>.\<close>

definition encode_rune :: "rune \<Rightarrow> nat list" where
  "encode_rune r =
     (let r = (if 55296 \<le> r \<and> r \<le> 57343 \<or> 1114111 < r then runeError else r) in
      if r < 128 then [r]
      else if r < 2048 then [192 + r div 64, 128 + r mod 64]
      else if r < 65536 then [224 + r div 4096, 128 + r div 64 mod 64, 128 + r mod 64]
      else [240 + r div 262144, 128 + r div 4096 mod 64, 128 + r div 64 mod 64, 128 + r mod 64])"

definition string_of :: "rune list \<Rightarrow> string" where
  "string_of rs = map char_of (concat (map encode_rune rs))"

section \<open>The code\<close>

datatype TokenType = IDENTIFIER | KEYWORD | SYMBOL | CONDITIONAL_OPERATOR | EOF

record Token =
  tk_Type :: TokenType
  tk_Value :: string

abbreviation Tok :: "TokenType \<Rightarrow> string \<Rightarrow> Token" where
  "Tok tt v \<equiv> \<lparr>tk_Type = tt, tk_Value = v\<rparr>"

definition symbols :: string where
  "symbols = ''(),;*''"

definition conditionalOperators :: string where
  "conditionalOperators = ''<>=''"

definition keywordMap :: "string list" where
  "keywordMap = [''CREATE'', ''TABLE'', ''PRIMARY'', ''KEY'', ''INSERT'', ''INTO'', ''VALUES'', ''SELECT'',
     ''FROM'', ''WHERE'', ''AND'']"

record Tokeniser =
  tk_input :: "rune list"
  tk_pos :: nat

definition NewTokeniser :: "string \<Rightarrow> Tokeniser" where
  "NewTokeniser input = \<lparr>tk_input = runes_of input, tk_pos = 0\<rparr>"

definition ContainsRune :: "string \<Rightarrow> rune \<Rightarrow> bool" where
  "ContainsRune s r \<longleftrightarrow> r \<in> set (runes_of s)"

text \<open>A loop that advances \<open>pos\<close> while a test holds: the runes it passes.\<close>

definition run :: "(rune \<Rightarrow> bool) \<Rightarrow> Tokeniser \<Rightarrow> rune list" where
  "run P t = takeWhile P (drop (tk_pos t) (tk_input t))"

definition advance :: "nat \<Rightarrow> Tokeniser \<Rightarrow> Tokeniser" where
  "advance n t = t\<lparr>tk_pos := tk_pos t + n\<rparr>"

definition NextToken :: "unicode \<Rightarrow> Tokeniser \<Rightarrow> Token \<times> Tokeniser" where
  "NextToken u t =
     (let t = advance (length (run (IsSpace u) t)) t in
      if length (tk_input t) \<le> tk_pos t then (Tok EOF '''', t)
      else let ch = tk_input t ! tk_pos t in
      if ContainsRune symbols ch then (Tok SYMBOL (string_of [ch]), advance 1 t)
      else if ContainsRune conditionalOperators ch then
        let rs = run (ContainsRune conditionalOperators) t
        in (Tok CONDITIONAL_OPERATOR (string_of rs), advance (length rs) t)
      else
        let rs = run (\<lambda>r. IsDigit u r \<or> IsLetter u r) t;
            val = string_of rs
        in (Tok (if string_of (ToUpper u (runes_of val)) \<in> set keywordMap then KEYWORD else IDENTIFIER) val,
            advance (length rs) t))"

section \<open>ASCII\<close>

definition ascii :: "string \<Rightarrow> bool" where
  "ascii s \<longleftrightarrow> (\<forall>c \<in> set s. (of_char c :: nat) < 128)"

lemma ascii_simps [simp]:
  "ascii []" "ascii (c # s) \<longleftrightarrow> (of_char c :: nat) < 128 \<and> ascii s" "ascii (s @ s') \<longleftrightarrow> ascii s \<and> ascii s'"
  by (auto simp: ascii_def)

lemma runes_of_Nil [simp]: "runes_of [] = []"
  by (simp add: runes_of_def decode_runes.simps)

lemma runes_of_Cons: "(of_char c :: nat) < 128 \<Longrightarrow> runes_of (c # s) = of_char c # runes_of s"
  by (simp add: runes_of_def decode_runes.simps [of "_ # _"] decode_rune_def)

lemma runes_of_append: "ascii s \<Longrightarrow> runes_of (s @ s') = map of_char s @ runes_of s'"
  by (induction s) (simp_all add: runes_of_Cons)

lemma runes_of_ascii [simp]: "ascii s \<Longrightarrow> runes_of s = map of_char s"
  using runes_of_append [of s "[]"] by simp

lemma string_of_ascii: "ascii s \<Longrightarrow> string_of (map of_char s) = s"
  by (induction s) (simp_all add: string_of_def encode_rune_def)

lemma runes_round_trip: "ascii s \<Longrightarrow> string_of (runes_of s) = s"
  by (simp add: string_of_ascii)

section \<open>Rendering tokens\<close>

text \<open>The character classes of an ASCII query.\<close>

definition space_char :: "char \<Rightarrow> bool" where
  "space_char c \<longleftrightarrow> (let r = of_char c :: nat in 9 \<le> r \<and> r \<le> 13 \<or> r = 32)"

definition word_char :: "char \<Rightarrow> bool" where
  "word_char c \<longleftrightarrow> (let r = of_char c :: nat in 48 \<le> r \<and> r \<le> 57 \<or> 65 \<le> r \<and> r \<le> 90 \<or> 97 \<le> r \<and> r \<le> 122)"

definition upper :: "string \<Rightarrow> string" where
  "upper s = map (\<lambda>c. if 97 \<le> (of_char c :: nat) \<and> (of_char c :: nat) \<le> 122 then char_of (of_char c - 32 :: nat) else c) s"

text \<open>
  A token has a text that the tokeniser turns back into it, and a query renders a list of tokens when
  it is their texts, with white space before, between and behind them at will; only where the next
  character would continue a word or an operator some white space is needed. What follows the last
  token is described by a predicate, as a rule that it is blank.
\<close>

fun class_of :: "TokenType \<Rightarrow> char \<Rightarrow> bool" where
  "class_of CONDITIONAL_OPERATOR c \<longleftrightarrow> c \<in> set conditionalOperators"
| "class_of SYMBOL c \<longleftrightarrow> False"
| "class_of _ c \<longleftrightarrow> word_char c"

fun printable :: "TokenType \<Rightarrow> string \<Rightarrow> bool" where
  "printable IDENTIFIER v \<longleftrightarrow> v \<noteq> [] \<and> (\<forall>c \<in> set v. word_char c) \<and> upper v \<notin> set keywordMap"
| "printable KEYWORD v \<longleftrightarrow> v \<noteq> [] \<and> (\<forall>c \<in> set v. word_char c) \<and> upper v \<in> set keywordMap"
| "printable SYMBOL v \<longleftrightarrow> (\<exists>c \<in> set symbols. v = [c])"
| "printable CONDITIONAL_OPERATOR v \<longleftrightarrow> v \<noteq> [] \<and> set v \<subseteq> set conditionalOperators"
| "printable EOF v \<longleftrightarrow> False"

definition blank :: "string \<Rightarrow> bool" where
  "blank s \<longleftrightarrow> (\<forall>c \<in> set s. space_char c)"

fun renders :: "(string \<Rightarrow> bool) \<Rightarrow> string \<Rightarrow> Token list \<Rightarrow> bool" where
  "renders E s [] \<longleftrightarrow> E s"
| "renders E s (t # ts) \<longleftrightarrow>
     (\<exists>ws rest. s = ws @ tk_Value t @ rest \<and> blank ws \<and>
        printable (tk_Type t) (tk_Value t) \<and> (rest \<noteq> [] \<longrightarrow> \<not> class_of (tk_Type t) (hd rest)) \<and> renders E rest ts)"

lemma char_classes_exclusive:
  "space_char c \<Longrightarrow> \<not> word_char c" "c \<in> set symbols \<Longrightarrow> \<not> word_char c \<and> \<not> space_char c \<and> c \<notin> set conditionalOperators"
  "c \<in> set conditionalOperators \<Longrightarrow> \<not> word_char c \<and> \<not> space_char c \<and> c \<notin> set symbols"
  by (auto simp: space_char_def word_char_def symbols_def conditionalOperators_def Let_def)

lemma class_ascii:
  "space_char c \<Longrightarrow> (of_char c :: nat) < 128" "word_char c \<Longrightarrow> (of_char c :: nat) < 128"
  "c \<in> set symbols \<Longrightarrow> (of_char c :: nat) < 128" "c \<in> set conditionalOperators \<Longrightarrow> (of_char c :: nat) < 128"
  by (auto simp: space_char_def word_char_def symbols_def conditionalOperators_def Let_def)

lemma printable_ascii: "printable tt v \<Longrightarrow> ascii v"
  by (cases tt) (auto simp: ascii_def class_ascii subset_iff)

lemma blank_ascii: "blank s \<Longrightarrow> ascii s"
  by (auto simp: blank_def ascii_def class_ascii)

lemma renders_ascii:
  assumes "\<And>s. E s \<Longrightarrow> ascii s" "renders E s ts"
  shows "ascii s"
  using assms(2)
proof (induction ts arbitrary: s)
  case Nil
  then show ?case using assms(1) by simp
next
  case (Cons t ts)
  then obtain ws rest where "s = ws @ tk_Value t @ rest" "blank ws"
    "printable (tk_Type t) (tk_Value t)" "renders E rest ts" by auto
  with Cons.IH printable_ascii blank_ascii show ?case by auto
qed

lemma encode_rune_small: "r < 128 \<Longrightarrow> encode_rune r = [r]"
  by (simp add: encode_rune_def)

text \<open>The tests of the tokeniser on the rune of a character.\<close>

lemma rune_tests:
  assumes "(of_char c :: nat) < 128"
  shows "IsSpace u (of_char c) \<longleftrightarrow> space_char c"
    "IsDigit u (of_char c) \<or> IsLetter u (of_char c) \<longleftrightarrow> word_char c"
  using assms by (auto simp: IsSpace_def IsDigit_def IsLetter_def space_char_def word_char_def Let_def)

lemma rune_tests_word:
  "(of_char c :: nat) < 128 \<Longrightarrow> \<not> word_char c \<Longrightarrow> \<not> IsDigit u (of_char c) \<and> \<not> IsLetter u (of_char c)"
  using rune_tests(2) by blast

lemma ContainsRune_ascii:
  "ascii s \<Longrightarrow> ContainsRune s (of_char c) \<longleftrightarrow> c \<in> set s"
  by (auto simp: ContainsRune_def)

lemma ascii_classes: "ascii symbols" "ascii conditionalOperators"
  by (simp_all add: symbols_def conditionalOperators_def)

lemma ToUpper_ascii: "ascii s \<Longrightarrow> string_of (ToUpper u (runes_of s)) = upper s"
proof (induction s)
  case (Cons c s)
  let ?r = "if 97 \<le> (of_char c :: nat) \<and> (of_char c :: nat) \<le> 122 then of_char c - 32 else of_char c :: nat"
  have "?r < 128" using Cons.prems by auto
  then have "map char_of (encode_rune ?r) = [char_of ?r :: char]"
    by (simp add: encode_rune_small)
  then have "string_of (?r # rs) = char_of ?r # string_of rs" for rs
    by (simp only: string_of_def concat.simps list.map map_append append.simps)
  moreover have "ToUpper u (runes_of (c # s)) = ?r # ToUpper u (runes_of s)"
    using Cons.prems by (simp add: ToUpper_def)
  moreover have "upper (c # s) = char_of ?r # upper s"
    by (auto simp: upper_def)
  ultimately show ?case
    using Cons by (metis ascii_simps(2))
qed (simp add: ToUpper_def string_of_def upper_def)

lemma takeWhile_run:
  assumes "\<forall>c \<in> set w. P (of_char c :: nat)" "rest = [] \<or> \<not> P (of_char (hd rest))"
  shows "takeWhile P (map of_char (w @ rest)) = map of_char w"
proof -
  have "takeWhile P (map of_char rest) = []"
    using assms(2) by (cases rest) auto
  then show ?thesis
    using assms(1) by (simp add: takeWhile_append)
qed

text \<open>What is left of the input.\<close>

definition left :: "Tokeniser \<Rightarrow> rune list" where
  "left t = drop (tk_pos t) (tk_input t)"

lemma left_advance: "left t = xs @ ys \<Longrightarrow> n = length xs \<Longrightarrow> left (advance n t) = ys"
  by (simp add: left_def advance_def add.commute flip: drop_drop)

lemma left_Cons:
  assumes "left t = r # rs"
  shows "tk_pos t < length (tk_input t)" "tk_input t ! tk_pos t = r"
  using assms by (auto simp: left_def Cons_nth_drop_Suc [symmetric] dest: arg_cong [where f = length])
    (metis append_Cons hd_drop_conv_nth length_drop length_greater_0_conv list.distinct(1) list.sel(1) zero_less_diff)

lemma NextToken_char:
  assumes "t1 = advance (length (takeWhile (IsSpace u) (left t))) t" "left t1 = r # rs"
  shows "NextToken u t =
    (if ContainsRune symbols r then (Tok SYMBOL (string_of [r]), advance 1 t1)
     else if ContainsRune conditionalOperators r then
       (let w = takeWhile (ContainsRune conditionalOperators) (left t1)
        in (Tok CONDITIONAL_OPERATOR (string_of w), advance (length w) t1))
     else
       (let w = takeWhile (\<lambda>r. IsDigit u r \<or> IsLetter u r) (left t1)
        in (Tok (if string_of (ToUpper u (runes_of (string_of w))) \<in> set keywordMap then KEYWORD else IDENTIFIER)
             (string_of w), advance (length w) t1)))"
  using left_Cons [OF assms(2)] assms(1) by (simp add: NextToken_def run_def left_def Let_def)

lemma NextToken_end:
  assumes "t1 = advance (length (takeWhile (IsSpace u) (left t))) t" "left t1 = []"
  shows "NextToken u t = (Tok EOF [], t1)"
  using assms by (simp add: NextToken_def run_def left_def Let_def)

lemma NextToken_spaces:
  assumes "left t = map of_char (ws @ s)" "blank ws" "s = [] \<or> \<not> space_char (hd s)" "ascii s"
  shows "left (advance (length (takeWhile (IsSpace u) (left t))) t) = map of_char s"
proof -
  have "takeWhile (IsSpace u) (map of_char (ws @ s)) = map of_char ws"
    using assms(2-4) by (intro takeWhile_run) (auto simp: blank_def rune_tests class_ascii neq_Nil_conv)
  then show ?thesis
    using assms(1) by (intro left_advance [of t "map of_char ws"]) simp_all
qed

lemma takeWhile_word:
  assumes "ascii v" "ascii rest" "\<forall>c \<in> set v. word_char c" "rest = [] \<or> \<not> word_char (hd rest)"
  shows "takeWhile (\<lambda>r. IsDigit u r \<or> IsLetter u r) (map of_char (v @ rest)) = map of_char v"
  using assms by (intro takeWhile_run) (auto simp: rune_tests ascii_def neq_Nil_conv dest: rune_tests_word)

lemma takeWhile_operators:
  assumes "set v \<subseteq> set conditionalOperators" "rest = [] \<or> hd rest \<notin> set conditionalOperators"
  shows "takeWhile (ContainsRune conditionalOperators) (map of_char (v @ rest)) = map of_char v"
  using assms by (intro takeWhile_run) (auto simp: ContainsRune_ascii ascii_classes)

lemma NextToken_renders:
  assumes "left t = map of_char s" "renders E s (x # xs)" and E: "\<And>s. E s \<Longrightarrow> ascii s"
  shows "\<exists>t' rest. NextToken u t = (x, t') \<and> left t' = map of_char rest \<and> renders E rest xs"
proof -
  obtain ws rest where s: "s = ws @ tk_Value x @ rest" "blank ws"
    and pr: "printable (tk_Type x) (tk_Value x)" and sep: "rest \<noteq> [] \<longrightarrow> \<not> class_of (tk_Type x) (hd rest)"
    and rest: "renders E rest xs"
    using assms(2) by auto
  obtain c v where v: "tk_Value x = c # v"
    using pr by (cases "tk_Type x"; cases "tk_Value x") auto
  have asc: "ascii (tk_Value x)" "ascii rest"
    using printable_ascii [OF pr] renders_ascii [OF E rest] by auto
  then have c: "(of_char c :: nat) < 128"
    by (simp add: v)
  have nospace: "\<not> space_char c"
    using pr v char_classes_exclusive by (cases "tk_Type x") auto
  define t1 where "t1 = advance (length (takeWhile (IsSpace u) (left t))) t"
  have left1: "left t1 = map of_char (tk_Value x @ rest)"
    unfolding t1_def using assms(1) s asc nospace by (intro NextToken_spaces [where ws = ws]) (auto simp: v)
  have adv: "left (advance (length (tk_Value x)) t1) = map of_char rest"
    using left1 by (intro left_advance [of t1 "map of_char (tk_Value x)"]) simp_all
  have tests: "ContainsRune symbols (of_char c) \<longleftrightarrow> c \<in> set symbols"
    "ContainsRune conditionalOperators (of_char c) \<longleftrightarrow> c \<in> set conditionalOperators"
    by (simp_all add: ContainsRune_ascii ascii_classes)
  have up: "string_of (ToUpper u (runes_of (tk_Value x))) = upper (tk_Value x)"
    "string_of (map of_char (tk_Value x)) = tk_Value x"
    using asc(1) by (simp_all only: ToUpper_ascii string_of_ascii)
  have char: "left t1 = of_char c # map of_char (v @ rest)"
    by (simp add: left1 v)
  note tok = NextToken_char [OF t1_def char, unfolded tests]
  have word: "c \<notin> set symbols" "c \<notin> set conditionalOperators"
    "takeWhile (\<lambda>r. IsDigit u r \<or> IsLetter u r) (left t1) = map of_char (tk_Value x)"
    if "tk_Type x \<in> {IDENTIFIER, KEYWORD}"
  proof -
    have w: "\<forall>c \<in> set (tk_Value x). word_char c" "rest = [] \<or> \<not> word_char (hd rest)" using that pr sep by auto
    then have "word_char c" by (simp add: v)
    with char_classes_exclusive show "c \<notin> set symbols" "c \<notin> set conditionalOperators" by blast+
    show "takeWhile (\<lambda>r. IsDigit u r \<or> IsLetter u r) (left t1) = map of_char (tk_Value x)"
      unfolding left1 by (rule takeWhile_word [OF asc w])
  qed
  have "NextToken u t = (x, advance (length (tk_Value x)) t1)"
  proof (cases "tk_Type x")
    case IDENTIFIER
    then show ?thesis using word pr by (simp add: tok Let_def up)
  next
    case KEYWORD
    then show ?thesis using word pr by (simp add: tok Let_def up)
  next
    case SYMBOL
    then have "tk_Value x = [c]" "c \<in> set symbols"
      using pr v by auto
    then show ?thesis
      using SYMBOL up(2) by (simp add: tok)
  next
    case CONDITIONAL_OPERATOR
    then have "c \<in> set conditionalOperators"
      using pr v by auto
    moreover from this char_classes_exclusive have "c \<notin> set symbols" by blast
    moreover have "takeWhile (ContainsRune conditionalOperators) (left t1) = map of_char (tk_Value x)"
      unfolding left1 by (rule takeWhile_operators) (use CONDITIONAL_OPERATOR pr sep in auto)
    ultimately show ?thesis
      using CONDITIONAL_OPERATOR by (simp add: tok Let_def up)
  next
    case EOF
    with pr show ?thesis by simp
  qed
  with adv rest show ?thesis by blast
qed

lemma NextToken_input: "tk_input (snd (NextToken u t)) = tk_input t"
  by (simp add: NextToken_def advance_def Let_def)

text \<open>The input shrinks, strictly when the token has a text.\<close>

lemma length_left_advance [simp]: "length (left (advance n t)) = length (left t) - n"
  by (simp add: left_def advance_def)

lemma string_of_Nil [simp]: "string_of [] = []"
  by (simp add: string_of_def)

lemma NextToken_progress:
  assumes "NextToken u t = (x, t')"
  shows "length (left t') \<le> length (left t)" "tk_Value x \<noteq> [] \<Longrightarrow> length (left t') < length (left t)"
proof -
  define t1 where "t1 = advance (length (takeWhile (IsSpace u) (left t))) t"
  have le: "length (left t1) \<le> length (left t)"
    by (simp add: t1_def)
  have "length (left t') \<le> length (left t1) \<and> (tk_Value x \<noteq> [] \<longrightarrow> length (left t') < length (left t1))"
  proof (cases "left t1")
    case Nil
    with NextToken_end [OF t1_def Nil] assms show ?thesis by simp
  next
    case (Cons r rs)
    from NextToken_char [OF t1_def Cons] assms Cons show ?thesis
      by (auto simp: Let_def string_of_Nil less_Suc_eq_le split: if_splits)
  qed
  with le show "length (left t') \<le> length (left t)" "tk_Value x \<noteq> [] \<Longrightarrow> length (left t') < length (left t)"
    by auto
qed

lemma NextToken_renders_end:
  assumes "left t = map of_char s" "blank s"
  shows "\<exists>t'. NextToken u t = (Tok EOF [], t')"
proof -
  have "left (advance (length (takeWhile (IsSpace u) (left t))) t) = map of_char []"
    using assms by (intro NextToken_spaces [where ws = s]) auto
  then show ?thesis
    using NextToken_end [OF refl] by simp
qed

text \<open>One space before every token is always a rendering.\<close>

definition spaced :: "Token list \<Rightarrow> string" where
  "spaced ts = concat (map (\<lambda>t. '' '' @ tk_Value t) ts)"

lemma renders_spaced:
  assumes "\<forall>t \<in> set ts. printable (tk_Type t) (tk_Value t)" "E s" "s = [] \<or> hd s = CHR '' ''"
  shows "renders E (spaced ts @ s) ts"
  using assms(1)
proof (induction ts)
  case Nil
  then show ?case using assms(2) by (simp add: spaced_def)
next
  case (Cons t ts)
  let ?rest = "spaced ts @ s"
  have "\<not> class_of tt (CHR '' '')" for tt
    by (cases tt) (simp_all add: word_char_def conditionalOperators_def)
  then have "?rest \<noteq> [] \<longrightarrow> \<not> class_of (tk_Type t) (hd ?rest)"
    using assms(3) by (cases ts) (auto simp: spaced_def)
  moreover have "renders E ?rest ts" "printable (tk_Type t) (tk_Value t)"
    using Cons by auto
  moreover have "spaced (t # ts) @ s = '' '' @ tk_Value t @ ?rest" "blank '' ''"
    by (simp_all add: spaced_def blank_def space_char_def)
  ultimately show ?case
    unfolding renders.simps by blast
qed

section \<open>Characters that the tokeniser does not know\<close>

definition known :: "unicode \<Rightarrow> rune \<Rightarrow> bool" where
  "known u r \<longleftrightarrow> IsSpace u r \<or> ContainsRune symbols r \<or> ContainsRune conditionalOperators r \<or> IsDigit u r \<or> IsLetter u r"

text \<open>At an unknown character the tokeniser returns an empty identifier and stays where it is.\<close>

lemma NextToken_unknown:
  assumes "left t = r # rs" "\<not> known u r"
  shows "NextToken u t = (Tok IDENTIFIER [], t)"
proof -
  have t: "t = advance (length (takeWhile (IsSpace u) (left t))) t"
    using assms by (simp add: known_def advance_def)
  have "upper [] \<notin> set keywordMap"
    by (simp add: upper_def keywordMap_def)
  with NextToken_char [OF t assms(1)] assms show ?thesis
    by (simp add: known_def advance_def ToUpper_def upper_def)
qed

text \<open>At a known one it advances, unless it is at the end of the input.\<close>

lemma NextToken_known:
  assumes "\<forall>r \<in> set (tk_input t). known u r" "NextToken u t = (x, t')" "tk_Type x \<noteq> EOF"
  shows "length (left t') < length (left t)"
proof -
  define t1 where "t1 = advance (length (takeWhile (IsSpace u) (left t))) t"
  have le: "length (left t1) \<le> length (left t)"
    by (simp add: t1_def)
  show ?thesis
  proof (cases "left t1")
    case Nil
    with NextToken_end [OF t1_def Nil] assms show ?thesis by simp
  next
    case (Cons r rs)
    have "left t1 = dropWhile (IsSpace u) (left t)"
      by (simp add: t1_def left_def advance_def dropWhile_eq_drop add.commute)
    then have "\<not> IsSpace u r"
      using Cons by (metis hd_dropWhile list.distinct(1) list.sel(1))
    moreover have "r \<in> set (tk_input t)"
      using Cons in_set_dropD [of r "tk_pos t1" "tk_input t1"] by (simp add: left_def t1_def advance_def)
    ultimately have "ContainsRune symbols r \<or> ContainsRune conditionalOperators r \<or> IsDigit u r \<or> IsLetter u r"
      using assms(1) by (auto simp: known_def)
    then have "length (left t') < length (left t1)"
      using NextToken_char [OF t1_def Cons] assms(2) Cons by (auto simp: Let_def split: if_splits)
    with le show ?thesis by simp
  qed
qed

end
