(* ===== verification/Parser.thy ===== *)
theory Parser
  imports Tokeniser
begin

text \<open>
  The statements of \<open>sql_parser/ast.go\<close> and the recursive-descent parser of \<open>sql_parser/parser.go\<close>.
  An operation that returns an error is not used further by the code, so the parser state is returned
  with a result only. \<open>INSERT\<close> has a loop that does not always end; the others are proved to.
\<close>

section \<open>Statements\<close>

record SecondaryIndex =
  si_Columns :: "string list"
  si_IndexName :: string

text \<open>A \<open>DataType\<close> is a byte; three values have names.\<close>

type_synonym DataType = "8 word"

abbreviation DataType_Int :: DataType where "DataType_Int \<equiv> 0"

abbreviation DataType_String :: DataType where "DataType_String \<equiv> 1"

abbreviation DataType_Bool :: DataType where "DataType_Bool \<equiv> 2"

record Column =
  ColumnName :: string
  col_DataType :: DataType

text \<open>The types that SQL can name.\<close>

abbreviation typed :: "Column list \<Rightarrow> bool" where
  "typed cols \<equiv> \<forall>col \<in> set cols. col_DataType col \<in> {DataType_Int, DataType_String, DataType_Bool}"

record CreateTable =
  ct_TableName :: string
  ct_ColumnDetails :: "Column list"
  ct_PrimaryKeyColumnPosition :: nat
  ct_SecondaryIndexes :: "SecondaryIndex list"

record InsertIntoTable =
  it_TableName :: string
  it_ColumnValues :: "string list"

record QueryCondition =
  qc_ColumnName :: string
  qc_QueryType :: string
  qc_Value :: string

record SelectFromTable =
  sf_TableName :: string
  sf_ColumnsRequired :: "string list"
  sf_QueryConditions :: "QueryCondition list"

section \<open>The parser\<close>

definition ColumnsSelectLimit :: nat where
  "ColumnsSelectLimit = 10"

record Parser =
  ps_tokeniser :: Tokeniser
  ps_currentToken :: Token

definition NewParser :: "unicode \<Rightarrow> string \<Rightarrow> Parser" where
  "NewParser u input =
     (let t = NewTokeniser input;
          (currentToken, t) = NextToken u t
      in \<lparr>ps_tokeniser = t, ps_currentToken = currentToken\<rparr>)"

abbreviation cur :: "Parser \<Rightarrow> string" where
  "cur p \<equiv> tk_Value (ps_currentToken p)"

text \<open>The name of a token type, which is a string in the code.\<close>

fun tt_name :: "TokenType \<Rightarrow> string" where
  "tt_name IDENTIFIER = ''IDENTIFIER''"
| "tt_name KEYWORD = ''KEYWORD''"
| "tt_name SYMBOL = ''SYMBOL''"
| "tt_name CONDITIONAL_OPERATOR = ''CONDITIONAL_OPERATOR''"
| "tt_name EOF = ''EOF''"

definition consume :: "unicode \<Rightarrow> Parser \<Rightarrow> TokenType \<Rightarrow> string \<Rightarrow> string \<Rightarrow> Parser result" where
  "consume u p tt expectedVal identifierType =
     (let c = ps_currentToken p; got = [tt_name (tk_Type c), tk_Value c] in
      if tk_Type c \<noteq> tt \<or> expectedVal \<noteq> '''' \<and> tk_Value c \<noteq> expectedVal then
        if expectedVal = '''' \<and> tt = CONDITIONAL_OPERATOR then
          Err (ParseError (SyntaxError [tt_name tt] got))
        else if tt = IDENTIFIER \<and> identifierType \<noteq> '''' then
          if expectedVal = '''' then Err (ParseError (SyntaxError [''IDENTIFIER'', identifierType] got))
          else Err (ParseError (SyntaxError [''IDENTIFIER'', identifierType, expectedVal] got))
        else Err (ParseError (SyntaxError [tt_name tt, expectedVal] got))
      else
        let (currentToken, t) = NextToken u (ps_tokeniser p)
        in Ok \<lparr>ps_tokeniser = t, ps_currentToken = currentToken\<rparr>)"

text \<open>\<open>if p.currentToken.Value == "," { p.consume(SYMBOL, ",", "") }\<close>: an error is ignored.\<close>

definition skip_comma :: "unicode \<Rightarrow> Parser \<Rightarrow> Parser" where
  "skip_comma u p =
     (if cur p = '','' then (case consume u p SYMBOL '','' '''' of Ok p \<Rightarrow> p | _ \<Rightarrow> p) else p)"

fun getDataTypeFromString :: "string \<Rightarrow> DataType result" where
  "getDataTypeFromString columnType =
     (if columnType = ''INT'' then Ok DataType_Int
      else if columnType = ''STRING'' then Ok DataType_String
      else if columnType = ''BOOL'' then Ok DataType_Bool
      else Err (ParseError (DataTypeNotFound columnType)))"

definition parsePrimaryKeyColumn :: "unicode \<Rightarrow> Parser \<Rightarrow> (string \<times> Parser) result" where
  "parsePrimaryKeyColumn u p =
     rbind (consume u p KEYWORD ''PRIMARY'' '''') (\<lambda>p.
     rbind (consume u p KEYWORD ''KEY'' '''') (\<lambda>p.
     rbind (consume u p SYMBOL ''('' '''') (\<lambda>p.
       let pkColumn = cur p in
     rbind (consume u p IDENTIFIER '''' '''') (\<lambda>p.
     rbind (consume u p SYMBOL '')'' '''') (\<lambda>p.
       Ok (pkColumn, p))))))"

text \<open>Parsing shortens the input; an operation that has read a text shortens it strictly.\<close>

definition todo :: "Parser \<Rightarrow> nat" where
  "todo p = length (left (ps_tokeniser p))"

lemma consume_Ok_iff:
  "consume u p tt v i = Ok p' \<longleftrightarrow>
     tk_Type (ps_currentToken p) = tt \<and> (v = '''' \<or> cur p = v) \<and>
     NextToken u (ps_tokeniser p) = (ps_currentToken p', ps_tokeniser p')"
  by (cases p') (auto simp: consume_def Let_def split_beta prod_eq_iff)

lemma consume_Panic: "consume u p tt v i \<noteq> Panic"
  by (simp add: consume_def Let_def split_beta)

lemma consume_progress:
  assumes "consume u p tt v i = Ok p'"
  shows "todo p' \<le> todo p" "cur p' \<noteq> '''' \<Longrightarrow> todo p' < todo p"
  using assms NextToken_progress [of u "ps_tokeniser p" "ps_currentToken p'" "ps_tokeniser p'"]
  by (auto simp: consume_Ok_iff todo_def)

lemma skip_comma_progress: "todo (skip_comma u p) \<le> todo p"
  by (auto simp: skip_comma_def dest: consume_progress split: result.splits)

lemma parsePrimaryKeyColumn_progress:
  assumes "parsePrimaryKeyColumn u p = Ok (c, p')"
  shows "todo p' < todo p"
proof -
  obtain p1 p2 p3 p4 where
    s: "consume u p KEYWORD ''PRIMARY'' '''' = Ok p1" "consume u p1 KEYWORD ''KEY'' '''' = Ok p2"
      "consume u p2 SYMBOL ''('' '''' = Ok p3" "consume u p3 IDENTIFIER '''' '''' = Ok p4"
      "consume u p4 SYMBOL '')'' '''' = Ok p'"
    using assms by (auto simp: parsePrimaryKeyColumn_def rbind_Ok_iff Let_def)
  have "cur p1 \<noteq> ''''"
    using s(2) by (auto simp: consume_Ok_iff)
  with s show ?thesis
    by (meson consume_progress le_less_trans)
qed

section \<open>CREATE TABLE\<close>

text \<open>One round of the loop over the columns: a primary key clause or a column.\<close>

definition createTable_item ::
  "unicode \<Rightarrow> Parser \<Rightarrow> Column list \<times> string \<Rightarrow> ((Column list \<times> string) \<times> Parser) result" where
  "createTable_item u p = (\<lambda>(columnDetails, pkColumn).
     let p = skip_comma u p in
     if cur p = ''PRIMARY'' then
       rbind (parsePrimaryKeyColumn u p) (\<lambda>(pkColumn, p). Ok ((columnDetails, pkColumn), p))
     else
       let columnName = cur p in
       rbind (consume u p IDENTIFIER '''' '''') (\<lambda>p.
         let columnType = cur p in
       rbind (consume u p IDENTIFIER '''' '''') (\<lambda>p.
       rbind (getDataTypeFromString columnType) (\<lambda>dataType.
         Ok ((columnDetails @ [\<lparr>ColumnName = columnName, col_DataType = dataType\<rparr>], pkColumn), p)))))"

lemma createTable_item_progress:
  assumes "createTable_item u p acc = Ok (acc', p')"
  shows "todo p' < todo p"
proof -
  define q where "q = skip_comma u p"
  have q: "todo q \<le> todo p"
    unfolding q_def by (rule skip_comma_progress)
  have "todo p' < todo q"
  proof (cases "cur q = ''PRIMARY''")
    case True
    with assms obtain c where "parsePrimaryKeyColumn u q = Ok (c, p')"
      by (auto simp: createTable_item_def Let_def q_def rbind_Ok_iff split_beta)
    then show ?thesis by (rule parsePrimaryKeyColumn_progress)
  next
    case False
    with assms obtain p1 d where s: "consume u q IDENTIFIER '''' '''' = Ok p1"
      "consume u p1 IDENTIFIER '''' '''' = Ok p'" "getDataTypeFromString (cur p1) = Ok d"
      by (auto simp: createTable_item_def Let_def q_def rbind_Ok_iff split_beta)
    then have "cur p1 \<noteq> ''''"
      by (auto split: if_splits)
    with s show ?thesis
      by (meson consume_progress le_less_trans)
  qed
  with q show ?thesis by simp
qed

function createTable_loop ::
  "unicode \<Rightarrow> Parser \<Rightarrow> Column list \<times> string \<Rightarrow> ((Column list \<times> string) \<times> Parser) result" where
  "createTable_loop u p acc =
     (if cur p = '')'' then Ok (acc, p)
      else case createTable_item u p acc of
             Ok (acc, p) \<Rightarrow> createTable_loop u p acc
           | Err er \<Rightarrow> Err er
           | Panic \<Rightarrow> Panic)"
  by pat_completeness auto
termination
  by (relation "measure (\<lambda>(_, p, _). todo p)") (auto dest!: sym [of _ "createTable_item _ _ _"] dest: createTable_item_progress)

declare createTable_loop.simps [simp del]

text \<open>The position of the last column with the name of the primary key; without one the first column.\<close>

definition primaryKeyPosition :: "Column list \<Rightarrow> string \<Rightarrow> int" where
  "primaryKeyPosition columnDetails pkColumn =
     foldl (\<lambda>pos (i, col). if ColumnName col = pkColumn then int i else pos) (- 1) (enumerate 0 columnDetails)"

text \<open>The loop for the position finds the last column of the name.\<close>

lemma primaryKeyPosition_snoc:
  "primaryKeyPosition (cols @ [c]) pk = (if ColumnName c = pk then int (length cols) else primaryKeyPosition cols pk)"
  by (simp add: primaryKeyPosition_def enumerate_append_eq)

lemma primaryKeyPosition_cases:
  "primaryKeyPosition cols pk = - 1 \<and> pk \<notin> ColumnName ` set cols \<or>
   (\<exists>i < length cols. primaryKeyPosition cols pk = int i \<and> ColumnName (cols ! i) = pk \<and>
     (\<forall>j < length cols. i < j \<longrightarrow> ColumnName (cols ! j) \<noteq> pk))"
proof (induction cols rule: rev_induct)
  case Nil
  then show ?case by (simp add: primaryKeyPosition_def)
next
  case (snoc c cols)
  show ?case
  proof (cases "ColumnName c = pk")
    case True
    then show ?thesis by (intro disjI2 exI [of _ "length cols"]) (auto simp: primaryKeyPosition_snoc)
  next
    case False
    with snoc.IH show ?thesis
      by (auto simp: primaryKeyPosition_snoc nth_append less_Suc_eq)
  qed
qed

definition primaryKeyColumnPosition :: "Column list \<Rightarrow> string \<Rightarrow> nat result" where
  "primaryKeyColumnPosition columnDetails pkColumn =
     (if columnDetails = [] then Err (ParseError NoColumnDetail)
      else if pkColumn = '''' then Ok 0
      else
        let pos = primaryKeyPosition columnDetails pkColumn in
        if pos = - 1 then Err (ParseError (PrimaryKeyColumnNotFound pkColumn)) else Ok (nat pos))"

definition ParseCreateTable :: "unicode \<Rightarrow> Parser \<Rightarrow> (CreateTable \<times> Parser) result" where
  "ParseCreateTable u p =
     rbind (consume u p KEYWORD ''CREATE'' '''') (\<lambda>p.
     rbind (consume u p KEYWORD ''TABLE'' '''') (\<lambda>p.
       let tableName = cur p in
     rbind (consume u p IDENTIFIER '''' '''') (\<lambda>p.
     rbind (consume u p SYMBOL ''('' '''') (\<lambda>p.
     rbind (createTable_loop u p ([], '''')) (\<lambda>((columnDetails, pkColumn), p).
     rbind (primaryKeyColumnPosition columnDetails pkColumn) (\<lambda>pkColumnPosition.
     rbind (consume u p SYMBOL '')'' '''') (\<lambda>p.
       Ok (\<lparr>ct_TableName = tableName, ct_ColumnDetails = columnDetails,
            ct_PrimaryKeyColumnPosition = pkColumnPosition, ct_SecondaryIndexes = []\<rparr>, p))))))))"

section \<open>INSERT INTO\<close>

text \<open>
  The loop over the values does not advance on a character that the tokeniser does not know, so it is
  a partial function: \<open>None\<close> is a call that does not return.
\<close>

lemma result_case_mono [partial_function_mono]:
  assumes "\<And>x. monotone orda ordb (\<lambda>f. F f x)" "\<And>e. monotone orda ordb (\<lambda>f. G f e)" "monotone orda ordb H"
  shows "monotone orda ordb (\<lambda>f. case r of Ok x \<Rightarrow> F f x | Err e \<Rightarrow> G f e | Panic \<Rightarrow> H f)"
  using assms by (cases r) simp_all

partial_function (option) insert_loop ::
  "unicode \<Rightarrow> Parser \<Rightarrow> string list \<Rightarrow> (string list \<times> Parser) result option" where
  "insert_loop u p columnValues =
     (if cur p = '')'' then Some (Ok (columnValues, p))
      else
        let p = skip_comma u p;
            columnValue = cur p
        in case consume u p IDENTIFIER '''' '''' of
             Ok p \<Rightarrow> insert_loop u p (columnValues @ [columnValue])
           | Err er \<Rightarrow> Some (Err er)
           | Panic \<Rightarrow> Some Panic)"

definition ParseInsertIntoTable :: "unicode \<Rightarrow> Parser \<Rightarrow> (InsertIntoTable \<times> Parser) result option" where
  "ParseInsertIntoTable u p =
     (case rbind (consume u p KEYWORD ''INSERT'' '''') (\<lambda>p.
           rbind (consume u p KEYWORD ''INTO'' '''') (\<lambda>p.
             let tableName = cur p in
           rbind (consume u p IDENTIFIER '''' '''') (\<lambda>p.
           rbind (consume u p KEYWORD ''VALUES'' '''') (\<lambda>p.
           rbind (consume u p SYMBOL ''('' '''') (\<lambda>p. Ok (tableName, p)))))) of
        Err er \<Rightarrow> Some (Err er)
      | Panic \<Rightarrow> Some Panic
      | Ok (tableName, p) \<Rightarrow>
          map_option (\<lambda>r. rbind r (\<lambda>(columnValues, p).
            rbind (consume u p SYMBOL '')'' '''') (\<lambda>p.
              Ok (\<lparr>it_TableName = tableName, it_ColumnValues = columnValues\<rparr>, p))))
            (insert_loop u p []))"

section \<open>SELECT\<close>

text \<open>
  \<open>i\<close> counts the rounds of the loop from 0; the code compares it with the limit by \<open>==\<close> in every round,
  which for a counter that starts at 0 is the same as \<open>\<ge>\<close>.
\<close>

function selectColumns_loop ::
  "unicode \<Rightarrow> nat \<Rightarrow> Parser \<Rightarrow> string list \<Rightarrow> (string list \<times> Parser) result" where
  "selectColumns_loop u i p columnsRequired =
     (if cur p = ''FROM'' then Ok (columnsRequired, p)
      else rbind (if cur p = '','' then consume u p SYMBOL '','' '''' else Ok p) (\<lambda>p.
        if i \<ge> ColumnsSelectLimit then Err (ParseError TooManySelectColumns)
        else if cur p = ''*'' then
          rbind (consume u p SYMBOL ''*'' '''') (\<lambda>p. selectColumns_loop u (i + 1) p (columnsRequired @ [''*'']))
        else
          let columnName = cur p in
          rbind (consume u p IDENTIFIER '''' '''') (\<lambda>p.
            selectColumns_loop u (i + 1) p (columnsRequired @ [columnName]))))"
  by pat_completeness auto
termination
  by (relation "measure (\<lambda>(_, i, _). ColumnsSelectLimit - i)") auto

declare selectColumns_loop.simps [simp del]

definition parseColumnsFromSelectQuery :: "unicode \<Rightarrow> Parser \<Rightarrow> (string list \<times> Parser) result" where
  "parseColumnsFromSelectQuery u p =
     rbind (selectColumns_loop u 0 p []) (\<lambda>(columnsRequired, p).
       if columnsRequired = [] then Err (ParseError NoSelectColumn) else Ok (columnsRequired, p))"

function conditions_loop ::
  "unicode \<Rightarrow> nat \<Rightarrow> Parser \<Rightarrow> QueryCondition list \<Rightarrow> (QueryCondition list \<times> Parser) result" where
  "conditions_loop u i p queryConditions =
     (if cur p = '';'' then Ok (queryConditions, p)
      else rbind (if i > 0 then consume u p KEYWORD ''AND'' '''' else Ok p) (\<lambda>p.
        if i \<ge> 11 then Err (ParseError TooManyConditions)
        else
          let columnName = cur p in
          rbind (consume u p IDENTIFIER '''' ''column name'') (\<lambda>p.
            let queryType = cur p in
          rbind (consume u p CONDITIONAL_OPERATOR '''' '''') (\<lambda>p.
            let value = cur p in
          rbind (consume u p IDENTIFIER '''' ''query value'') (\<lambda>p.
            conditions_loop u (i + 1) p (queryConditions @
              [\<lparr>qc_ColumnName = columnName, qc_QueryType = queryType, qc_Value = value\<rparr>]))))))"
  by pat_completeness auto
termination
  by (relation "measure (\<lambda>(_, i, _). 11 - i)") auto

declare conditions_loop.simps [simp del]

definition parseQueryConditionsFromSelectQuery :: "unicode \<Rightarrow> Parser \<Rightarrow> (QueryCondition list \<times> Parser) result" where
  "parseQueryConditionsFromSelectQuery u p =
     rbind (consume u p KEYWORD ''WHERE'' '''') (\<lambda>p.
     rbind (conditions_loop u 0 p []) (\<lambda>(queryConditions, p).
       if queryConditions = [] then Err (ParseError NoCondition) else Ok (queryConditions, p)))"

definition ParseSelectFromTable :: "unicode \<Rightarrow> Parser \<Rightarrow> (SelectFromTable \<times> Parser) result" where
  "ParseSelectFromTable u p =
     rbind (consume u p KEYWORD ''SELECT'' '''') (\<lambda>p.
     rbind (parseColumnsFromSelectQuery u p) (\<lambda>(columnsRequired, p).
     rbind (consume u p KEYWORD ''FROM'' '''') (\<lambda>p.
       let tableName = cur p in
     rbind (consume u p IDENTIFIER '''' '''') (\<lambda>p.
     rbind (if cur p = ''WHERE'' then parseQueryConditionsFromSelectQuery u p else Ok ([], p)) (\<lambda>(queryConditions, p).
     rbind (consume u p SYMBOL '';'' '''') (\<lambda>p.
       Ok (\<lparr>sf_TableName = tableName, sf_ColumnsRequired = columnsRequired, sf_QueryConditions = queryConditions\<rparr>, p)))))))"

end
