(* ===== verification/ParserProps.thy ===== *)
theory ParserProps
  imports Parser
begin

text \<open>
  The parser accepts every rendering of a statement's tokens and returns the statement; what it returns
  is well formed; and an \<open>INSERT\<close> with a character that the tokeniser does not know never returns.
\<close>

section \<open>Parser states by the tokens they are going to read\<close>

text \<open>
  The current token and those behind it are the given list; \<open>E\<close> describes the text behind the last
  one. In front of an empty list the parser has just read a token from such a text.
\<close>

fun feeds :: "(string \<Rightarrow> bool) \<Rightarrow> Parser \<Rightarrow> Token list \<Rightarrow> bool" where
  "feeds E p [] \<longleftrightarrow>
     (\<exists>u t s. left t = map of_char s \<and> E s \<and> NextToken u t = (ps_currentToken p, ps_tokeniser p))"
| "feeds E p (t # ts) \<longleftrightarrow> ps_currentToken p = t \<and> printable (tk_Type t) (tk_Value t) \<and>
     (\<exists>s. left (ps_tokeniser p) = map of_char s \<and> renders E s ts)"

definition ascii_end :: "(string \<Rightarrow> bool) \<Rightarrow> bool" where
  "ascii_end E \<longleftrightarrow> (\<forall>s. E s \<longrightarrow> ascii s)"

lemma ascii_end_blank [simp]: "ascii_end blank"
  by (simp add: ascii_end_def blank_ascii)

lemma feeds_token:
  assumes "ascii_end E" "left t = map of_char s" "renders E s ts"
  obtains x t' where "NextToken u t = (x, t')" "feeds E \<lparr>ps_tokeniser = t', ps_currentToken = x\<rparr> ts"
proof (cases ts)
  case Nil
  obtain x t' where "NextToken u t = (x, t')" by fastforce
  with Nil assms(2,3) show ?thesis
    by (intro that [of x t']) auto
next
  case (Cons x xs)
  then have "printable (tk_Type x) (tk_Value x)" using assms(3) by auto
  moreover obtain t' rest where "NextToken u t = (x, t')" "left t' = map of_char rest" "renders E rest xs"
    using NextToken_renders [OF assms(2)] assms(1,3) unfolding Cons ascii_end_def by blast
  ultimately show ?thesis using that Cons by auto
qed

lemma feedsD:
  assumes "feeds E p (Tok tt w # ts)"
  shows "ps_currentToken p = Tok tt w" "cur p = w" "printable tt w"
  using assms by simp_all

declare feeds.simps [simp del] renders.simps [simp del] printable.simps [simp del]

lemma NewParser_feeds:
  assumes "ascii_end E" "renders E q ts"
  shows "feeds E (NewParser u q) ts"
proof -
  have "left (NewTokeniser q) = map of_char q"
    using renders_ascii [OF _ assms(2)] assms(1) by (simp add: left_def NewTokeniser_def ascii_end_def)
  then obtain x t' where "NextToken u (NewTokeniser q) = (x, t')" "feeds E \<lparr>ps_tokeniser = t', ps_currentToken = x\<rparr> ts"
    using feeds_token assms by blast
  then show ?thesis by (simp add: NewParser_def)
qed

text \<open>A call that returns a value with a property.\<close>

definition parses :: "'a result \<Rightarrow> ('a \<Rightarrow> bool) \<Rightarrow> bool" where
  "parses r Q \<longleftrightarrow> (\<exists>x. r = Ok x \<and> Q x)"

lemma parses_Ok [intro]: "Q x \<Longrightarrow> parses (Ok x) Q"
  by (simp add: parses_def)

lemma parses_bind: "parses r (\<lambda>x. parses (f x) Q) \<Longrightarrow> parses (rbind r f) Q"
  by (auto simp: parses_def)

lemma parses_consume:
  assumes "ascii_end E" "feeds E p (Tok tt w # ts)" "v = '''' \<or> w = v" "\<And>p. feeds E p ts \<Longrightarrow> Q p"
  shows "parses (consume u p tt v i) Q"
proof -
  obtain s where s: "left (ps_tokeniser p) = map of_char s" "renders E s ts" and c: "ps_currentToken p = Tok tt w"
    using assms(2) by (auto simp: feeds.simps)
  obtain x t' where "NextToken u (ps_tokeniser p) = (x, t')" and f: "feeds E \<lparr>ps_tokeniser = t', ps_currentToken = x\<rparr> ts"
    using feeds_token [OF assms(1) s] by blast
  then have "consume u p tt v i = Ok \<lparr>ps_tokeniser = t', ps_currentToken = x\<rparr>"
    using assms(3) c by (auto simp: consume_Ok_iff)
  with assms(4) [OF f] show ?thesis by (simp add: parses_def)
qed

lemma consume_feeds:
  assumes "ascii_end E" "feeds E p (Tok tt w # ts)" "v = '''' \<or> w = v"
  obtains p' where "consume u p tt v i = Ok p'" "feeds E p' ts"
  using parses_consume [OF assms, of "\<lambda>p. feeds E p ts" u i] by (auto simp: parses_def)

text \<open>A word is none of the symbols, an identifier none of the keywords.\<close>

lemma printable_word:
  assumes "printable IDENTIFIER w"
  shows "w \<noteq> '',''" "w \<noteq> '')''" "w \<noteq> '';''" "w \<noteq> ''*''" "w \<noteq> ''PRIMARY''" "w \<noteq> ''FROM''" "w \<noteq> ''WHERE''" "w \<noteq> ''''"
  using assms by (auto simp: printable.simps word_char_def upper_def keywordMap_def)

text \<open>Items of a list, with or without a comma in front: the parser does not insist on commas.\<close>

definition comma_if :: "bool \<Rightarrow> Token list" where
  "comma_if b = (if b then [Tok SYMBOL '','' ] else [])"

lemma skip_comma_feeds:
  assumes E: "ascii_end E" and "feeds E p (comma_if b @ Tok tt w # ts)" "w \<noteq> '',''"
  shows "feeds E (skip_comma u p) (Tok tt w # ts)"
proof (cases b)
  case True
  then have f: "feeds E p (Tok SYMBOL '','' # Tok tt w # ts)" using assms(2) by (simp add: comma_if_def)
  then obtain p' where "consume u p SYMBOL '','' '''' = Ok p'" "feeds E p' (Tok tt w # ts)"
    using consume_feeds [OF E f, of "'',''" u "''''"] by auto
  then show ?thesis
    using feedsD(2) [OF f] by (simp add: skip_comma_def)
next
  case False
  then show ?thesis
    using assms feedsD(2) [of E p tt w ts] by (simp add: comma_if_def skip_comma_def)
qed

lemma cur_comma_if:
  "feeds E p (comma_if b @ Tok IDENTIFIER v # ts) \<Longrightarrow> cur p \<noteq> '')''"
  using feedsD(2) [of E p SYMBOL "'',''" "Tok IDENTIFIER v # ts"] feedsD(2,3) [of E p IDENTIFIER v ts] printable_word(2) [of v]
  by (cases b) (auto simp: comma_if_def)

lemma comma_if_word: "feeds E p (comma_if b @ Tok IDENTIFIER v # ts) \<Longrightarrow> printable IDENTIFIER v"
  by (cases b) (auto simp: comma_if_def feeds.simps renders.simps)

section \<open>INSERT INTO\<close>

definition insert_head :: "unicode \<Rightarrow> Parser \<Rightarrow> (string \<times> Parser) result" where
  "insert_head u p =
     rbind (consume u p KEYWORD ''INSERT'' '''') (\<lambda>p.
     rbind (consume u p KEYWORD ''INTO'' '''') (\<lambda>p.
       let tableName = cur p in
     rbind (consume u p IDENTIFIER '''' '''') (\<lambda>p.
     rbind (consume u p KEYWORD ''VALUES'' '''') (\<lambda>p.
     rbind (consume u p SYMBOL ''('' '''') (\<lambda>p. Ok (tableName, p))))))"

lemma ParseInsertIntoTable_eq:
  "ParseInsertIntoTable u p =
     (case insert_head u p of
        Err er \<Rightarrow> Some (Err er)
      | Panic \<Rightarrow> Some Panic
      | Ok (tableName, p) \<Rightarrow>
          map_option (\<lambda>r. rbind r (\<lambda>(columnValues, p).
            rbind (consume u p SYMBOL '')'' '''') (\<lambda>p.
              Ok (\<lparr>it_TableName = tableName, it_ColumnValues = columnValues\<rparr>, p))))
            (insert_loop u p []))"
  by (simp add: ParseInsertIntoTable_def insert_head_def)

definition insert_prefix :: "string \<Rightarrow> Token list" where
  "insert_prefix name = [Tok KEYWORD ''INSERT'', Tok KEYWORD ''INTO'', Tok IDENTIFIER name,
     Tok KEYWORD ''VALUES'', Tok SYMBOL ''('']"

definition value_tokens :: "(bool \<times> string) list \<Rightarrow> Token list" where
  "value_tokens items = concat (map (\<lambda>(b, v). comma_if b @ [Tok IDENTIFIER v]) items)"

lemma insert_head_feeds:
  assumes E: "ascii_end E" and f: "feeds E p (insert_prefix name @ ts)"
  obtains p' where "insert_head u p = Ok (name, p')" "feeds E p' ts"
proof -
  have "parses (insert_head u p) (\<lambda>(n, p). n = name \<and> feeds E p ts)"
    using f unfolding insert_head_def insert_prefix_def Let_def append.simps
    apply -
    apply (rule parses_bind, rule parses_consume [OF E], assumption, simp)+
    apply (auto dest: feedsD)
    done
  then show thesis
    using that by (auto simp: parses_def)
qed

text \<open>One round of the loop reads one value.\<close>

lemma insert_loop_item:
  assumes E: "ascii_end E" and f: "feeds E p (comma_if b @ Tok IDENTIFIER v # ts)"
  obtains p' where "insert_loop u p vs = insert_loop u p' (vs @ [v])" "feeds E p' ts"
proof -
  define q where "q = skip_comma u p"
  have q: "feeds E q (Tok IDENTIFIER v # ts)"
    unfolding q_def by (rule skip_comma_feeds [OF E f printable_word(1) [OF comma_if_word [OF f]]])
  obtain p' where p': "consume u q IDENTIFIER '''' '''' = Ok p'" "feeds E p' ts"
    using consume_feeds [OF E q, of "''''" u "''''"] by auto
  have "insert_loop u p vs = insert_loop u p' (vs @ [v])"
    using cur_comma_if [OF f] feedsD(2) [OF q] p'(1)
    by (subst insert_loop.simps) (simp add: Let_def flip: q_def)
  from this p'(2) show thesis by (rule that)
qed

lemma insert_loop_items:
  assumes E: "ascii_end E" and "feeds E p (value_tokens items @ ts)"
  shows "\<exists>p'. insert_loop u p vs = insert_loop u p' (vs @ map snd items) \<and> feeds E p' ts"
  using assms(2)
proof (induction items arbitrary: p vs)
  case Nil
  then show ?case by (auto simp: value_tokens_def)
next
  case (Cons item items)
  obtain b v where item: "item = (b, v)" by fastforce
  have "feeds E p (comma_if b @ Tok IDENTIFIER v # value_tokens items @ ts)"
    using Cons.prems by (simp add: value_tokens_def item)
  from insert_loop_item [OF E this] obtain p'
    where "insert_loop u p vs = insert_loop u p' (vs @ [v])" "feeds E p' (value_tokens items @ ts)" .
  with Cons.IH [of p' "vs @ [v]"] show ?case by (simp add: item)
qed

text \<open>
  C35. Every rendering of an \<open>INSERT\<close> statement, with any white space and with or without commas between
  the values, is parsed to exactly its table name and its values, whatever follows it.
\<close>

theorem ParseInsertIntoTable_complete:
  assumes "renders blank q (insert_prefix name @ value_tokens items @ Tok SYMBOL '')'' # ts)"
  shows "\<exists>p. ParseInsertIntoTable u (NewParser u q) =
    Some (Ok (\<lparr>it_TableName = name, it_ColumnValues = map snd items\<rparr>, p))"
proof -
  note E = ascii_end_blank
  obtain p where head: "insert_head u (NewParser u q) = Ok (name, p)"
    and p: "feeds blank p (value_tokens items @ Tok SYMBOL '')'' # ts)"
    using insert_head_feeds [OF E NewParser_feeds [OF E assms]] .
  obtain p' where loop: "insert_loop u p [] = insert_loop u p' (map snd items)"
    and p': "feeds blank p' (Tok SYMBOL '')'' # ts)"
    using insert_loop_items [OF E p, of u "[]"] by auto
  obtain p'' where "consume u p' SYMBOL '')'' '''' = Ok p''"
    using consume_feeds [OF E p', of "'')''" u "''''"] by auto
  moreover have "insert_loop u p' (map snd items) = Some (Ok (map snd items, p'))"
    using feedsD(2) [OF p'] by (subst insert_loop.simps) simp
  ultimately show ?thesis
    unfolding ParseInsertIntoTable_eq head by (simp add: loop)
qed

lemmas printable_eval = printable.simps word_char_def upper_def keywordMap_def symbols_def conditionalOperators_def

theorem ParseInsertIntoTable_complete_witness:
  "\<forall>u. \<exists>p. ParseInsertIntoTable u (NewParser u '' INSERT INTO t VALUES ( 1 , ab ) ;'') =
    Some (Ok (\<lparr>it_TableName = ''t'', it_ColumnValues = [''1'', ''ab'']\<rparr>, p))"
proof
  fix u
  have "renders blank (spaced (insert_prefix ''t'' @ value_tokens [(False, ''1''), (True, ''ab'')] @
      Tok SYMBOL '')'' # [Tok SYMBOL '';'']) @ '''')
    (insert_prefix ''t'' @ value_tokens [(False, ''1''), (True, ''ab'')] @ Tok SYMBOL '')'' # [Tok SYMBOL '';''])"
    by (rule renders_spaced)
      (simp_all add: insert_prefix_def value_tokens_def comma_if_def printable_eval blank_def)
  from ParseInsertIntoTable_complete [OF this, of u]
  show "\<exists>p. ParseInsertIntoTable u (NewParser u '' INSERT INTO t VALUES ( 1 , ab ) ;'') =
    Some (Ok (\<lparr>it_TableName = ''t'', it_ColumnValues = [''1'', ''ab'']\<rparr>, p))"
    by (simp add: spaced_def insert_prefix_def value_tokens_def comma_if_def)
qed

text \<open>A parser at an unknown character reads empty identifiers for ever.\<close>

definition stuck :: "unicode \<Rightarrow> Parser \<Rightarrow> bool" where
  "stuck u p \<longleftrightarrow> NextToken u (ps_tokeniser p) = (ps_currentToken p, ps_tokeniser p) \<and>
     ps_currentToken p = Tok IDENTIFIER ''''"

lemma stuck_consume: "stuck u p \<Longrightarrow> consume u p IDENTIFIER '''' '''' = Ok p"
  by (simp add: stuck_def consume_Ok_iff)

lemma stuck_insert_loop: "stuck u p \<Longrightarrow> insert_loop u p vs = None"
proof (rule ccontr)
  assume stuck: "stuck u p" and "insert_loop u p vs \<noteq> None"
  then obtain r where r: "insert_loop u p vs = Some r" by blast
  have "\<not> stuck u p"
  proof (rule insert_loop.raw_induct [where P = "\<lambda>u p vs r. \<not> stuck u p", OF _ r])
    fix loop :: "unicode \<Rightarrow> Parser \<Rightarrow> string list \<Rightarrow> (string list \<times> Parser) result option" and u p vs r
    assume IH: "\<And>u p vs r. loop u p vs = Some r \<Longrightarrow> \<not> stuck u p"
      and body: "(if cur p = '')'' then Some (Ok (vs, p))
        else let p = skip_comma u p; columnValue = cur p
             in case consume u p IDENTIFIER '''' '''' of
                  Ok p \<Rightarrow> loop u p (vs @ [columnValue])
                | Err er \<Rightarrow> Some (Err er) | Panic \<Rightarrow> Some Panic) = Some r"
    show "\<not> stuck u p"
    proof
      assume s: "stuck u p"
      then have c: "cur p = ''''" by (simp add: stuck_def)
      then have "skip_comma u p = p" by (simp add: skip_comma_def)
      with body s c have "loop u p (vs @ ['''']) = Some r"
        by (simp add: stuck_consume)
      with IH s show False by blast
    qed
  qed
  with stuck show False by simp
qed

text \<open>An unknown ASCII character, behind white space and with anything in ASCII behind it.\<close>

definition unknown_char :: "char \<Rightarrow> bool" where
  "unknown_char c \<longleftrightarrow> (of_char c :: nat) < 128 \<and> \<not> space_char c \<and> \<not> word_char c \<and>
     c \<notin> set symbols \<and> c \<notin> set conditionalOperators"

definition at_unknown :: "string \<Rightarrow> bool" where
  "at_unknown s \<longleftrightarrow> (\<exists>ws c rest. s = ws @ c # rest \<and> blank ws \<and> unknown_char c \<and> ascii rest)"

lemma ascii_end_at_unknown: "ascii_end at_unknown"
  by (auto simp: ascii_end_def at_unknown_def unknown_char_def blank_ascii)

lemma unknown_not_known:
  assumes "unknown_char c"
  shows "\<not> known u (of_char c)"
  using assms rune_tests_word [of c u] rune_tests(1) [of c u]
  by (auto simp: known_def ContainsRune_ascii ascii_classes unknown_char_def)

lemma feeds_unknown_stuck:
  assumes "feeds at_unknown p []"
  shows "stuck u p"
proof -
  obtain u' t s where t: "left t = map of_char s" "at_unknown s"
    "NextToken u' t = (ps_currentToken p, ps_tokeniser p)"
    using assms by (auto simp: feeds.simps)
  then obtain ws c rest where s: "s = ws @ c # rest" "blank ws" "unknown_char c" "ascii rest"
    by (auto simp: at_unknown_def)
  define t1 where "t1 = advance (length (takeWhile (IsSpace u') (left t))) t"
  have left1: "left t1 = of_char c # map of_char rest"
    using NextToken_spaces [of t ws "c # rest" u'] t(1) s by (auto simp: t1_def unknown_char_def)
  have no: "\<not> known u' (of_char c)" "\<not> known u (of_char c)"
    using unknown_not_known [OF s(3)] by blast+
  have "takeWhile (IsSpace u') (left t1) = []" and adv: "advance 0 t1 = t1"
    using no(1) by (simp_all add: left1 known_def advance_def)
  have "NextToken u' t = NextToken u' t1"
    unfolding NextToken_char [OF t1_def left1]
    using NextToken_char [of t1 u' t1, OF _ left1] left1 no(1) by (simp add: known_def advance_def)
  also have "\<dots> = (Tok IDENTIFIER [], t1)"
    by (rule NextToken_unknown [OF left1 no(1)])
  finally have "ps_currentToken p = Tok IDENTIFIER []" "ps_tokeniser p = t1"
    using t(3) by auto
  with NextToken_unknown [OF left1 no(2)] show ?thesis
    by (simp add: stuck_def)
qed



text \<open>On an input of known characters the loop ends: every round reads a token or is the last.\<close>

lemma consume_input:
  "consume u p tt v i = Ok p' \<Longrightarrow> tk_input (ps_tokeniser p') = tk_input (ps_tokeniser p)"
  using NextToken_input [of u "ps_tokeniser p"] by (auto simp: consume_Ok_iff)

lemma skip_comma_input: "tk_input (ps_tokeniser (skip_comma u p)) = tk_input (ps_tokeniser p)"
  by (auto simp: skip_comma_def dest: consume_input split: result.splits)

definition left_to_do :: "Parser \<Rightarrow> nat" where
  "left_to_do p = todo p + (if tk_Type (ps_currentToken p) = EOF then 0 else 1)"

lemma consume_known:
  assumes "\<forall>r \<in> set (tk_input (ps_tokeniser p)). known u r" "consume u p tt v i = Ok p'" "tt \<noteq> EOF"
  shows "left_to_do p' < left_to_do p"
proof -
  have n: "NextToken u (ps_tokeniser p) = (ps_currentToken p', ps_tokeniser p')" "tk_Type (ps_currentToken p) \<noteq> EOF"
    using assms(2,3) by (auto simp: consume_Ok_iff)
  with NextToken_known [OF assms(1) n(1)] consume_progress(1) [OF assms(2)] show ?thesis
    by (auto simp: left_to_do_def todo_def)
qed

lemma skip_comma_known:
  assumes "\<forall>r \<in> set (tk_input (ps_tokeniser p)). known u r"
  shows "left_to_do (skip_comma u p) \<le> left_to_do p"
  using consume_known [OF assms, of SYMBOL] by (auto simp: skip_comma_def less_imp_le split: result.splits)

lemma insert_loop_returns:
  assumes "\<forall>r \<in> set (tk_input (ps_tokeniser p)). known u r"
  shows "\<exists>r. insert_loop u p vs = Some r"
  using assms
proof (induction "left_to_do p" arbitrary: p vs rule: less_induct)
  case less
  let ?q = "skip_comma u p"
  have q: "\<forall>r \<in> set (tk_input (ps_tokeniser ?q)). known u r"
    using less.prems by (simp add: skip_comma_input)
  show ?case
  proof (cases "consume u ?q IDENTIFIER '''' ''''")
    case (Ok p')
    have "left_to_do p' < left_to_do p"
      using consume_known [OF q Ok] skip_comma_known [OF less.prems] by simp
    moreover have "\<forall>r \<in> set (tk_input (ps_tokeniser p')). known u r"
      using q consume_input [OF Ok] by simp
    ultimately show ?thesis
      using less.hyps [of p' "vs @ [cur ?q]"] Ok by (subst insert_loop.simps) (auto simp: Let_def)
  qed (subst insert_loop.simps, simp add: Let_def)+
qed

lemma insert_head_input:
  assumes "insert_head u p = Ok (n, p')"
  shows "tk_input (ps_tokeniser p') = tk_input (ps_tokeniser p)"
  using assms by (auto simp: insert_head_def rbind_Ok_iff Let_def dest!: consume_input)



section \<open>CREATE TABLE\<close>

text \<open>The items in the brackets: columns and primary key clauses, each with or without a comma in front.\<close>

datatype create_item = Col string DataType | PrimaryKey string

fun type_name :: "DataType \<Rightarrow> string" where
  "type_name d = (if d = DataType_Int then ''INT'' else if d = DataType_String then ''STRING'' else ''BOOL'')"

fun create_item_tokens :: "create_item \<Rightarrow> Token list" where
  "create_item_tokens (Col name d) = [Tok IDENTIFIER name, Tok IDENTIFIER (type_name d)]"
| "create_item_tokens (PrimaryKey c) =
     [Tok KEYWORD ''PRIMARY'', Tok KEYWORD ''KEY'', Tok SYMBOL ''('', Tok IDENTIFIER c, Tok SYMBOL '')'']"

definition item_tokens :: "(bool \<times> create_item) list \<Rightarrow> Token list" where
  "item_tokens items = concat (map (\<lambda>(b, item). comma_if b @ create_item_tokens item) items)"

definition create_tokens :: "string \<Rightarrow> (bool \<times> create_item) list \<Rightarrow> Token list" where
  "create_tokens name items =
     [Tok KEYWORD ''CREATE'', Tok KEYWORD ''TABLE'', Tok IDENTIFIER name, Tok SYMBOL ''(''] @
     item_tokens items @ [Tok SYMBOL '')'']"

fun add_item :: "Column list \<times> string \<Rightarrow> create_item \<Rightarrow> Column list \<times> string" where
  "add_item (cols, pk) (Col name d) = (cols @ [\<lparr>ColumnName = name, col_DataType = d\<rparr>], pk)"
| "add_item (cols, pk) (PrimaryKey c) = (cols, c)"

fun known_type :: "create_item \<Rightarrow> bool" where
  "known_type (Col name d) \<longleftrightarrow> d \<in> {DataType_Int, DataType_String, DataType_Bool}"
| "known_type (PrimaryKey c) \<longleftrightarrow> True"

lemma getDataTypeFromString_name:
  "d \<in> {DataType_Int, DataType_String, DataType_Bool} \<Longrightarrow> getDataTypeFromString (type_name d) = Ok d"
  by auto

lemma createTable_item_feeds:
  assumes E: "ascii_end E" and f: "feeds E p (comma_if b @ create_item_tokens item @ ts)" and "known_type item"
  obtains p' where "createTable_item u p acc = Ok (add_item acc item, p')" "feeds E p' ts" "cur p \<noteq> '')''"
proof -
  obtain cols pk where acc: "acc = (cols, pk)" by fastforce
  define q where "q = skip_comma u p"
  have cur: "cur p \<noteq> '')''" if "feeds E p (comma_if b @ Tok tt w # ts)" "w \<noteq> '')''" for tt w ts
    using that feedsD(2) [of E p] by (cases b) (auto simp: comma_if_def)
  show thesis
  proof (cases item)
    case (Col name d)
    let ?ts = "Tok IDENTIFIER (type_name d) # ts"
    have f': "feeds E p (comma_if b @ Tok IDENTIFIER name # ?ts)"
      using f by (simp add: Col)
    note w = printable_word [OF comma_if_word [OF f']]
    have q: "feeds E q (Tok IDENTIFIER name # ?ts)"
      unfolding q_def by (rule skip_comma_feeds [OF E f' w(1)])
    obtain p1 where p1: "consume u q IDENTIFIER '''' '''' = Ok p1" "feeds E p1 ?ts"
      using consume_feeds [OF E q, of "''''" u "''''"] by auto
    obtain p2 where p2: "consume u p1 IDENTIFIER '''' '''' = Ok p2" "feeds E p2 ts"
      using consume_feeds [OF E p1(2), of "''''" u "''''"] by auto
    have "createTable_item u p acc = Ok (add_item acc item, p2)"
      using assms(3) w(5) feedsD(2) [OF q] feedsD(2) [OF p1(2)] p1(1) p2(1) getDataTypeFromString_name [of d]
      by (simp add: createTable_item_def acc Col Let_def flip: q_def del: getDataTypeFromString.simps type_name.simps)
    then show thesis using p2(2) cur [OF f' w(2)] that by blast
  next
    case (PrimaryKey c)
    let ?ts = "Tok KEYWORD ''KEY'' # Tok SYMBOL ''('' # Tok IDENTIFIER c # Tok SYMBOL '')'' # ts"
    have f': "feeds E p (comma_if b @ Tok KEYWORD ''PRIMARY'' # ?ts)"
      using f by (simp add: PrimaryKey)
    have q: "feeds E q (Tok KEYWORD ''PRIMARY'' # ?ts)"
      unfolding q_def by (rule skip_comma_feeds [OF E f']) simp
    then have "parses (parsePrimaryKeyColumn u q) (\<lambda>(n, p). n = c \<and> feeds E p ts)"
      unfolding parsePrimaryKeyColumn_def Let_def
      apply -
      apply (rule parses_bind, rule parses_consume [OF E], assumption, simp)+
      apply (auto dest: feedsD)
      done
    then obtain p' where p': "parsePrimaryKeyColumn u q = Ok (c, p')" "feeds E p' ts"
      by (auto simp: parses_def)
    have "createTable_item u p acc = Ok (add_item acc item, p')"
      using feedsD(2) [OF q] p'(1) by (simp add: createTable_item_def acc PrimaryKey Let_def flip: q_def)
    then show thesis using p'(2) cur [OF f'] that by simp
  qed
qed

lemma createTable_loop_feeds:
  assumes E: "ascii_end E" and "feeds E p (item_tokens items @ Tok SYMBOL '')'' # ts)" "\<forall>(b, item) \<in> set items. known_type item"
  shows "\<exists>p'. createTable_loop u p acc = Ok (foldl add_item acc (map snd items), p') \<and> feeds E p' (Tok SYMBOL '')'' # ts)"
  using assms(2,3)
proof (induction items arbitrary: p acc)
  case Nil
  then have f: "feeds E p (Tok SYMBOL '')'' # ts)" by (simp add: item_tokens_def)
  with feedsD(2) [OF f] show ?case by (subst createTable_loop.simps) simp
next
  case (Cons x items)
  obtain b item where x: "x = (b, item)" by fastforce
  have "feeds E p (comma_if b @ create_item_tokens item @ item_tokens items @ Tok SYMBOL '')'' # ts)"
    using Cons.prems(1) by (simp add: item_tokens_def x)
  from createTable_item_feeds [OF E this, of u acc] obtain p'
    where p': "createTable_item u p acc = Ok (add_item acc item, p')"
      "feeds E p' (item_tokens items @ Tok SYMBOL '')'' # ts)" "cur p \<noteq> '')''"
    using Cons.prems(2) by (auto simp: x)
  with Cons.IH [OF p'(2), of "add_item acc item"] Cons.prems(2) show ?case
    by (subst createTable_loop.simps) (simp add: x)
qed

definition columns_of :: "(bool \<times> create_item) list \<Rightarrow> Column list" where
  "columns_of items = fst (foldl add_item ([], '''') (map snd items))"

definition key_of :: "(bool \<times> create_item) list \<Rightarrow> string" where
  "key_of items = snd (foldl add_item ([], '''') (map snd items))"

lemma ParseCreateTable_renders:
  assumes "renders blank q (create_tokens name items @ ts)" "\<forall>(b, item) \<in> set items. known_type item"
  shows "\<exists>p. ParseCreateTable u (NewParser u q) =
    (if columns_of items = [] then Err (ParseError NoColumnDetail)
     else if key_of items = '''' then
       Ok (\<lparr>ct_TableName = name, ct_ColumnDetails = columns_of items, ct_PrimaryKeyColumnPosition = 0,
            ct_SecondaryIndexes = []\<rparr>, p)
     else if key_of items \<notin> ColumnName ` set (columns_of items) then
       Err (ParseError (PrimaryKeyColumnNotFound (key_of items)))
     else
       Ok (\<lparr>ct_TableName = name, ct_ColumnDetails = columns_of items,
            ct_PrimaryKeyColumnPosition = nat (primaryKeyPosition (columns_of items) (key_of items)),
            ct_SecondaryIndexes = []\<rparr>, p))"
proof -
  note E = ascii_end_blank
  let ?items = "item_tokens items @ Tok SYMBOL '')'' # ts"
  have f0: "feeds blank (NewParser u q) (Tok KEYWORD ''CREATE'' # Tok KEYWORD ''TABLE'' # Tok IDENTIFIER name #
      Tok SYMBOL ''('' # ?items)"
    using NewParser_feeds [OF E assms(1)] by (simp add: create_tokens_def)
  obtain p1 where p1: "consume u (NewParser u q) KEYWORD ''CREATE'' '''' = Ok p1"
      "feeds blank p1 (Tok KEYWORD ''TABLE'' # Tok IDENTIFIER name # Tok SYMBOL ''('' # ?items)"
    using consume_feeds [OF E f0, of "''CREATE''" u "''''"] by auto
  obtain p2 where p2: "consume u p1 KEYWORD ''TABLE'' '''' = Ok p2"
      "feeds blank p2 (Tok IDENTIFIER name # Tok SYMBOL ''('' # ?items)"
    using consume_feeds [OF E p1(2), of "''TABLE''" u "''''"] by auto
  obtain p3 where p3: "consume u p2 IDENTIFIER '''' '''' = Ok p3" "feeds blank p3 (Tok SYMBOL ''('' # ?items)"
    using consume_feeds [OF E p2(2), of "''''" u "''''"] by auto
  obtain p4 where p4: "consume u p3 SYMBOL ''('' '''' = Ok p4" "feeds blank p4 ?items"
    using consume_feeds [OF E p3(2), of "''(''" u "''''"] by auto
  obtain p5 where p5: "createTable_loop u p4 ([], '''') = Ok ((columns_of items, key_of items), p5)"
      "feeds blank p5 (Tok SYMBOL '')'' # ts)"
    using createTable_loop_feeds [OF E p4(2) assms(2), of u "([], '''')"] by (auto simp: columns_of_def key_of_def)
  obtain p6 where p6: "consume u p5 SYMBOL '')'' '''' = Ok p6"
    using consume_feeds [OF E p5(2), of "'')''" u "''''"] by auto
  have "ParseCreateTable u (NewParser u q) =
      rbind (primaryKeyColumnPosition (columns_of items) (key_of items)) (\<lambda>pos.
        Ok (\<lparr>ct_TableName = name, ct_ColumnDetails = columns_of items,
           ct_PrimaryKeyColumnPosition = pos, ct_SecondaryIndexes = []\<rparr>, p6))"
    using feedsD(2) [OF p2(2)] by (simp add: ParseCreateTable_def p1(1) p2(1) p3(1) p4(1) p5(1) p6 Let_def)
  moreover have "primaryKeyPosition (columns_of items) (key_of items) = - 1 \<longleftrightarrow>
      key_of items \<notin> ColumnName ` set (columns_of items)"
    using primaryKeyPosition_cases [of "columns_of items" "key_of items"] by (metis imageI nth_mem of_nat_0_le_iff neg_0_le_iff_le not_one_le_zero)
  ultimately show ?thesis
    by (intro exI [of _ p6]) (simp add: primaryKeyColumnPosition_def Let_def)
qed

text \<open>
  C33. Every rendering of a \<open>CREATE TABLE\<close> statement is parsed to its name and columns. The position of the
  primary key is that of the last column with the name in the last \<open>PRIMARY KEY\<close> clause, 0 without such
  a clause; a key that is no column is refused, and so is a table without columns.
\<close>

theorem ParseCreateTable_complete:
  assumes "renders blank q (create_tokens name items @ ts)" "\<forall>(b, item) \<in> set items. known_type item"
  shows "\<exists>p. ParseCreateTable u (NewParser u q) =
    (if columns_of items = [] then Err (ParseError NoColumnDetail)
     else if key_of items = '''' then
       Ok (\<lparr>ct_TableName = name, ct_ColumnDetails = columns_of items, ct_PrimaryKeyColumnPosition = 0,
            ct_SecondaryIndexes = []\<rparr>, p)
     else if key_of items \<notin> ColumnName ` set (columns_of items) then
       Err (ParseError (PrimaryKeyColumnNotFound (key_of items)))
     else
       Ok (\<lparr>ct_TableName = name, ct_ColumnDetails = columns_of items,
            ct_PrimaryKeyColumnPosition = nat (primaryKeyPosition (columns_of items) (key_of items)),
            ct_SecondaryIndexes = []\<rparr>, p))"
  using assms by (rule ParseCreateTable_renders)

theorem ParseCreateTable_complete_witness:
  "\<forall>u. \<exists>p. ParseCreateTable u (NewParser u '' CREATE TABLE t ( a INT , b STRING , PRIMARY KEY ( b ) )'') =
    Ok (\<lparr>ct_TableName = ''t'', ct_ColumnDetails = [\<lparr>ColumnName = ''a'', col_DataType = DataType_Int\<rparr>,
      \<lparr>ColumnName = ''b'', col_DataType = DataType_String\<rparr>], ct_PrimaryKeyColumnPosition = 1,
      ct_SecondaryIndexes = []\<rparr>, p)"
proof
  fix u
  let ?items = "[(False, Col ''a'' DataType_Int), (True, Col ''b'' DataType_String), (True, PrimaryKey ''b'')]"
  have r: "renders blank (spaced (create_tokens ''t'' ?items @ []) @ '''') (create_tokens ''t'' ?items @ [])"
    by (rule renders_spaced)
      (simp_all add: create_tokens_def item_tokens_def comma_if_def printable_eval blank_def)
  have t: "\<forall>(b, item) \<in> set ?items. known_type item" by simp
  from ParseCreateTable_complete [OF r t, of u]
  show "\<exists>p. ParseCreateTable u (NewParser u '' CREATE TABLE t ( a INT , b STRING , PRIMARY KEY ( b ) )'') =
    Ok (\<lparr>ct_TableName = ''t'', ct_ColumnDetails = [\<lparr>ColumnName = ''a'', col_DataType = DataType_Int\<rparr>,
      \<lparr>ColumnName = ''b'', col_DataType = DataType_String\<rparr>], ct_PrimaryKeyColumnPosition = 1,
      ct_SecondaryIndexes = []\<rparr>, p)"
    by (simp add: spaced_def create_tokens_def item_tokens_def comma_if_def columns_of_def key_of_def
        primaryKeyPosition_def)
qed

text \<open>What is returned is well formed.\<close>

definition table_wf :: "CreateTable \<Rightarrow> bool" where
  "table_wf ct \<longleftrightarrow> ct_ColumnDetails ct \<noteq> [] \<and> ct_PrimaryKeyColumnPosition ct < length (ct_ColumnDetails ct) \<and>
     typed (ct_ColumnDetails ct) \<and> ct_SecondaryIndexes ct = []"

lemma getDataTypeFromString_typed:
  "getDataTypeFromString s = Ok d \<Longrightarrow> d \<in> {DataType_Int, DataType_String, DataType_Bool}"
  by (auto split: if_splits)

lemma createTable_item_types:
  assumes "createTable_item u p acc = Ok (acc', p')" "typed (fst acc)"
  shows "typed (fst acc')"
proof -
  define q where "q = skip_comma u p"
  show ?thesis
  proof (cases "cur q = ''PRIMARY''")
    case True
    with assms show ?thesis
      by (auto simp: createTable_item_def Let_def rbind_Ok_iff split_beta simp flip: q_def)
  next
    case False
    with assms(1) obtain d name where "getDataTypeFromString name = Ok d"
      and acc': "\<exists>n. fst acc' = fst acc @ [\<lparr>ColumnName = n, col_DataType = d\<rparr>]"
      by (auto simp: createTable_item_def Let_def rbind_Ok_iff split_beta
          simp flip: q_def simp del: getDataTypeFromString.simps)
    from getDataTypeFromString_typed [OF this(1)] acc' assms(2) show ?thesis by auto
  qed
qed

lemma createTable_loop_types:
  assumes "createTable_loop u p acc = Ok (acc', p')" "typed (fst acc)"
  shows "typed (fst acc')"
  using assms
proof (induction u p acc rule: createTable_loop.induct)
  case (1 u p acc)
  show ?case
  proof (cases "cur p = '')''")
    case True
    with 1(2,3) show ?thesis by (simp add: createTable_loop.simps [of u p])
  next
    case False
    with 1(2) obtain acc1 p1 where item: "createTable_item u p acc = Ok (acc1, p1)"
      and rest: "createTable_loop u p1 acc1 = Ok (acc', p')"
      by (auto simp: createTable_loop.simps [of u p] split: result.splits)
    show ?thesis
      by (rule 1(1) [OF False item refl rest createTable_item_types [OF item 1(3)]])
  qed
qed

text \<open>
  C34. Whatever the query is, a \<open>CREATE TABLE\<close> that is accepted has at least one column, only the three
  types, its primary key position inside the columns, and no secondary index: SQL cannot create one.
\<close>

theorem ParseCreateTable_wf:
  assumes "ParseCreateTable u (NewParser u q) = Ok (ct, p)"
  shows "table_wf ct"
proof -
  obtain p4 cols pk p5 pos where loop: "createTable_loop u p4 ([], '''') = Ok ((cols, pk), p5)"
    and pos: "primaryKeyColumnPosition cols pk = Ok pos"
    and ct: "ct_ColumnDetails ct = cols" "ct_PrimaryKeyColumnPosition ct = pos" "ct_SecondaryIndexes ct = []"
    using assms by (auto simp: ParseCreateTable_def rbind_Ok_iff Let_def)
  have "cols \<noteq> [] \<and> pos < length cols"
    using pos primaryKeyPosition_cases [of cols pk]
    by (auto simp: primaryKeyColumnPosition_def Let_def split: if_splits)
  with createTable_loop_types [OF loop] ct show ?thesis
    by (simp add: table_wf_def)
qed

theorem ParseCreateTable_wf_witness:
  "\<forall>u. \<exists>ct p. ParseCreateTable u (NewParser u '' CREATE TABLE t ( a INT )'') = Ok (ct, p) \<and> table_wf ct"
proof
  fix u
  let ?items = "[(False, Col ''a'' DataType_Int)]" and ?q = "'' CREATE TABLE t ( a INT )''"
  have "renders blank (spaced (create_tokens ''t'' ?items @ []) @ '''') (create_tokens ''t'' ?items @ [])"
    by (rule renders_spaced)
      (simp_all add: create_tokens_def item_tokens_def comma_if_def printable_eval blank_def)
  from ParseCreateTable_renders [OF this, of u]
  obtain ct p where "ParseCreateTable u (NewParser u ?q) = Ok (ct, p)"
    by (auto simp: spaced_def create_tokens_def item_tokens_def comma_if_def columns_of_def key_of_def)
  with ParseCreateTable_wf show "\<exists>ct p. ParseCreateTable u (NewParser u ?q) = Ok (ct, p) \<and> table_wf ct" by blast
qed

section \<open>SELECT\<close>

definition column_token :: "string \<Rightarrow> Token" where
  "column_token v = (if v = ''*'' then Tok SYMBOL ''*'' else Tok IDENTIFIER v)"

definition column_tokens :: "(bool \<times> string) list \<Rightarrow> Token list" where
  "column_tokens items = concat (map (\<lambda>(b, v). comma_if b @ [column_token v]) items)"

definition condition_tokens :: "QueryCondition \<Rightarrow> Token list" where
  "condition_tokens qc = [Tok IDENTIFIER (qc_ColumnName qc), Tok CONDITIONAL_OPERATOR (qc_QueryType qc),
     Tok IDENTIFIER (qc_Value qc)]"

fun and_tokens :: "QueryCondition list \<Rightarrow> Token list" where
  "and_tokens [] = []"
| "and_tokens (qc # qcs) = Tok KEYWORD ''AND'' # condition_tokens qc @ and_tokens qcs"

fun where_tokens :: "QueryCondition list \<Rightarrow> Token list" where
  "where_tokens [] = []"
| "where_tokens (qc # qcs) = Tok KEYWORD ''WHERE'' # condition_tokens qc @ and_tokens qcs"

definition select_tokens :: "string \<Rightarrow> (bool \<times> string) list \<Rightarrow> QueryCondition list \<Rightarrow> Token list" where
  "select_tokens name cols conds =
     Tok KEYWORD ''SELECT'' # column_tokens cols @ [Tok KEYWORD ''FROM'', Tok IDENTIFIER name] @
     where_tokens conds @ [Tok SYMBOL '';'']"

lemma selectColumns_loop_item:
  assumes E: "ascii_end E" and f: "feeds E p (comma_if b @ column_token v # ts)" and i: "i < ColumnsSelectLimit"
  obtains p' where "selectColumns_loop u i p cs = selectColumns_loop u (i + 1) p' (cs @ [v])" "feeds E p' ts"
proof -
  obtain tt where tt: "column_token v = Tok tt v" "tt = (if v = ''*'' then SYMBOL else IDENTIFIER)"
    by (simp add: column_token_def)
  have v: "v \<noteq> '','' \<and> v \<noteq> ''FROM'' \<and> (v \<noteq> ''*'' \<longrightarrow> printable IDENTIFIER v)"
  proof (cases "v = ''*''")
    case False
    then show ?thesis
      using f printable_word(1,6) [of v] comma_if_word [of E p b v ts] by (simp add: column_token_def)
  qed simp
  obtain q where q: "(if cur p = '','' then consume u p SYMBOL '','' '''' else Ok p) = Ok q"
    "feeds E q (Tok tt v # ts)" "cur p \<noteq> ''FROM''"
  proof (cases b)
    case True
    then have f: "feeds E p (Tok SYMBOL '','' # Tok tt v # ts)" using f by (simp add: comma_if_def tt(1))
    from consume_feeds [OF E this, of "'',''" u "''''"] feedsD(2) [OF f] that show ?thesis by fastforce
  next
    case False
    then have f: "feeds E p (Tok tt v # ts)" using f by (simp add: comma_if_def tt(1))
    with feedsD(2) [OF f] v that show ?thesis by simp
  qed
  have "(if v = ''*'' then ''*'' else '''') = '''' \<or> v = (if v = ''*'' then ''*'' else '''')" by simp
  from consume_feeds [OF E q(2) this, of u "''''"] obtain p'
    where p': "consume u q tt (if v = ''*'' then ''*'' else '''') '''' = Ok p'" "feeds E p' ts" .
  have "selectColumns_loop u i p cs = selectColumns_loop u (i + 1) p' (cs @ [v])"
    using q(1,3) p'(1) feedsD(2) [OF q(2)] i tt(2)
    by (cases "v = ''*''") (subst selectColumns_loop.simps, simp)+
  then show thesis using p'(2) by (rule that)
qed

lemma selectColumns_loop_feeds:
  assumes E: "ascii_end E"
  shows "\<lbrakk>feeds E p (column_tokens items @ Tok KEYWORD ''FROM'' # ts); i + length items \<le> ColumnsSelectLimit\<rbrakk> \<Longrightarrow>
    \<exists>p'. selectColumns_loop u i p cs = Ok (cs @ map snd items, p') \<and> feeds E p' (Tok KEYWORD ''FROM'' # ts)"
proof (induction items arbitrary: i p cs)
  case Nil
  then have f: "feeds E p (Tok KEYWORD ''FROM'' # ts)" by (simp add: column_tokens_def)
  with feedsD(2) [OF f] show ?case by (subst selectColumns_loop.simps) simp
next
  case (Cons item items)
  obtain b v where item: "item = (b, v)" by fastforce
  have f: "feeds E p (comma_if b @ column_token v # column_tokens items @ Tok KEYWORD ''FROM'' # ts)"
    using Cons.prems(1) by (simp add: column_tokens_def item)
  have i: "i < ColumnsSelectLimit" using Cons.prems(2) by simp
  obtain p' where p': "selectColumns_loop u i p cs = selectColumns_loop u (i + 1) p' (cs @ [v])"
    "feeds E p' (column_tokens items @ Tok KEYWORD ''FROM'' # ts)"
    using selectColumns_loop_item [OF E f i] .
  with Cons.IH [OF p'(2), of "i + 1" "cs @ [v]"] Cons.prems(2) show ?case
    by (simp add: item)
qed

text \<open>One round of the loop over the conditions, behind the \<open>AND\<close>.\<close>

lemma conditions_loop_item:
  assumes E: "ascii_end E" and q: "feeds E q (condition_tokens qc @ ts)" and i: "i < 11"
    and "(if i > 0 then consume u p KEYWORD ''AND'' '''' else Ok p) = Ok q" "cur p \<noteq> '';''"
  obtains p' where "conditions_loop u i p cs = conditions_loop u (i + 1) p' (cs @ [qc])" "feeds E p' ts"
proof -
  have f: "feeds E q (Tok IDENTIFIER (qc_ColumnName qc) # Tok CONDITIONAL_OPERATOR (qc_QueryType qc) #
      Tok IDENTIFIER (qc_Value qc) # ts)"
    using q by (simp add: condition_tokens_def)
  obtain p1 where p1: "consume u q IDENTIFIER '''' ''column name'' = Ok p1"
      "feeds E p1 (Tok CONDITIONAL_OPERATOR (qc_QueryType qc) # Tok IDENTIFIER (qc_Value qc) # ts)"
    using consume_feeds [OF E f, of "''''" u "''column name''"] by auto
  obtain p2 where p2: "consume u p1 CONDITIONAL_OPERATOR '''' '''' = Ok p2" "feeds E p2 (Tok IDENTIFIER (qc_Value qc) # ts)"
    using consume_feeds [OF E p1(2), of "''''" u "''''"] by auto
  obtain p3 where p3: "consume u p2 IDENTIFIER '''' ''query value'' = Ok p3" "feeds E p3 ts"
    using consume_feeds [OF E p2(2), of "''''" u "''query value''"] by auto
  have "conditions_loop u i p cs = conditions_loop u (i + 1) p3 (cs @ [qc])"
    using assms(4,5) i p1(1) p2(1) p3(1) feedsD(2) [OF f] feedsD(2) [OF p1(2)] feedsD(2) [OF p2(2)]
    by (cases qc) (subst conditions_loop.simps, simp)
  then show thesis using p3(2) by (rule that)
qed

lemma conditions_loop_feeds:
  assumes E: "ascii_end E"
  shows "\<lbrakk>feeds E p (and_tokens qcs @ Tok SYMBOL '';'' # ts); 0 < i; i + length qcs \<le> 11\<rbrakk> \<Longrightarrow>
    \<exists>p'. conditions_loop u i p cs = Ok (cs @ qcs, p') \<and> feeds E p' (Tok SYMBOL '';'' # ts)"
proof (induction qcs arbitrary: i p cs)
  case Nil
  then have f: "feeds E p (Tok SYMBOL '';'' # ts)" by simp
  with feedsD(2) [OF f] show ?case by (subst conditions_loop.simps) simp
next
  case (Cons qc qcs)
  let ?ts = "and_tokens qcs @ Tok SYMBOL '';'' # ts"
  have f: "feeds E p (Tok KEYWORD ''AND'' # condition_tokens qc @ ?ts)"
    using Cons.prems(1) by simp
  obtain q where q: "consume u p KEYWORD ''AND'' '''' = Ok q" "feeds E q (condition_tokens qc @ ?ts)"
    using consume_feeds [OF E f, of "''AND''" u "''''"] by auto
  have i: "i < 11" "(if i > 0 then consume u p KEYWORD ''AND'' '''' else Ok p) = Ok q" "cur p \<noteq> '';''"
    using Cons.prems(2,3) q(1) feedsD(2) [OF f] by simp_all
  obtain p' where p': "conditions_loop u i p cs = conditions_loop u (i + 1) p' (cs @ [qc])" "feeds E p' ?ts"
    using conditions_loop_item [OF E q(2) i] .
  with Cons.IH [OF p'(2), of "i + 1" "cs @ [qc]"] Cons.prems(3) show ?case by simp
qed

lemma where_feeds:
  assumes E: "ascii_end E" and f: "feeds E p (where_tokens qcs @ Tok SYMBOL '';'' # ts)" and len: "length qcs \<le> 11"
  obtains p' where "(if cur p = ''WHERE'' then parseQueryConditionsFromSelectQuery u p else Ok ([], p)) = Ok (qcs, p')"
    "feeds E p' (Tok SYMBOL '';'' # ts)"
proof (cases qcs)
  case Nil
  then have f: "feeds E p (Tok SYMBOL '';'' # ts)" using f by simp
  with feedsD(2) [OF f] Nil that show thesis by simp
next
  case (Cons qc qcs')
  let ?ts = "and_tokens qcs' @ Tok SYMBOL '';'' # ts"
  have f: "feeds E p (Tok KEYWORD ''WHERE'' # condition_tokens qc @ ?ts)"
    using f by (simp add: Cons)
  obtain q where q: "consume u p KEYWORD ''WHERE'' '''' = Ok q" "feeds E q (condition_tokens qc @ ?ts)"
    using consume_feeds [OF E f, of "''WHERE''" u "''''"] by auto
  have "feeds E q (Tok IDENTIFIER (qc_ColumnName qc) # tl (condition_tokens qc @ ?ts))"
    using q(2) by (simp add: condition_tokens_def)
  note w = feedsD(2) [OF this] printable_word(3) [OF feedsD(3) [OF this]]
  obtain p1 where p1: "conditions_loop u 0 q [] = conditions_loop u 1 p1 [qc]" "feeds E p1 ?ts"
    using conditions_loop_item [OF E q(2), of 0 u q "[]"] w by auto
  obtain p2 where "conditions_loop u 1 p1 [qc] = Ok (qc # qcs', p2)" "feeds E p2 (Tok SYMBOL '';'' # ts)"
    using conditions_loop_feeds [OF E p1(2), of 1 u "[qc]"] len by (auto simp: Cons)
  with p1 q(1) feedsD(2) [OF f] that show thesis
    by (simp add: parseQueryConditionsFromSelectQuery_def Cons)
qed

lemma ParseSelectFromTable_renders:
  assumes "renders blank q (select_tokens name cols conds @ ts)"
    and "cols \<noteq> []" "length cols \<le> 10" "length conds \<le> 11"
  shows "\<exists>p. ParseSelectFromTable u (NewParser u q) =
    Ok (\<lparr>sf_TableName = name, sf_ColumnsRequired = map snd cols, sf_QueryConditions = conds\<rparr>, p)"
proof -
  note E = ascii_end_blank
  let ?w = "where_tokens conds @ Tok SYMBOL '';'' # ts"
  have f0: "feeds blank (NewParser u q) (Tok KEYWORD ''SELECT'' # column_tokens cols @ Tok KEYWORD ''FROM'' #
      Tok IDENTIFIER name # ?w)"
    using NewParser_feeds [OF E assms(1)] by (simp add: select_tokens_def)
  obtain p1 where p1: "consume u (NewParser u q) KEYWORD ''SELECT'' '''' = Ok p1"
      "feeds blank p1 (column_tokens cols @ Tok KEYWORD ''FROM'' # Tok IDENTIFIER name # ?w)"
    using consume_feeds [OF E f0, of "''SELECT''" u "''''"] by auto
  obtain p2 where p2: "selectColumns_loop u 0 p1 [] = Ok (map snd cols, p2)"
      "feeds blank p2 (Tok KEYWORD ''FROM'' # Tok IDENTIFIER name # ?w)"
    using selectColumns_loop_feeds [OF E p1(2), of 0 u "[]"] assms(3) by (auto simp: ColumnsSelectLimit_def)
  obtain p3 where p3: "consume u p2 KEYWORD ''FROM'' '''' = Ok p3" "feeds blank p3 (Tok IDENTIFIER name # ?w)"
    using consume_feeds [OF E p2(2), of "''FROM''" u "''''"] by auto
  obtain p4 where p4: "consume u p3 IDENTIFIER '''' '''' = Ok p4" "feeds blank p4 ?w"
    using consume_feeds [OF E p3(2), of "''''" u "''''"] by auto
  obtain p5 where p5: "(if cur p4 = ''WHERE'' then parseQueryConditionsFromSelectQuery u p4 else Ok ([], p4)) = Ok (conds, p5)"
      "feeds blank p5 (Tok SYMBOL '';'' # ts)"
    using where_feeds [OF E p4(2) assms(4)] .
  obtain p6 where "consume u p5 SYMBOL '';'' '''' = Ok p6"
    using consume_feeds [OF E p5(2), of "'';''" u "''''"] by auto
  with assms(2) feedsD(2) [OF p3(2)] show ?thesis
    by (simp add: ParseSelectFromTable_def parseColumnsFromSelectQuery_def p1(1) p2(1) p3(1) p4(1) p5(1))
qed

text \<open>
  C38. Every rendering of a \<open>SELECT\<close> statement with one to ten columns and at most eleven conditions is
  parsed to exactly its table, columns and conditions.
\<close>

theorem ParseSelectFromTable_complete:
  assumes "renders blank q (select_tokens name cols conds @ ts)"
    and "cols \<noteq> []" "length cols \<le> 10" "length conds \<le> 11"
  shows "\<exists>p. ParseSelectFromTable u (NewParser u q) =
    Ok (\<lparr>sf_TableName = name, sf_ColumnsRequired = map snd cols, sf_QueryConditions = conds\<rparr>, p)"
  using assms by (rule ParseSelectFromTable_renders)

theorem ParseSelectFromTable_complete_witness:
  "\<forall>u. \<exists>p. ParseSelectFromTable u (NewParser u '' SELECT a , b FROM t WHERE a >= 5 AND b = x ;'') =
    Ok (\<lparr>sf_TableName = ''t'', sf_ColumnsRequired = [''a'', ''b''], sf_QueryConditions =
      [\<lparr>qc_ColumnName = ''a'', qc_QueryType = ''>='', qc_Value = ''5''\<rparr>,
       \<lparr>qc_ColumnName = ''b'', qc_QueryType = ''='', qc_Value = ''x''\<rparr>]\<rparr>, p)"
proof
  fix u
  let ?cols = "[(False, ''a''), (True, ''b'')]" and ?conds = "[\<lparr>qc_ColumnName = ''a'', qc_QueryType = ''>='', qc_Value = ''5''\<rparr>,
       \<lparr>qc_ColumnName = ''b'', qc_QueryType = ''='', qc_Value = ''x''\<rparr>]"
  have r: "renders blank (spaced (select_tokens ''t'' ?cols ?conds @ []) @ '''') (select_tokens ''t'' ?cols ?conds @ [])"
    by (rule renders_spaced)
      (simp_all add: select_tokens_def column_tokens_def column_token_def condition_tokens_def comma_if_def
        printable_eval blank_def)
  show "\<exists>p. ParseSelectFromTable u (NewParser u '' SELECT a , b FROM t WHERE a >= 5 AND b = x ;'') =
    Ok (\<lparr>sf_TableName = ''t'', sf_ColumnsRequired = [''a'', ''b''], sf_QueryConditions = ?conds\<rparr>, p)"
    using ParseSelectFromTable_complete [OF r, of u]
    by (simp add: spaced_def select_tokens_def column_tokens_def column_token_def condition_tokens_def comma_if_def)
qed

lemma selectColumns_loop_bound:
  "selectColumns_loop u i p cs = Ok (r, p') \<Longrightarrow> length r \<le> length cs + (ColumnsSelectLimit - i)"
proof (induction "ColumnsSelectLimit - i" arbitrary: i p cs)
  case 0
  then show ?case
    unfolding selectColumns_loop.simps [of u i p cs] by (auto simp: rbind_Ok_iff split: if_splits)
next
  case (Suc n)
  show ?case
  proof (cases "cur p = ''FROM''")
    case True
    with Suc.prems show ?thesis by (simp add: selectColumns_loop.simps [of u i p])
  next
    case False
    have "\<exists>p1 v. selectColumns_loop u (i + 1) p1 (cs @ [v]) = Ok (r, p')"
      using Suc.prems False Suc.hyps(2) unfolding selectColumns_loop.simps [of u i p cs]
      by (auto simp: rbind_Ok_iff Let_def split: if_splits)
    with Suc.hyps(1) [of "i + 1"] Suc.hyps(2) show ?thesis by fastforce
  qed
qed

lemma conditions_loop_bound:
  "conditions_loop u i p cs = Ok (r, p') \<Longrightarrow> length r \<le> length cs + (11 - i)"
proof (induction "11 - i" arbitrary: i p cs)
  case 0
  then show ?case
    unfolding conditions_loop.simps [of u i p cs] by (auto simp: rbind_Ok_iff split: if_splits)
next
  case (Suc n)
  show ?case
  proof (cases "cur p = '';''")
    case True
    with Suc.prems show ?thesis by (simp add: conditions_loop.simps [of u i p])
  next
    case False
    have "\<exists>p1 v. conditions_loop u (i + 1) p1 (cs @ [v]) = Ok (r, p')"
      using Suc.prems False Suc.hyps(2) unfolding conditions_loop.simps [of u i p cs]
      by (auto simp: rbind_Ok_iff Let_def split: if_splits)
    with Suc.hyps(1) [of "i + 1"] Suc.hyps(2) show ?thesis by fastforce
  qed
qed

text \<open>
  C39. Whatever the query is, an accepted \<open>SELECT\<close> names between one and ten columns and has at most
  eleven conditions.
\<close>

theorem ParseSelectFromTable_bounds:
  assumes "ParseSelectFromTable u p = Ok (sf, p')"
  shows "1 \<le> length (sf_ColumnsRequired sf) \<and> length (sf_ColumnsRequired sf) \<le> 10 \<and>
    length (sf_QueryConditions sf) \<le> 11"
proof -
  obtain p1 p2 p4 p5 where c: "parseColumnsFromSelectQuery u p1 = Ok (sf_ColumnsRequired sf, p2)"
    and w: "(if cur p4 = ''WHERE'' then parseQueryConditionsFromSelectQuery u p4 else Ok ([], p4)) =
      Ok (sf_QueryConditions sf, p5)"
    using assms by (auto simp: ParseSelectFromTable_def rbind_Ok_iff Let_def split del: if_split)
  have "length (sf_ColumnsRequired sf) \<le> 10 \<and> sf_ColumnsRequired sf \<noteq> []"
    using c selectColumns_loop_bound [of u 0 p1 "[]"]
    by (auto simp: parseColumnsFromSelectQuery_def rbind_Ok_iff ColumnsSelectLimit_def split: if_splits)
  moreover have "length (sf_QueryConditions sf) \<le> 11"
    using w conditions_loop_bound [of u 0 _ "[]"]
    by (fastforce simp: parseQueryConditionsFromSelectQuery_def rbind_Ok_iff split: if_splits)
  ultimately show ?thesis by (simp add: Suc_le_eq)
qed

theorem ParseSelectFromTable_bounds_witness:
  "\<forall>u. \<exists>sf p. ParseSelectFromTable u (NewParser u '' SELECT a FROM t ;'') = Ok (sf, p) \<and>
    length (sf_ColumnsRequired sf) \<le> 10"
proof
  fix u
  let ?cols = "[(False, ''a'')]"
  have r: "renders blank (spaced (select_tokens ''t'' ?cols [] @ []) @ '''') (select_tokens ''t'' ?cols [] @ [])"
    by (rule renders_spaced)
      (simp_all add: select_tokens_def column_tokens_def column_token_def comma_if_def printable_eval blank_def)
  have q: "spaced (select_tokens ''t'' ?cols [] @ []) @ '''' = '' SELECT a FROM t ;''"
    by (simp add: spaced_def select_tokens_def column_tokens_def column_token_def comma_if_def)
  from ParseSelectFromTable_renders [OF r, of u]
  obtain sf p where "ParseSelectFromTable u (NewParser u '' SELECT a FROM t ;'') = Ok (sf, p)"
    unfolding q by auto
  with ParseSelectFromTable_bounds [OF this]
  show "\<exists>sf p. ParseSelectFromTable u (NewParser u '' SELECT a FROM t ;'') = Ok (sf, p) \<and>
    length (sf_ColumnsRequired sf) \<le> 10" by blast
qed

end
