(* ===== verification/SqlCodec.thy ===== *)
theory SqlCodec
  imports Codec Parser
begin

text \<open>
  How tables are stored: the byte codecs of \<open>db/create.go\<close> for a table's columns and for its secondary
  indexes, and the row codec of \<open>db/db.go\<close> and \<open>db/select.go\<close>.
\<close>

section \<open>Reading with the errors of this layer\<close>

text \<open>
  \<open>if i+4 > len(buf) { return ... }\<close>, \<open>binary.BigEndian.Uint32(buf[i : i+4])\<close>, \<open>i += 4\<close>, and the same for
  a string whose length has just been read.
\<close>

definition readU32 :: "sql_error \<Rightarrow> bytes \<Rightarrow> nat \<Rightarrow> (u32 \<times> nat) result" where
  "readU32 er buf i =
     (if length buf < i + 4 then Err (SqlError er) else Ok (get_uint32 (slice buf i (i + 4)), i + 4))"

definition readString :: "sql_error \<Rightarrow> sql_error \<Rightarrow> bytes \<Rightarrow> nat \<Rightarrow> (string \<times> nat) result" where
  "readString er1 er2 buf i =
     rbind (readU32 er1 buf i) (\<lambda>(n, i).
       if length buf < i + unat n then Err (SqlError er2) else Ok (slice buf i (i + unat n), i + unat n))"

section \<open>The columns of a table\<close>

definition serialiseColumn :: "Column \<Rightarrow> bytes" where
  "serialiseColumn col = [char_of (unat (col_DataType col))] @ put_uint32 (len32 (ColumnName col)) @ ColumnName col"

definition serialiseCreateTableInput :: "CreateTable \<Rightarrow> bytes" where
  "serialiseCreateTableInput ct =
     put_uint32 (word_of_nat (ct_PrimaryKeyColumnPosition ct)) @ concat (map serialiseColumn (ct_ColumnDetails ct))"

text \<open>One round of the loop; \<open>buf[i]\<close> is in range there.\<close>

definition readColumn :: "bytes \<Rightarrow> nat \<Rightarrow> (Column \<times> nat) result" where
  "readColumn buf i =
     (if length buf \<le> i then Panic
      else rbind (readString ColumnLengthReadError ColumnNameReadError buf (i + 1)) (\<lambda>(name, j).
        Ok (\<lparr>ColumnName = name, col_DataType = word_of_nat (of_char (buf ! i))\<rparr>, j)))"

lemma readString_progress: "readString e1 e2 buf i = Ok (s, j) \<Longrightarrow> i + 4 \<le> j \<and> j \<le> length buf"
  by (auto simp: readString_def readU32_def rbind_Ok_iff split: if_splits)

lemma readColumn_progress: "readColumn buf i = Ok (col, j) \<Longrightarrow> i < j \<and> j \<le> length buf"
  by (auto simp: readColumn_def rbind_Ok_iff dest!: readString_progress split: if_splits)

function readColumns :: "bytes \<Rightarrow> nat \<Rightarrow> Column list \<Rightarrow> Column list result" where
  "readColumns buf i columnDetails =
     (if i < length buf then
        case readColumn buf i of
          Ok (col, i) \<Rightarrow> readColumns buf i (columnDetails @ [col])
        | Err er \<Rightarrow> Err er
        | Panic \<Rightarrow> Panic
      else Ok columnDetails)"
  by pat_completeness auto
termination
  by (relation "measure (\<lambda>(buf, i, _). length buf - i)")
    (auto dest!: sym [of _ "readColumn _ _"] dest: readColumn_progress)

declare readColumns.simps [simp del]

definition deserialiseCreateTableInput :: "bytes \<Rightarrow> CreateTable result" where
  "deserialiseCreateTableInput buf =
     (if length buf < 4 then Err (SqlError PkPositionReadError)
      else rbind (readColumns buf 4 []) (\<lambda>columnDetails.
        Ok \<lparr>ct_TableName = '''', ct_ColumnDetails = columnDetails,
            ct_PrimaryKeyColumnPosition = unat (get_uint32 (slice buf 0 4)), ct_SecondaryIndexes = []\<rparr>))"

section \<open>The secondary indexes of a table\<close>

text \<open>The position of the last column of the name, as in the parser.\<close>

fun serialiseIndexColumns :: "Column list \<Rightarrow> string list \<Rightarrow> bytes result" where
  "serialiseIndexColumns tableColumns [] = Ok []"
| "serialiseIndexColumns tableColumns (col # cols) =
     (let colIdx = primaryKeyPosition tableColumns col
      in if colIdx = - 1 then Err (SqlError (ColumnNotFound col))
         else rbind (serialiseIndexColumns tableColumns cols) (\<lambda>bs. Ok (put_uint32 (word_of_int colIdx) @ bs)))"

fun serialiseIndexes :: "Column list \<Rightarrow> SecondaryIndex list \<Rightarrow> bytes result" where
  "serialiseIndexes tableColumns [] = Ok []"
| "serialiseIndexes tableColumns (si # sis) =
     rbind (serialiseIndexColumns tableColumns (si_Columns si)) (\<lambda>cols.
     rbind (serialiseIndexes tableColumns sis) (\<lambda>bs.
       Ok (put_uint32 (len32 (si_IndexName si)) @ si_IndexName si @ put_uint32 (len32 (si_Columns si)) @ cols @ bs)))"

definition serialiseSecondaryIndexCatalog :: "Column list \<Rightarrow> SecondaryIndex list \<Rightarrow> bytes result" where
  "serialiseSecondaryIndexCatalog tableColumns secondaryIndexes =
     rbind (serialiseIndexes tableColumns secondaryIndexes) (\<lambda>bs. Ok (put_uint32 (len32 secondaryIndexes) @ bs))"

fun readIndexColumns :: "nat \<Rightarrow> bytes \<Rightarrow> nat \<Rightarrow> Column list \<Rightarrow> (string list \<times> nat) result" where
  "readIndexColumns 0 buf i tableColumns = Ok ([], i)"
| "readIndexColumns (Suc n) buf i tableColumns =
     rbind (readU32 ColumnPositionReadError buf i) (\<lambda>(colPosition, i).
       if length tableColumns \<le> unat colPosition then
         Err (SqlError (ColumnPositionOutOfRange (int (length tableColumns) - 1) (uint colPosition)))
       else rbind (readIndexColumns n buf i tableColumns) (\<lambda>(columns, i).
         Ok (ColumnName (tableColumns ! unat colPosition) # columns, i)))"

fun readIndexes :: "nat \<Rightarrow> bytes \<Rightarrow> nat \<Rightarrow> Column list \<Rightarrow> (SecondaryIndex list \<times> nat) result" where
  "readIndexes 0 buf i tableColumns = Ok ([], i)"
| "readIndexes (Suc n) buf i tableColumns =
     rbind (readString IndexNameLenReadError IndexNameReadError buf i) (\<lambda>(indexName, i).
     rbind (readU32 NumIndexColumnsReadError buf i) (\<lambda>(numColumns, i).
     rbind (readIndexColumns (unat numColumns) buf i tableColumns) (\<lambda>(columns, i).
     rbind (readIndexes n buf i tableColumns) (\<lambda>(sis, i).
       Ok (\<lparr>si_Columns = columns, si_IndexName = indexName\<rparr> # sis, i)))))"

definition deserialiseSecondaryIndexCatalog :: "bytes \<Rightarrow> Column list \<Rightarrow> SecondaryIndex list result" where
  "deserialiseSecondaryIndexCatalog buf tableColumns =
     rbind (readU32 NumIndexesReadError buf 0) (\<lambda>(numIndexes, i).
     rbind (readIndexes (unat numIndexes) buf i tableColumns) (\<lambda>(sis, i). Ok sis))"

section \<open>Numbers\<close>

text \<open>
  \<open>strconv.Atoi\<close> for a 64-bit \<open>int\<close>: an optional sign, then decimal digits; the range error is reported
  at the digit that leaves the unsigned range, or at the end.
\<close>

fun parseUint :: "nat \<Rightarrow> string \<Rightarrow> sql_error + nat" where
  "parseUint n [] = Inr n"
| "parseUint n (c # cs) =
     (let d = of_char c :: nat in
      if d < 48 \<or> 57 < d then Inl (AtoiSyntax [])
      else if 2 ^ 64 \<le> 10 * n + (d - 48) then Inl (AtoiRange [])
      else parseUint (10 * n + (d - 48)) cs)"

definition Atoi :: "string \<Rightarrow> int result" where
  "Atoi s =
     (let neg = (s \<noteq> [] \<and> hd s = CHR ''-'');
          digits = (if s \<noteq> [] \<and> hd s \<in> {CHR ''-'', CHR ''+''} then tl s else s)
      in if digits = [] then Err (SqlError (AtoiSyntax s))
         else case parseUint 0 digits of
           Inl (AtoiSyntax _) \<Rightarrow> Err (SqlError (AtoiSyntax s))
         | Inl _ \<Rightarrow> Err (SqlError (AtoiRange s))
         | Inr n \<Rightarrow> if (if neg then 2 ^ 63 < n else 2 ^ 63 \<le> n) then Err (SqlError (AtoiRange s))
                    else Ok (if neg then - int n else int n))"

text \<open>\<open>strconv.FormatUint(_, 2)\<close>.\<close>

fun fmt_bin :: "nat \<Rightarrow> string" where
  "fmt_bin n = (if n < 2 then [char_of (48 + n)] else fmt_bin (n div 2) @ [char_of (48 + n mod 2)])"

declare fmt_bin.simps [simp del]

section \<open>Rows\<close>

text \<open>One value, by the type of its column; a type without a case appends nothing.\<close>

definition serialiseValue :: "DataType \<Rightarrow> string \<Rightarrow> bytes result" where
  "serialiseValue dt columnValue =
     (if dt = DataType_Int then rbind (Atoi columnValue) (\<lambda>v. Ok (put_uint32 (word_of_int v)))
      else if dt = DataType_String then Ok (put_uint32 (len32 columnValue) @ columnValue)
      else if dt = DataType_Bool then
        rbind (Atoi columnValue) (\<lambda>v.
          if v \<noteq> 0 \<and> v \<noteq> 1 then Err (SqlError BoolValueError) else Ok [char_of (nat v)])
      else Ok [])"

text \<open>The values against the columns in order; a value without a column indexes out of range.\<close>

fun serialiseValues :: "Column list \<Rightarrow> string list \<Rightarrow> bytes result" where
  "serialiseValues cols [] = Ok []"
| "serialiseValues [] (v # vs) = Panic"
| "serialiseValues (col # cols) (v # vs) =
     rbind (serialiseValue (col_DataType col) v) (\<lambda>b. rbind (serialiseValues cols vs) (\<lambda>bs. Ok (b @ bs)))"

definition rowKey :: "string \<Rightarrow> string \<Rightarrow> string" where
  "rowKey tableName primaryKeyValue = tableName @ '':'' @ primaryKeyValue"

definition serialiseInsertIntoTableInput :: "CreateTable \<Rightarrow> InsertIntoTable \<Rightarrow> (string \<times> bytes) result" where
  "serialiseInsertIntoTableInput table ins =
     (let vs = it_ColumnValues ins; k = ct_PrimaryKeyColumnPosition table;
          primaryKeyValue = (if k < length vs then vs ! k else '''')
      in rbind (serialiseValues (ct_ColumnDetails table) vs) (\<lambda>buf.
           Ok (rowKey (it_TableName ins) primaryKeyValue, buf)))"

text \<open>
  \<open>valueBuf[lo : hi]\<close> on a slice is checked against its capacity. \<open>[]byte(value)\<close> may have more capacity than
  bytes, filled with zeros; \<open>pad\<close> is the number of them, which the runtime chooses.
\<close>

definition sliceCap :: "nat \<Rightarrow> bytes \<Rightarrow> nat \<Rightarrow> nat \<Rightarrow> bytes result" where
  "sliceCap pad buf lo hi =
     (if hi \<le> length buf + pad then Ok (slice (buf @ replicate pad (char_of (0 :: nat))) lo hi) else Panic)"

fun deserializeValues :: "nat \<Rightarrow> Column list \<Rightarrow> bytes \<Rightarrow> nat \<Rightarrow> string list result" where
  "deserializeValues pad [] buf i = Ok []"
| "deserializeValues pad (col # cols) buf i =
     (if col_DataType col = DataType_Int then
        if length buf < i + 4 then Err (SqlError (IntDeserialiseError (ColumnName col)))
        else rbind (deserializeValues pad cols buf (i + 4)) (\<lambda>vs.
          Ok (fmt_nat (unat (get_uint32 (slice buf i (i + 4)))) # vs))
      else if col_DataType col = DataType_String then
        rbind (sliceCap pad buf i (i + 4)) (\<lambda>l.
        let n = unat (get_uint32 l); i = i + 4 in
        rbind (sliceCap pad buf i (i + n)) (\<lambda>v.
        rbind (deserializeValues pad cols buf (i + n)) (\<lambda>vs. Ok (v # vs))))
      else if col_DataType col = DataType_Bool then
        if length buf \<le> i then Panic
        else rbind (deserializeValues pad cols buf (i + 1)) (\<lambda>vs. Ok (fmt_bin (of_char (buf ! i)) # vs))
      else deserializeValues pad cols buf i)"

definition deserializeRowValues :: "nat \<Rightarrow> CreateTable \<Rightarrow> string \<Rightarrow> string list result" where
  "deserializeRowValues pad schema value = deserializeValues pad (ct_ColumnDetails schema) value 0"

end
