(* ===== verification/SqlCodecProps.thy ===== *)
theory SqlCodecProps
  imports SqlCodec
begin

text \<open>
  The stored forms are read back: exactly for a table's columns, on every form that can be written for
  secondary indexes, and up to the normal form of a value for rows.
\<close>

section \<open>The readers are codecs\<close>

lemma readU32_eq: "readU32 er buf i = Ok r \<longleftrightarrow> readUint32 buf i = Ok r"
  by (auto simp: readU32_def readUint32_def)

lemma readString_eq:
  assumes "length buf < 2 ^ 32"
  shows "readString e1 e2 buf i = Ok r \<longleftrightarrow> readLengthPrefixedString buf i = Ok r"
proof -
  have "(if length buf < j + unat n then Err (SqlError e2) else Ok (slice buf j (j + unat n), j + unat n)) = Ok r \<longleftrightarrow>
    (if word_of_nat (length buf - j) < n then Err StringLengthExceedsPayload
     else Ok (slice buf j (j + unat n), j + unat n)) = Ok r" if "readUint32 buf i = Ok (n, j)" for n j
  proof -
    have "j \<le> length buf" using that by (auto simp: readUint32_def split: if_splits)
    moreover have "unat (word_of_nat (length buf - j) :: u32) = length buf - j"
      using assms by (simp add: unat_of_nat)
    ultimately have "word_of_nat (length buf - j) < n \<longleftrightarrow> length buf < j + unat n"
      by (auto simp: word_less_nat_alt)
    then show ?thesis by simp
  qed
  then show ?thesis
    unfolding readString_def readLengthPrefixedString_def rbind_Ok_iff readU32_eq by fastforce
qed

interpretation sql_u32: codec put_uint32 "readU32 er" for er :: sql_error
  by unfold_locales (simp only: readU32_eq uint32.dec_iff)

interpretation sql_string: codec lengthPrefixed "readString er1 er2" for er1 er2 :: sql_error
  by unfold_locales (simp only: readString_eq lps.dec_iff)

lemma serialiseColumn_eq: "serialiseColumn col = char_of (unat (col_DataType col)) # lengthPrefixed (ColumnName col)"
  by (simp add: serialiseColumn_def lengthPrefixed_def)

lemma byte_char: "(word_of_nat (of_char c) :: 8 word) = w \<longleftrightarrow> c = char_of (unat w)"
proof
  assume "(word_of_nat (of_char c) :: 8 word) = w"
  then have "unat w = of_char c mod 256"
    by (auto simp: unat_of_nat)
  then show "c = char_of (unat w)" by simp
next
  assume "c = char_of (unat w)"
  moreover have "unat w < 256" using unsigned_less [of w] by simp
  ultimately show "(word_of_nat (of_char c) :: 8 word) = w" by (simp add: of_char_of)
qed

interpretation column: codec serialiseColumn readColumn
proof
  fix buf :: bytes and off off' :: nat and x :: Column
  assume buf: "length buf < 2 ^ 32" "off \<le> length buf"
  show "readColumn buf off = Ok (x, off') \<longleftrightarrow>
      prefix (serialiseColumn x) (drop off buf) \<and> off' = off + length (serialiseColumn x)"
  proof (cases "off < length buf")
    case True
    then have drop: "drop off buf = buf ! off # drop (off + 1) buf"
      by (simp add: Cons_nth_drop_Suc)
    have "readColumn buf off = Ok (x, off') \<longleftrightarrow>
        col_DataType x = word_of_nat (of_char (buf ! off)) \<and>
        readString ColumnLengthReadError ColumnNameReadError buf (off + 1) = Ok (ColumnName x, off')"
      using True by (cases x) (auto simp: readColumn_def rbind_Ok_iff)
    also have "\<dots> \<longleftrightarrow> buf ! off = char_of (unat (col_DataType x)) \<and>
        prefix (lengthPrefixed (ColumnName x)) (drop (off + 1) buf) \<and> off' = off + 1 + length (lengthPrefixed (ColumnName x))"
      using True buf(1) byte_char [of "buf ! off" "col_DataType x"]
        sql_string.dec_iff [of buf "off + 1" ColumnLengthReadError ColumnNameReadError "ColumnName x" off'] by auto
    also have "\<dots> \<longleftrightarrow> prefix (serialiseColumn x) (drop off buf) \<and> off' = off + length (serialiseColumn x)"
      unfolding drop serialiseColumn_eq Cons_prefix_Cons by auto
    finally show ?thesis .
  next
    case False
    with buf show ?thesis by (auto simp: readColumn_def serialiseColumn_eq)
  qed
qed

section \<open>Columns\<close>

lemma drop_add: "drop (m + n) xs = drop n (drop m xs)"
  by (simp add: add.commute)

lemma concat_serialiseColumn_Nil: "concat (map serialiseColumn cs) = [] \<longleftrightarrow> cs = []"
  by (cases cs) (simp_all add: serialiseColumn_def)

lemma readColumns_iff:
  "\<lbrakk>length buf < 2 ^ 32; i \<le> length buf\<rbrakk> \<Longrightarrow> readColumns buf i acc = Ok cols \<longleftrightarrow>
    (\<exists>cs. cols = acc @ cs \<and> drop i buf = concat (map serialiseColumn cs))"
proof (induction buf i acc rule: readColumns.induct)
  case (1 buf i acc)
  show ?case
  proof (cases "i < length buf")
    case False
    with 1(3) have "drop i buf = []" by simp
    with False concat_serialiseColumn_Nil show ?thesis
      by (auto simp: readColumns.simps [of buf i])
  next
    case True
    have "readColumns buf i acc = Ok cols \<longleftrightarrow>
        (\<exists>col j. readColumn buf i = Ok (col, j) \<and> readColumns buf j (acc @ [col]) = Ok cols)"
      using True by (auto simp: readColumns.simps [of buf i] split: result.splits)
    also have "\<dots> \<longleftrightarrow> (\<exists>col j. readColumn buf i = Ok (col, j) \<and>
        (\<exists>cs. cols = acc @ [col] @ cs \<and> drop j buf = concat (map serialiseColumn cs)))"
      using 1(1) [OF True _ refl 1(2)] readColumn_progress by (metis append_assoc)
    also have "\<dots> \<longleftrightarrow> (\<exists>col cs. cols = acc @ col # cs \<and> prefix (serialiseColumn col) (drop i buf) \<and>
        drop (i + length (serialiseColumn col)) buf = concat (map serialiseColumn cs))"
      unfolding column.dec_iff [OF 1(2,3)] by auto
    also have "\<dots> \<longleftrightarrow> (\<exists>col cs. cols = acc @ col # cs \<and> drop i buf = concat (map serialiseColumn (col # cs)))"
      unfolding drop_add by (auto simp: prefix_def simp del: drop_drop)
    also have "\<dots> \<longleftrightarrow> (\<exists>cs. cols = acc @ cs \<and> drop i buf = concat (map serialiseColumn cs))"
    proof -
      have "cs \<noteq> []" if "drop i buf = concat (map serialiseColumn cs)" for cs
        using that True by auto
      then show ?thesis by (metis neq_Nil_conv)
    qed
    finally show ?thesis .
  qed
qed

lemma deserialiseCreateTableInput_iff:
  assumes "length buf < 2 ^ 32"
  shows "deserialiseCreateTableInput buf = Ok ct \<longleftrightarrow>
    buf = serialiseCreateTableInput ct \<and> ct_TableName ct = '''' \<and> ct_SecondaryIndexes ct = [] \<and>
    ct_PrimaryKeyColumnPosition ct < 2 ^ 32"
proof (cases "length buf < 4")
  case True
  then show ?thesis
    by (auto simp: deserialiseCreateTableInput_def serialiseCreateTableInput_def)
next
  case False
  let ?w = "get_uint32 (slice buf 0 4)"
  have buf: "buf = put_uint32 ?w @ drop 4 buf"
    using False put_get_uint32 [of "take 4 buf"] by (simp add: slice_def)
  have w: "unat ?w = n \<longleftrightarrow> ?w = word_of_nat n \<and> n < 2 ^ 32" for n
    by (auto simp: unat_of_nat) (use unsigned_less [of ?w] in auto)
  have "deserialiseCreateTableInput buf = Ok ct \<longleftrightarrow>
      drop 4 buf = concat (map serialiseColumn (ct_ColumnDetails ct)) \<and> unat ?w = ct_PrimaryKeyColumnPosition ct \<and>
      ct_TableName ct = '''' \<and> ct_SecondaryIndexes ct = []"
    using False readColumns_iff [OF assms, of 4 "[]"]
    by (cases ct) (auto simp: deserialiseCreateTableInput_def rbind_Ok_iff)
  also have "\<dots> \<longleftrightarrow> buf = serialiseCreateTableInput ct \<and> ct_TableName ct = '''' \<and> ct_SecondaryIndexes ct = [] \<and>
      ct_PrimaryKeyColumnPosition ct < 2 ^ 32"
    unfolding serialiseCreateTableInput_def w
    by (subst (3) buf) (auto simp: append_eq_append_conv get_put_uint32 dest: arg_cong [where f = get_uint32])
  finally show ?thesis .
qed

text \<open>
  The stored form of a table is exact: the decoder accepts a byte string as a table exactly when it is
  what the encoder writes for it (the name and the indexes are stored elsewhere), so no stored schema
  is lost and nothing else is taken for one.
\<close>

theorem CreateTable_exact:
  assumes "length buf < 2 ^ 32"
  shows "deserialiseCreateTableInput buf = Ok ct \<longleftrightarrow>
    buf = serialiseCreateTableInput ct \<and> ct_TableName ct = '''' \<and> ct_SecondaryIndexes ct = [] \<and>
    ct_PrimaryKeyColumnPosition ct < 2 ^ 32"
  by (rule deserialiseCreateTableInput_iff [OF assms])

theorem CreateTable_exact_witness:
  "deserialiseCreateTableInput (serialiseCreateTableInput \<lparr>ct_TableName = '''',
     ct_ColumnDetails = [\<lparr>ColumnName = ''id'', col_DataType = DataType_Int\<rparr>, \<lparr>ColumnName = ''n'', col_DataType = DataType_String\<rparr>],
     ct_PrimaryKeyColumnPosition = 1, ct_SecondaryIndexes = []\<rparr>) =
   Ok \<lparr>ct_TableName = '''',
     ct_ColumnDetails = [\<lparr>ColumnName = ''id'', col_DataType = DataType_Int\<rparr>, \<lparr>ColumnName = ''n'', col_DataType = DataType_String\<rparr>],
     ct_PrimaryKeyColumnPosition = 1, ct_SecondaryIndexes = []\<rparr>"
  by (subst CreateTable_exact) (simp_all add: serialiseCreateTableInput_def serialiseColumn_def)

section \<open>Secondary indexes\<close>

lemma primaryKeyPosition_Some:
  assumes "primaryKeyPosition cols c \<noteq> - 1"
  obtains k where "k < length cols" "primaryKeyPosition cols c = int k" "ColumnName (cols ! k) = c"
  using primaryKeyPosition_cases [of cols c] assms by blast

lemma prefix_length_drop: "\<lbrakk>drop i buf = xs @ ys; i \<le> length buf\<rbrakk> \<Longrightarrow> i + length xs \<le> length buf"
  by (metis Nat.le_diff_conv2 add.commute length_append length_drop le_add1)

lemma readU32_prefix:
  assumes "length buf < 2 ^ 32" "i \<le> length buf" "drop i buf = put_uint32 w @ rest"
  shows "readU32 er buf i = Ok (w, i + 4)" "drop (i + 4) buf = rest" "i + 4 \<le> length buf"
proof -
  show "readU32 er buf i = Ok (w, i + 4)"
    using assms by (simp add: sql_u32.dec_iff)
  show "drop (i + 4) buf = rest"
    using assms(3) by (simp add: drop_add del: drop_drop)
  show "i + 4 \<le> length buf"
    using arg_cong [OF assms(3), of length] assms(2) by simp
qed

lemma readString_prefix:
  assumes "length buf < 2 ^ 32" "i \<le> length buf" "drop i buf = lengthPrefixed s @ rest"
  shows "readString e1 e2 buf i = Ok (s, i + length (lengthPrefixed s))"
    "drop (i + length (lengthPrefixed s)) buf = rest" "i + length (lengthPrefixed s) \<le> length buf"
proof -
  show "readString e1 e2 buf i = Ok (s, i + length (lengthPrefixed s))"
    using assms sql_string.dec_iff [OF assms(1,2)] by (simp add: prefix_def)
  show "drop (i + length (lengthPrefixed s)) buf = rest"
    unfolding drop_add assms(3) by simp
  show "i + length (lengthPrefixed s) \<le> length buf"
    using arg_cong [OF assms(3), of length] assms(2) by simp
qed

lemma readIndexColumns_serialised:
  assumes "length tcs < 2 ^ 32" "length buf < 2 ^ 32"
  shows "\<lbrakk>serialiseIndexColumns tcs cs = Ok bs; i \<le> length buf; drop i buf = bs @ rest\<rbrakk> \<Longrightarrow>
    readIndexColumns (length cs) buf i tcs = Ok (cs, i + length bs) \<and> length bs = 4 * length cs"
proof (induction cs arbitrary: bs i)
  case Nil
  then show ?case by simp
next
  case (Cons c cs)
  then obtain bs' where pos: "primaryKeyPosition tcs c \<noteq> - 1" and bs': "serialiseIndexColumns tcs cs = Ok bs'"
    and bs: "bs = put_uint32 (word_of_int (primaryKeyPosition tcs c)) @ bs'"
    by (auto simp: Let_def rbind_Ok_iff split: if_splits)
  obtain k where k: "k < length tcs" "primaryKeyPosition tcs c = int k" "ColumnName (tcs ! k) = c"
    using primaryKeyPosition_Some [OF pos] .
  have u: "unat (word_of_int (int k) :: u32) = k"
    using k(1) assms(1) by (simp add: unat_of_nat)
  have "drop i buf = put_uint32 (word_of_int (int k)) @ bs' @ rest"
    using Cons.prems(3) by (simp add: bs k(2))
  note r = readU32_prefix [OF assms(2) Cons.prems(2) this]
  from Cons.IH [OF bs' r(3,2)] show ?case
    using u k by (simp add: r(1) bs)
qed

lemma readIndexes_serialised:
  assumes "length tcs < 2 ^ 32" "length buf < 2 ^ 32"
  shows "\<lbrakk>serialiseIndexes tcs sis = Ok bs; i \<le> length buf; drop i buf = bs @ rest\<rbrakk> \<Longrightarrow>
    readIndexes (length sis) buf i tcs = Ok (sis, i + length bs) \<and> 8 * length sis \<le> length bs"
proof (induction sis arbitrary: bs i)
  case Nil
  then show ?case by simp
next
  case (Cons si sis)
  then obtain cols bs' where cols: "serialiseIndexColumns tcs (si_Columns si) = Ok cols"
    and bs': "serialiseIndexes tcs sis = Ok bs'"
    and bs: "bs = lengthPrefixed (si_IndexName si) @ put_uint32 (len32 (si_Columns si)) @ cols @ bs'"
    by (auto simp: rbind_Ok_iff lengthPrefixed_def)
  let ?i1 = "i + length (lengthPrefixed (si_IndexName si))"
  have "drop i buf = lengthPrefixed (si_IndexName si) @ put_uint32 (len32 (si_Columns si)) @ cols @ bs' @ rest"
    using Cons.prems(3) by (simp add: bs)
  note r1 = readString_prefix [OF assms(2) Cons.prems(2) this]
  note r2 = readU32_prefix [OF assms(2) r1(3,2)]
  note r3 = readIndexColumns_serialised [OF assms cols r2(3,2)]
  have len: "length cols = 4 * length (si_Columns si)" using r3 by blast
  have d: "drop (?i1 + 4 + length cols) buf = bs' @ rest"
    using r2(2) by (simp add: drop_add del: drop_drop)
  have le: "?i1 + 4 + length cols \<le> length buf"
    using arg_cong [OF r2(2), of length] r2(3) by simp
  then have "unat (len32 (si_Columns si)) = length (si_Columns si)"
    using assms(2) len by (intro unat_len32) simp
  with r3 Cons.IH [OF bs' le d] have "readIndexes (length (si # sis)) buf i tcs =
      Ok (si # sis, ?i1 + 4 + length cols + length bs')"
    by (simp add: r1(1) r2(1) del: length_lengthPrefixed)
  then show ?case
    using Cons.IH [OF bs' le d] by (simp add: bs)
qed

text \<open>
  A catalog of secondary indexes that can be written at all, because every indexed column is a column
  of the table, is read back as it was, whatever the names of the columns and also if some are equal.
\<close>

theorem SecondaryIndexCatalog_roundtrip:
  assumes "serialiseSecondaryIndexCatalog tcs sis = Ok buf" "length tcs < 2 ^ 32" "length buf < 2 ^ 32"
  shows "deserialiseSecondaryIndexCatalog buf tcs = Ok sis"
proof -
  obtain bs where bs: "serialiseIndexes tcs sis = Ok bs" and buf: "buf = put_uint32 (len32 sis) @ bs"
    using assms(1) by (auto simp: serialiseSecondaryIndexCatalog_def rbind_Ok_iff)
  have "drop 0 buf = put_uint32 (len32 sis) @ bs" by (simp add: buf)
  note r = readU32_prefix [OF assms(3) _ this]
  have d: "drop 4 buf = bs @ []" "4 \<le> length buf" using r(2,3) by simp_all
  note rs = readIndexes_serialised [OF assms(2,3) bs d(2,1)]
  then have "unat (len32 sis) = length sis"
    using assms(3) by (intro unat_len32) (simp add: buf)
  with rs r(1) show ?thesis
    by (simp add: deserialiseSecondaryIndexCatalog_def)
qed

theorem SecondaryIndexCatalog_roundtrip_witness:
  "\<exists>buf. serialiseSecondaryIndexCatalog [\<lparr>ColumnName = ''a'', col_DataType = 0\<rparr>, \<lparr>ColumnName = ''b'', col_DataType = 1\<rparr>]
      [\<lparr>si_Columns = [''b'', ''a''], si_IndexName = ''i''\<rparr>] = Ok buf \<and>
    deserialiseSecondaryIndexCatalog buf [\<lparr>ColumnName = ''a'', col_DataType = 0\<rparr>, \<lparr>ColumnName = ''b'', col_DataType = 1\<rparr>] =
      Ok [\<lparr>si_Columns = [''b'', ''a''], si_IndexName = ''i''\<rparr>]"
proof -
  let ?cols = "[\<lparr>ColumnName = ''a'', col_DataType = 0\<rparr>, \<lparr>ColumnName = ''b'', col_DataType = 1\<rparr>]"
  let ?sis = "[\<lparr>si_Columns = [''b'', ''a''], si_IndexName = ''i''\<rparr>]"
  obtain buf where buf: "serialiseSecondaryIndexCatalog ?cols ?sis = Ok buf" "length buf = 21"
    by (simp add: serialiseSecondaryIndexCatalog_def primaryKeyPosition_def)
  from SecondaryIndexCatalog_roundtrip [OF buf(1)] buf show ?thesis by simp
qed

section \<open>Rows\<close>

text \<open>What a value becomes by being stored and read: an \<open>INT\<close> is its unsigned 32-bit residue in decimal.\<close>

definition normal_form :: "DataType \<Rightarrow> string \<Rightarrow> string" where
  "normal_form dt v =
     (if dt = DataType_Int then (case Atoi v of Ok n \<Rightarrow> fmt_nat (nat (n mod 2 ^ 32)) | _ \<Rightarrow> v)
      else if dt = DataType_Bool then (case Atoi v of Ok n \<Rightarrow> (if n = 0 then ''0'' else ''1'') | _ \<Rightarrow> v)
      else v)"

lemma sliceCap_ok: "lo \<le> hi \<Longrightarrow> hi \<le> length buf \<Longrightarrow> sliceCap pad buf lo hi = Ok (slice buf lo hi)"
  by (simp add: sliceCap_def slice_def)

lemma fmt_bin_bit: "fmt_bin 0 = ''0''" "fmt_bin (Suc 0) = ''1''"
  by (simp_all add: fmt_bin.simps char_of_def bit_0)

lemma deserializeValues_serialised:
  assumes "length buf < 2 ^ 32" "typed cols"
  shows "\<lbrakk>serialiseValues cols vs = Ok bs; length vs = length cols; i \<le> length buf; drop i buf = bs @ rest\<rbrakk> \<Longrightarrow>
    deserializeValues pad cols buf i = Ok (map2 (\<lambda>col v. normal_form (col_DataType col) v) cols vs)"
  using assms(2)
proof (induction cols arbitrary: vs bs i)
  case Nil
  then show ?case by simp
next
  case (Cons col cols)
  then obtain v vs' where vs: "vs = v # vs'" "length vs' = length cols" by (cases vs) auto
  then obtain b bs' where b: "serialiseValue (col_DataType col) v = Ok b" and bs': "serialiseValues cols vs' = Ok bs'"
    and bs: "bs = b @ bs'"
    using Cons.prems(1) by (auto simp: rbind_Ok_iff)
  have buf: "drop i buf = b @ bs' @ rest" using Cons.prems(4) by (simp add: bs)
  have d: "drop (i + length b) buf = bs' @ rest" "i + length b \<le> length buf"
    using buf prefix_length_drop [OF buf Cons.prems(3)] by (simp_all add: drop_add del: drop_drop)
  have IH: "deserializeValues pad cols buf (i + length b) = Ok (map2 (\<lambda>col v. normal_form (col_DataType col) v) cols vs')"
    using Cons.IH [OF bs' vs(2) d(2,1)] Cons.prems(5) by simp
  have sl: "slice buf i (i + length b) = b"
    using buf by (simp add: slice_def)
  consider "col_DataType col = DataType_Int" | "col_DataType col = DataType_String" | "col_DataType col = DataType_Bool"
    using Cons.prems(5) by auto
  then show ?case
  proof cases
    case 1
    then obtain n where n: "Atoi v = Ok n" "b = put_uint32 (word_of_int n)"
      using b by (auto simp: serialiseValue_def rbind_Ok_iff)
    have "unat (word_of_int n :: u32) = nat (n mod 2 ^ 32)"
      by (simp add: unat_eq_nat_uint uint_word_of_int)
    then show ?thesis
      using 1 IH sl d(2) n by (simp add: vs normal_form_def get_put_uint32)
  next
    case 2
    then have bv: "b = lengthPrefixed v" using b by (simp add: serialiseValue_def lengthPrefixed_def)
    have len: "unat (len32 v) = length v"
      using d(2) assms(1) by (intro unat_len32) (simp add: bv)
    have "drop i buf = put_uint32 (len32 v) @ v @ bs' @ rest"
      using buf by (simp add: bv lengthPrefixed_def)
    then have "slice buf i (i + 4) = put_uint32 (len32 v)" "drop (i + 4) buf = v @ bs' @ rest"
      by (simp_all add: slice_def drop_add del: drop_drop)
    moreover from this(2) have "slice buf (i + 4) (i + 4 + length v) = v"
      by (simp add: slice_def)
    ultimately show ?thesis
      using 2 IH d(2) by (simp add: bv vs normal_form_def sliceCap_ok get_put_uint32 len Let_def add.assoc)
  next
    case 3
    then obtain n where n: "Atoi v = Ok n" "n = 0 \<or> n = 1" "b = [char_of (nat n)]"
      using b by (auto simp: serialiseValue_def rbind_Ok_iff split: if_splits)
    have "buf ! i = char_of (nat n)" "i < length buf"
      using buf d(2) n(3) by (simp_all add: nth_via_drop)
    with 3 IH n show ?thesis
      by (auto simp: vs normal_form_def fmt_bin_bit)
  qed
qed

lemma deserializeRowValues_serialised:
  assumes "serialiseInsertIntoTableInput table ins = Ok (key, buf)" "length buf < 2 ^ 32"
    and "length (it_ColumnValues ins) = length (ct_ColumnDetails table)" "typed (ct_ColumnDetails table)"
  shows "deserializeRowValues pad table buf =
    Ok (map2 (\<lambda>col v. normal_form (col_DataType col) v) (ct_ColumnDetails table) (it_ColumnValues ins))"
proof -
  have "serialiseValues (ct_ColumnDetails table) (it_ColumnValues ins) = Ok buf"
    using assms(1) by (auto simp: serialiseInsertIntoTableInput_def rbind_Ok_iff Let_def)
  then show ?thesis
    using deserializeValues_serialised [of buf "ct_ColumnDetails table" "it_ColumnValues ins" buf 0 "[]" pad] assms(2-4) by (simp add: deserializeRowValues_def)
qed

text \<open>
  C40. Rows are read back: when a row of the table's length is accepted for storing, reading the stored
  form gives, whatever spare capacity the runtime allocates, every \<open>STRING\<close> as it was, every \<open>BOOL\<close> as 0 or
  1, and every \<open>INT\<close> modulo \<open>2\<^sup>3\<^sup>2\<close>: negative numbers and numbers from \<open>2\<^sup>3\<^sup>2\<close> on come back as others.
\<close>

theorem row_roundtrip:
  assumes "serialiseInsertIntoTableInput table ins = Ok (key, buf)" "length buf < 2 ^ 32"
    and "length (it_ColumnValues ins) = length (ct_ColumnDetails table)" "typed (ct_ColumnDetails table)"
  shows "deserializeRowValues pad table buf =
    Ok (map2 (\<lambda>col v. normal_form (col_DataType col) v) (ct_ColumnDetails table) (it_ColumnValues ins))"
  by (rule deserializeRowValues_serialised [OF assms])

definition sample_table :: CreateTable where
  "sample_table = \<lparr>ct_TableName = ''t'', ct_ColumnDetails = [\<lparr>ColumnName = ''id'', col_DataType = DataType_Int\<rparr>,
     \<lparr>ColumnName = ''n'', col_DataType = DataType_String\<rparr>, \<lparr>ColumnName = ''b'', col_DataType = DataType_Bool\<rparr>],
     ct_PrimaryKeyColumnPosition = 0, ct_SecondaryIndexes = []\<rparr>"

lemma Atoi_sample: "Atoi ''-5'' = Ok (- 5)" "Atoi ''1'' = Ok 1"
  by (simp_all add: Atoi_def)

theorem row_roundtrip_witness:
  "\<exists>buf. serialiseInsertIntoTableInput sample_table \<lparr>it_TableName = ''t'', it_ColumnValues = [''-5'', ''x'', ''1'']\<rparr> =
      Ok (''t:-5'', buf) \<and>
    deserializeRowValues 0 sample_table buf = Ok [fmt_nat 4294967291, ''x'', ''1'']"
proof -
  let ?ins = "\<lparr>it_TableName = ''t'', it_ColumnValues = [''-5'', ''x'', ''1'']\<rparr>"
  obtain buf where buf: "serialiseInsertIntoTableInput sample_table ?ins = Ok (''t:-5'', buf)" "length buf = 10"
    by (simp add: serialiseInsertIntoTableInput_def sample_table_def serialiseValue_def Atoi_sample rowKey_def)
  then show ?thesis
    using row_roundtrip [OF buf(1), of 0]
    by (simp add: sample_table_def normal_form_def Atoi_sample)
qed

end
