(* ===== verification/SqlDb.thy ===== *)
theory SqlDb
  imports Db SqlCodec
begin

text \<open>
  Tables on top of the key-value store: \<open>CREATE TABLE\<close>, \<open>INSERT INTO\<close> and the reload of the catalog when the
  database is opened (\<open>db/create.go\<close>, \<open>db/db.go\<close>, \<open>db/helper.go\<close>). A table is three entries of the store
  (the list of tables, its columns, its secondary indexes), a row is one entry, and every secondary index
  adds one entry per row, whose value is empty.

  The state is the store, the schemas in memory, and the bounds of the compactions that were started.
\<close>

section \<open>State\<close>

text \<open>
  The tree of the memtable, the orders in which Go ranges over maps, and the spare capacity that a value
  has as a byte slice.
\<close>

record 't env =
  en_bt :: "'t btree"
  en_rngA :: "u64 set \<Rightarrow> u64 list"
  en_rngW :: "(string \<rightharpoonup> string) \<Rightarrow> (string \<times> string) list"
  en_rngM :: "(string \<rightharpoonup> string) \<Rightarrow> (string \<times> string) list"
  en_rngT :: "(string \<rightharpoonup> CreateTable) \<Rightarrow> (string \<times> CreateTable) list"
  en_rngV :: "(string \<rightharpoonup> valueTxnId) \<Rightarrow> (string \<times> valueTxnId) list"
  en_rngS :: "string set \<Rightarrow> string list"
  en_pad :: "string \<Rightarrow> nat"

record 't sqldb =
  sq_db :: "'t DB"
  tableNameVsSchemaMap :: "string \<rightharpoonup> CreateTable"
  sq_started :: "u64 list"

text \<open>A missing table is the zero value of the struct.\<close>

definition no_table :: CreateTable where
  "no_table = \<lparr>ct_TableName = '''', ct_ColumnDetails = [], ct_PrimaryKeyColumnPosition = 0, ct_SecondaryIndexes = []\<rparr>"

definition schema_of :: "'t sqldb \<Rightarrow> string \<Rightarrow> CreateTable" where
  "schema_of db name = (case tableNameVsSchemaMap db name of None \<Rightarrow> no_table | Some t \<Rightarrow> t)"

definition CatalogKey :: string where
  "CatalogKey = ''_calatog''"

definition SchemaKey :: "string \<Rightarrow> string" where
  "SchemaKey tableName = ''_schema:'' @ tableName"

definition SecondaryIndexesCatalogKey :: "string \<Rightarrow> string" where
  "SecondaryIndexesCatalogKey tableName = ''_secondary_indexes:'' @ tableName"

section \<open>The store's operations on this state\<close>

definition started :: "u64 option \<Rightarrow> u64 list" where
  "started bnd = (case bnd of None \<Rightarrow> [] | Some b \<Rightarrow> [b])"

definition sq_Put :: "'t env \<Rightarrow> io_outcome \<Rightarrow> 't sqldb \<Rightarrow> string \<Rightarrow> string \<Rightarrow> unit result \<times> 't sqldb" where
  "sq_Put en io db key value =
     (case db_Put (en_bt en) (en_rngA en) (en_rngW en) (en_rngM en) io (sq_db db) key value of
        (Ok bnd, d) \<Rightarrow> (Ok (), db\<lparr>sq_db := d, sq_started := sq_started db @ started bnd\<rparr>)
      | (Err er, d) \<Rightarrow> (Err er, db\<lparr>sq_db := d\<rparr>)
      | (Panic, d) \<Rightarrow> (Panic, db\<lparr>sq_db := d\<rparr>))"

definition sq_Commit :: "'t env \<Rightarrow> io_outcome \<Rightarrow> Transaction \<Rightarrow> 't sqldb \<Rightarrow> unit result \<times> Transaction \<times> 't sqldb" where
  "sq_Commit en io txn db =
     (case txn_Commit (en_bt en) (en_rngA en) (en_rngW en) (en_rngM en) io txn (sq_db db) of
        (Ok bnd, txn, d) \<Rightarrow> (Ok (), txn, db\<lparr>sq_db := d, sq_started := sq_started db @ started bnd\<rparr>)
      | (Err er, txn, d) \<Rightarrow> (Err er, txn, db\<lparr>sq_db := d\<rparr>)
      | (Panic, txn, d) \<Rightarrow> (Panic, txn, db\<lparr>sq_db := d\<rparr>))"

text \<open>A call whose error is thrown away; a panic is not.\<close>

definition ignoring_error :: "'a result \<times> 's \<Rightarrow> ('s \<Rightarrow> 'b result \<times> 's) \<Rightarrow> 'b result \<times> 's" where
  "ignoring_error r f = (case r of (Panic, s) \<Rightarrow> (Panic, s) | (_, s) \<Rightarrow> f s)"

section \<open>CREATE TABLE\<close>

text \<open>The three \<open>Put\<close>s have each their own outcome of the log write; their errors are ignored.\<close>

definition createTable ::
  "'t env \<Rightarrow> io_outcome \<times> io_outcome \<times> io_outcome \<Rightarrow> 't sqldb \<Rightarrow> CreateTable \<Rightarrow> unit result \<times> 't sqldb" where
  "createTable en ios db ct =
     (let (io1, io2, io3) = ios;
          tableName = ct_TableName ct;
          db = db\<lparr>tableNameVsSchemaMap := (tableNameVsSchemaMap db)(tableName \<mapsto> ct)\<rparr>;
          tableNames = butlast (concat (map (\<lambda>(_, table). ct_TableName table @ '','') (en_rngT en (tableNameVsSchemaMap db))))
      in ignoring_error (sq_Put en io1 db CatalogKey tableNames) (\<lambda>db.
         ignoring_error (sq_Put en io2 db (SchemaKey tableName) (serialiseCreateTableInput ct)) (\<lambda>db.
           case serialiseSecondaryIndexCatalog (ct_ColumnDetails (schema_of db tableName)) (ct_SecondaryIndexes ct) of
             Err er \<Rightarrow> (Err er, db)
           | Panic \<Rightarrow> (Panic, db)
           | Ok buf \<Rightarrow>
               ignoring_error (sq_Put en io3 db (SecondaryIndexesCatalogKey tableName) buf) (\<lambda>db. (Ok (), db)))))"

definition db_CreateTable ::
  "unicode \<Rightarrow> 't env \<Rightarrow> io_outcome \<times> io_outcome \<times> io_outcome \<Rightarrow> 't sqldb \<Rightarrow> string \<Rightarrow> unit result \<times> 't sqldb" where
  "db_CreateTable u en ios db query =
     (case ParseCreateTable u (NewParser u query) of
        Err er \<Rightarrow> (Err er, db)
      | Panic \<Rightarrow> (Panic, db)
      | Ok (input, _) \<Rightarrow> createTable en ios db input)"

section \<open>INSERT INTO\<close>

text \<open>The key of an index entry; without a primary key it is the prefix of the entries.\<close>

definition getSecondaryIndexKeyOrPrefix :: "string \<Rightarrow> string \<Rightarrow> string list \<Rightarrow> string \<Rightarrow> string" where
  "getSecondaryIndexKeyOrPrefix tableName indexName columnValues primaryKeyValue =
     ''index:'' @ tableName @ '':'' @ indexName @ concat (map (\<lambda>v. '':'' @ v) columnValues) @
     (if primaryKeyValue \<noteq> '''' then '':'' @ primaryKeyValue else '':'')"

text \<open>The inner loop for one column name: the values of the columns of the name, and the key's value.\<close>

fun indexColumnValues ::
  "CreateTable \<Rightarrow> string list \<Rightarrow> string \<Rightarrow> (nat \<times> Column) list \<Rightarrow> string list \<times> string \<Rightarrow> (string list \<times> string) result" where
  "indexColumnValues table vs name [] acc = Ok acc"
| "indexColumnValues table vs name ((i, col) # cols) (colValues, pkColValue) =
     (if (ColumnName col = name \<or> i = ct_PrimaryKeyColumnPosition table) \<and> length vs \<le> i then Panic
      else indexColumnValues table vs name cols
        (if ColumnName col = name then colValues @ [vs ! i] else colValues,
         if i = ct_PrimaryKeyColumnPosition table then vs ! i else pkColValue))"

fun indexValues :: "CreateTable \<Rightarrow> string list \<Rightarrow> string list \<Rightarrow> string list \<times> string \<Rightarrow> (string list \<times> string) result" where
  "indexValues table vs [] acc = Ok acc"
| "indexValues table vs (name # names) acc =
     rbind (indexColumnValues table vs name (enumerate 0 (ct_ColumnDetails table)) acc) (\<lambda>acc.
       indexValues table vs names acc)"

definition getIndexAndPrimaryKeyColumnValuesInIndexSequence ::
  "CreateTable \<Rightarrow> string list \<Rightarrow> InsertIntoTable \<Rightarrow> (string list \<times> string) result" where
  "getIndexAndPrimaryKeyColumnValuesInIndexSequence table indexColumnNames ins =
     rbind (indexValues table (it_ColumnValues ins) indexColumnNames ([], '''')) (\<lambda>(colValues, pkColValue).
       if length colValues \<noteq> length indexColumnNames then Err (SqlError ColumnValuesNotFound)
       else if pkColValue = '''' then Err (SqlError PkColumnValueNotFound)
       else Ok (colValues, pkColValue))"

fun updateIndexes ::
  "CreateTable \<Rightarrow> InsertIntoTable \<Rightarrow> SecondaryIndex list \<Rightarrow> Transaction \<Rightarrow> 't DB \<Rightarrow> unit result \<times> Transaction \<times> 't DB" where
  "updateIndexes table ins [] txn db = (Ok (), txn, db)"
| "updateIndexes table ins (si # sis) txn db =
     (case getIndexAndPrimaryKeyColumnValuesInIndexSequence table (si_Columns si) ins of
        Err er \<Rightarrow> (Err er, txn, db)
      | Panic \<Rightarrow> (Panic, txn, db)
      | Ok (colValues, pkColValue) \<Rightarrow>
          (case txn_Put txn db (getSecondaryIndexKeyOrPrefix (it_TableName ins) (si_IndexName si) colValues pkColValue) '''' of
             (_, txn, db) \<Rightarrow> updateIndexes table ins sis txn db))"

definition updateSecondaryIndexes ::
  "'t sqldb \<Rightarrow> InsertIntoTable \<Rightarrow> Transaction \<Rightarrow> unit result \<times> Transaction \<times> 't sqldb" where
  "updateSecondaryIndexes db ins txn =
     (let table = schema_of db (it_TableName ins)
      in case updateIndexes table ins (ct_SecondaryIndexes table) txn (sq_db db) of
           (r, txn, d) \<Rightarrow> (r, txn, db\<lparr>sq_db := d\<rparr>))"

definition sq_Rollback :: "Transaction \<Rightarrow> 't sqldb \<Rightarrow> unit result \<times> Transaction \<times> 't sqldb" where
  "sq_Rollback txn db =
     (case txn_Rollback txn (sq_db db) of
        Ok (txn, d) \<Rightarrow> (Ok (), txn, db\<lparr>sq_db := d\<rparr>)
      | Err er \<Rightarrow> (Err er, txn, db)
      | Panic \<Rightarrow> (Panic, txn, db))"

text \<open>
  A refused \<open>Put\<close> of the row rolls the transaction back and goes on; an error of the indexes is reported
  as success.
\<close>

definition txn_InsertIntoTable ::
  "'t env \<Rightarrow> io_outcome \<Rightarrow> Transaction \<Rightarrow> 't sqldb \<Rightarrow> InsertIntoTable \<Rightarrow> unit result \<times> Transaction \<times> 't sqldb" where
  "txn_InsertIntoTable en io txn db ins =
     (let table = schema_of db (it_TableName ins) in
      if length (it_ColumnValues ins) \<noteq> length (ct_ColumnDetails table) then (Err (SqlError AllColumnsRequired), txn, db)
      else case serialiseInsertIntoTableInput table ins of
        Err er \<Rightarrow> (Err er, txn, db)
      | Panic \<Rightarrow> (Panic, txn, db)
      | Ok (key, valueSchemaBuf) \<Rightarrow>
          ignoring_error
            (case txn_Put txn (sq_db db) key valueSchemaBuf of
               (Ok _, txn, d) \<Rightarrow> (Ok (), txn, db\<lparr>sq_db := d\<rparr>)
             | (_, txn, d) \<Rightarrow> sq_Rollback txn (db\<lparr>sq_db := d\<rparr>))
            (\<lambda>(txn, db).
               case updateSecondaryIndexes db ins txn of
                 (Ok _, txn, db) \<Rightarrow> sq_Commit en io txn db
               | (Err _, txn, db) \<Rightarrow> sq_Rollback txn db
               | (Panic, txn, db) \<Rightarrow> (Panic, txn, db)))"

definition insertIntoTable :: "'t env \<Rightarrow> io_outcome \<Rightarrow> 't sqldb \<Rightarrow> InsertIntoTable \<Rightarrow> unit result \<times> 't sqldb" where
  "insertIntoTable en io db ins =
     (let (txn, d) = db_Begin (sq_db db)
      in case txn_InsertIntoTable en io txn (db\<lparr>sq_db := d\<rparr>) ins of (r, _, db) \<Rightarrow> (r, db))"

text \<open>\<open>None\<close>: the parser does not return.\<close>

definition db_InsertIntoTable :: "unicode \<Rightarrow> 't env \<Rightarrow> io_outcome \<Rightarrow> 't sqldb \<Rightarrow> string \<Rightarrow> (unit result \<times> 't sqldb) option" where
  "db_InsertIntoTable u en io db query =
     (case ParseInsertIntoTable u (NewParser u query) of
        None \<Rightarrow> None
      | Some (Err er) \<Rightarrow> Some (Err er, db)
      | Some Panic \<Rightarrow> Some (Panic, db)
      | Some (Ok (input, _)) \<Rightarrow> Some (insertIntoTable en io db input))"

section \<open>Reloading the catalog\<close>

text \<open>The loop over the table names, for a lookup that is that of the transaction.\<close>

fun loadTables :: "(string \<Rightarrow> string result) \<Rightarrow> string list \<Rightarrow> (string \<rightharpoonup> CreateTable) \<Rightarrow> (string \<rightharpoonup> CreateTable) result" where
  "loadTables get [] m = Ok m"
| "loadTables get (tableName # names) m =
     rbind (get (SchemaKey tableName)) (\<lambda>schemaStr.
     rbind (deserialiseCreateTableInput schemaStr) (\<lambda>input.
     rbind (get (SecondaryIndexesCatalogKey tableName)) (\<lambda>secondaryIndexesStr.
     rbind (deserialiseSecondaryIndexCatalog secondaryIndexesStr (ct_ColumnDetails input)) (\<lambda>secondaryIndexes.
       loadTables get names
         (m(tableName \<mapsto> input\<lparr>ct_TableName := tableName, ct_SecondaryIndexes := secondaryIndexes\<rparr>))))))"

definition readCatalog :: "(string \<Rightarrow> string result) \<Rightarrow> (string \<rightharpoonup> CreateTable) result" where
  "readCatalog get =
     rbind (get CatalogKey) (\<lambda>tablesString.
       if tablesString = '''' then Ok Map.empty else loadTables get (split_on CHR '','' tablesString) Map.empty)"

text \<open>The transaction that reads is committed when the function returns, its error thrown away.\<close>

definition getTableNameVsSchemaMap :: "'t env \<Rightarrow> io_outcome \<Rightarrow> 't sqldb \<Rightarrow> (string \<rightharpoonup> CreateTable) result \<times> 't sqldb" where
  "getTableNameVsSchemaMap en io db =
     (let (txn, d) = db_Begin (sq_db db);
          r = readCatalog (txn_Get (en_bt en) txn d)
      in case r of
           Panic \<Rightarrow> (Panic, db\<lparr>sq_db := d\<rparr>)
         | _ \<Rightarrow> (case sq_Commit en io txn (db\<lparr>sq_db := d\<rparr>) of
                  (Panic, _, db) \<Rightarrow> (Panic, db)
                | (_, _, db) \<Rightarrow> (r, db)))"

definition NewDB ::
  "'t env \<Rightarrow> io_outcome \<Rightarrow> (string \<rightharpoonup> bytes) \<Rightarrow> disk \<Rightarrow> string \<Rightarrow> SsTableConfig \<Rightarrow> 't sqldb result" where
  "NewDB en io walFiles d walFilePath config =
     rbind (openDB (en_bt en) walFiles d walFilePath config) (\<lambda>db.
       case getTableNameVsSchemaMap en io \<lparr>sq_db = db, tableNameVsSchemaMap = Map.empty, sq_started = []\<rparr> of
         (Ok m, db) \<Rightarrow> Ok (db\<lparr>tableNameVsSchemaMap := m\<rparr>)
       | (Err er, db) \<Rightarrow> Err er
       | (Panic, db) \<Rightarrow> Panic)"

section \<open>Listing tables\<close>

definition ShowTables :: "'t env \<Rightarrow> 't sqldb \<Rightarrow> string list" where
  "ShowTables en db = map (\<lambda>(_, table). ct_TableName table) (en_rngT en (tableNameVsSchemaMap db))"

definition ShowCreateTable :: "'t env \<Rightarrow> 't sqldb \<Rightarrow> string \<Rightarrow> CreateTable result" where
  "ShowCreateTable en db tableName =
     (case filter (\<lambda>(_, table). ct_TableName table = tableName) (en_rngT en (tableNameVsSchemaMap db)) of
        [] \<Rightarrow> Err (SqlError (TableNotFound tableName))
      | (_, table) # _ \<Rightarrow> Ok table)"

fun getColPosition :: "nat \<Rightarrow> Column list \<Rightarrow> string \<Rightarrow> int" where
  "getColPosition i [] colName = - 1"
| "getColPosition i (col # cols) colName = (if ColumnName col = colName then int i else getColPosition (i + 1) cols colName)"

definition getColPositionFromColName :: "'t sqldb \<Rightarrow> string \<Rightarrow> string \<Rightarrow> int" where
  "getColPositionFromColName db tableName colName = getColPosition 0 (ct_ColumnDetails (schema_of db tableName)) colName"

end
