(* ===== verification/SqlDbProps.thy ===== *)
theory SqlDbProps
  imports DbIsolation SqlCodecProps SqlDb
begin

text \<open>
  What the SQL operations that write do to the store: an \<open>INSERT\<close> is a run of the store's steps that
  commits the row and its index entries together, what it reports when it does not, and the reload of the
  catalog.
\<close>

section \<open>SQL operations as runs of the store\<close>

text \<open>The environment behaves as Go documents: every entry of a map or set is visited once.\<close>

definition env_ok :: "'t env \<Rightarrow> bool" where
  "env_ok en \<longleftrightarrow> runtime_ok (en_bt en) (en_rngW en) (en_rngM en) (en_rngV en) \<and>
     range_order (en_rngT en) \<and> (\<forall>A. finite A \<longrightarrow> distinct (en_rngS en A) \<and> set (en_rngS en A) = A)"

lemma env_okD:
  assumes "env_ok en"
  shows "runtime_ok (en_bt en) (en_rngW en) (en_rngM en) (en_rngV en)" "range_order (en_rngT en)"
    "finite A \<Longrightarrow> distinct (en_rngS en A)" "finite A \<Longrightarrow> set (en_rngS en A) = A"
  using assms by (auto simp: env_ok_def)

abbreviation store_step :: "'t env \<Rightarrow> 't sys \<Rightarrow> 't sys \<Rightarrow> bool" where
  "store_step en \<equiv> sys_step (en_bt en) (en_rngA en) (en_rngW en) (en_rngM en) (en_rngV en)"

abbreviation store_reachable :: "'t env \<Rightarrow> 't sys \<Rightarrow> bool" where
  "store_reachable en \<equiv> sys_reachable (en_bt en) (en_rngA en) (en_rngW en) (en_rngM en) (en_rngV en)"

lemma store_inv: "\<lbrakk>env_ok en; store_reachable en s\<rbrakk> \<Longrightarrow> sys_inv (en_bt en) s"
  using reachable_inv env_okD(1) by metis

text \<open>A sequence of writes of one transaction, all of keys that are free or its own.\<close>

fun puts :: "(string \<times> string) list \<Rightarrow> Transaction \<Rightarrow> 't DB \<Rightarrow> Transaction \<times> 't DB" where
  "puts [] txn db = (txn, db)"
| "puts ((k, v) # ws) txn db = (case txn_Put txn db k v of (_, txn, db) \<Rightarrow> puts ws txn db)"

definition buffer_all :: "(string \<times> string) list \<Rightarrow> (string \<rightharpoonup> string) \<Rightarrow> (string \<rightharpoonup> string)" where
  "buffer_all ws m = foldl (\<lambda>m (k, v). m(k \<mapsto> v)) m ws"

lemma buffer_all_simps [simp]:
  "buffer_all [] m = m" "buffer_all ((k, v) # ws) m = buffer_all ws (m(k \<mapsto> v))"
  by (simp_all add: buffer_all_def)

text \<open>What is left unchanged by writes.\<close>

definition same_store :: "'t DB \<Rightarrow> 't DB \<Rightarrow> bool" where
  "same_store db db' \<longleftrightarrow> (\<exists>tm. db' = db\<lparr>db_tm := tm\<rparr> \<and> nextTransactionId tm = nextTransactionId (db_tm db) \<and>
     activeTransactionsMap tm = activeTransactionsMap (db_tm db))"

lemma same_store_refl [simp]: "same_store db db"
  by (auto simp: same_store_def intro: exI [of _ "db_tm db"])

lemma same_store_tm [simp]:
  "same_store db (db\<lparr>db_tm := tm\<rparr>) \<longleftrightarrow> nextTransactionId tm = nextTransactionId (db_tm db) \<and>
     activeTransactionsMap tm = activeTransactionsMap (db_tm db)" (is "?L \<longleftrightarrow> ?R")
proof
  assume ?L
  then obtain tm' where tm': "db\<lparr>db_tm := tm\<rparr> = db\<lparr>db_tm := tm'\<rparr>"
    "nextTransactionId tm' = nextTransactionId (db_tm db)" "activeTransactionsMap tm' = activeTransactionsMap (db_tm db)"
    unfolding same_store_def by blast
  from arg_cong [OF tm'(1), of db_tm] have "tm = tm'" by simp
  with tm'(2,3) show ?R by simp
next
  assume ?R
  then show ?L unfolding same_store_def by blast
qed

lemma same_store_trans: "same_store db db' \<Longrightarrow> same_store db' db'' \<Longrightarrow> same_store db db''"
  by (auto simp: same_store_def)

lemma put_granted:
  assumes "txn_id txn = i" "i \<noteq> 0" "holder (db_tm db) k \<in> {0, i}" "txn_Put txn db k v = (r, txn', db')"
  shows "r = Ok ()" "bufferedWriteMap txn' = (bufferedWriteMap txn)(k \<mapsto> v)" "txn_id txn' = i"
    "activeTransactionsSnapshot txn' = activeTransactionsSnapshot txn" "same_store db db'"
    "holder (db_tm db') k' = (if k' = k then i else holder (db_tm db) k')"
proof -
  have "r = Ok () \<and> bufferedWriteMap txn' = (bufferedWriteMap txn)(k \<mapsto> v) \<and> txn_id txn' = i \<and>
    activeTransactionsSnapshot txn' = activeTransactionsSnapshot txn \<and> same_store db db' \<and>
    holder (db_tm db') k' = (if k' = k then i else holder (db_tm db) k')"
    using assms txn_Put_eq [of txn db k v] by (auto split: if_splits)
  then show "r = Ok ()" "bufferedWriteMap txn' = (bufferedWriteMap txn)(k \<mapsto> v)" "txn_id txn' = i"
    "activeTransactionsSnapshot txn' = activeTransactionsSnapshot txn" "same_store db db'"
    "holder (db_tm db') k' = (if k' = k then i else holder (db_tm db) k')" by blast+
qed

lemma puts_run:
  assumes "sy_txns s i = Some txn" "txn_id txn = i" "i \<noteq> 0" "\<forall>k \<in> fst ` set ws. holder (db_tm (sy_db s)) k \<in> {0, i}"
    and "puts ws txn (sy_db s) = (txn', db')"
  shows "(store_step en)\<^sup>*\<^sup>* s (s\<lparr>sy_db := db', sy_txns := (sy_txns s)(i \<mapsto> txn')\<rparr>) \<and>
    bufferedWriteMap txn' = buffer_all ws (bufferedWriteMap txn) \<and> txn_id txn' = i \<and>
    activeTransactionsSnapshot txn' = activeTransactionsSnapshot txn \<and> same_store (sy_db s) db' \<and>
    (\<forall>k. k \<notin> fst ` set ws \<longrightarrow> holder (db_tm db') k = holder (db_tm (sy_db s)) k)"
  using assms
proof (induction ws arbitrary: s txn)
  case Nil
  then have "s\<lparr>sy_db := db', sy_txns := (sy_txns s)(i \<mapsto> txn')\<rparr> = s"
    by (simp add: fun_upd_idem)
  then show ?case
    unfolding \<open>s\<lparr>sy_db := db', sy_txns := (sy_txns s)(i \<mapsto> txn')\<rparr> = s\<close> using Nil by simp
next
  case (Cons w ws)
  obtain k v where w: "w = (k, v)" by fastforce
  obtain r txn1 db1 where p: "txn_Put txn (sy_db s) k v = (r, txn1, db1)" by (metis prod_cases3)
  note g = put_granted [OF Cons.prems(2,3) _ p]
  have k: "holder (db_tm (sy_db s)) k \<in> {0, i}"
    using Cons.prems(4) by (simp add: w)
  let ?s = "s\<lparr>sy_db := db1, sy_txns := (sy_txns s)(i \<mapsto> txn1)\<rparr>"
  have step: "store_step en s ?s"
    by (rule sys_step.put [OF Cons.prems(1) p])
  have free: "\<forall>k' \<in> fst ` set ws. holder (db_tm (sy_db ?s)) k' \<in> {0, i}"
    using Cons.prems(4) g(6) [OF k] by (auto simp: w)
  have "puts ws txn1 (sy_db ?s) = (txn', db')" "sy_txns ?s i = Some txn1"
    using Cons.prems(5) by (simp_all add: w p)
  note IH = Cons.IH [OF this(2) g(3) [OF k] Cons.prems(3) free this(1)]
  have "?s\<lparr>sy_db := db', sy_txns := (sy_txns ?s)(i \<mapsto> txn')\<rparr> = s\<lparr>sy_db := db', sy_txns := (sy_txns s)(i \<mapsto> txn')\<rparr>"
    by simp
  with IH have "(store_step en)\<^sup>*\<^sup>* ?s (s\<lparr>sy_db := db', sy_txns := (sy_txns s)(i \<mapsto> txn')\<rparr>)"
    by (simp only:)
  with step have "(store_step en)\<^sup>*\<^sup>* s (s\<lparr>sy_db := db', sy_txns := (sy_txns s)(i \<mapsto> txn')\<rparr>)"
    by (rule converse_rtranclp_into_rtranclp [where r = "store_step en"])
  moreover have "bufferedWriteMap txn' = buffer_all (w # ws) (bufferedWriteMap txn)"
    "activeTransactionsSnapshot txn' = activeTransactionsSnapshot txn"
    using IH unfolding w buffer_all_simps g(2) [OF k, symmetric] g(4) [OF k, symmetric] by blast+
  moreover have "same_store (sy_db s) db'"
    using IH g(5) [OF k] by (auto intro: same_store_trans)
  moreover have "holder (db_tm db') k' = holder (db_tm (sy_db s)) k'" if "k' \<notin> fst ` set (w # ws)" for k'
    using IH that g(6) [OF k, of k'] by (simp add: w)
  ultimately show ?case
    using IH by blast
qed

section \<open>One transaction from its begin to its commit\<close>

text \<open>The transaction when it commits, up to the list of its locks.\<close>

definition write_txn :: "'t DB \<Rightarrow> (string \<times> string) list \<Rightarrow> Transaction" where
  "write_txn db ws = (new_txn (db_tm db))\<lparr>bufferedWriteMap := buffer_all ws Map.empty\<rparr>"

lemma commit_fits_cong:
  assumes "txn_id txn' = txn_id txn" "bufferedWriteMap txn' = bufferedWriteMap txn"
    and "db_memTable (sy_db s') = db_memTable (sy_db s)" "sy_hist s' = sy_hist s"
  shows "commit_fits bt rngW rngM s' txn' = commit_fits bt rngW rngM s txn"
    "committed_memtable bt rngM txn' (sy_db s') = committed_memtable bt rngM txn (sy_db s)"
    "writes_of txn' = writes_of txn"
  using assms by (simp_all add: commit_fits_def payload_fits_def committed_memtable_def writes_of_def)

lemma dom_buffer_all: "dom (buffer_all ws m) = fst ` set ws \<union> dom m"
proof (induction ws arbitrary: m)
  case (Cons w ws)
  show ?case by (cases w) (simp only: buffer_all_simps Cons.IH dom_fun_upd list.set image_insert, auto)
qed simp

lemma old_versions:
  assumes "env_ok en" "store_reachable en s" "e \<in> set (mt_entries (en_bt en) (db_memTable (sy_db s)))"
  shows "TxnId e < nextTransactionId (db_tm (sy_db s))"
  using sys_invD(3) [OF store_inv [OF assms(1,2)]] assms(3) by (simp add: versions_ok_def versions_def)

lemma committed_write:
  assumes "env_ok en" "store_reachable en s"
  shows "set (mt_entries (en_bt en) (committed_memtable (en_bt en) (en_rngM en) (write_txn (sy_db s) ws) (sy_db s))) =
    set (mt_entries (en_bt en) (db_memTable (sy_db s))) \<union> writes_of (write_txn (sy_db s) ws)"
proof (rule committed_entries)
  show "finite (dom (bufferedWriteMap (write_txn (sy_db s) ws)))" by (simp add: write_txn_def dom_buffer_all)
  show "\<forall>e \<in> set (mt_entries (en_bt en) (db_memTable (sy_db s))). TxnId e \<noteq> txn_id (write_txn (sy_db s) ws)"
    using old_versions [OF assms] by (fastforce simp: write_txn_def new_txn_def)
qed (use runtime_okD [OF env_okD(1) [OF assms(1)]] in auto)

text \<open>The transaction before its commit: begun, with all its writes buffered.\<close>

lemma writing_run:
  assumes env: "env_ok en" and reach: "store_reachable en s"
    and free: "\<forall>k \<in> fst ` set ws. holder (db_tm (sy_db s)) k = 0"
    and next_id: "nextTransactionId (db_tm (sy_db s)) + 1 \<noteq> 0"
  defines "i \<equiv> nextTransactionId (db_tm (sy_db s))"
  obtains txn1 d1 txn2 tm where "db_Begin (sy_db s) = (txn1, d1)" "txn_id txn1 = i" "i \<noteq> 0" "i \<notin> activeTransactionsMap (db_tm (sy_db s))"
    "\<And>k. holder (db_tm d1) k = holder (db_tm (sy_db s)) k" "puts ws txn1 d1 = (txn2, (sy_db s)\<lparr>db_tm := tm\<rparr>)"
    "(store_step en)\<^sup>*\<^sup>* s (s\<lparr>sy_db := (sy_db s)\<lparr>db_tm := tm\<rparr>, sy_txns := (sy_txns s)(i \<mapsto> txn2)\<rparr>)"
    "txn_id txn2 = i" "bufferedWriteMap txn2 = buffer_all ws Map.empty"
    "nextTransactionId tm = i + 1" "activeTransactionsMap tm = insert i (activeTransactionsMap (db_tm (sy_db s)))"
    "\<And>k. k \<notin> fst ` set ws \<Longrightarrow> holder tm k = holder (db_tm (sy_db s)) k"
proof -
  define txn1 where "txn1 = new_txn (db_tm (sy_db s))"
  define d1 where "d1 = (sy_db s)\<lparr>db_tm := tm_begin (db_tm (sy_db s))\<rparr>"
  define s1 where "s1 = s\<lparr>sy_db := d1, sy_txns := (sy_txns s)(i \<mapsto> txn1)\<rparr>"
  have i: "i \<noteq> 0" "i \<notin> activeTransactionsMap (db_tm (sy_db s))"
    using sys_invD(1) [OF store_inv [OF env reach]] by (auto simp: ids_ok_def i_def)
  have t1: "txn_id txn1 = i" "bufferedWriteMap txn1 = Map.empty" by (simp_all add: txn1_def new_txn_def i_def)
  have begin_eq: "db_Begin (sy_db s) = (txn1, d1)" by (simp add: db_Begin_eq txn1_def d1_def)
  have h1: "holder (db_tm d1) k = holder (db_tm (sy_db s)) k" for k by (simp add: d1_def)
  have step1: "store_step en s s1"
    using sys_step.begin_txn [OF next_id begin_eq] unfolding s1_def t1 .
  obtain txn2 d2 where p: "puts ws txn1 d1 = (txn2, d2)" by fastforce
  have s1: "sy_txns s1 i = Some txn1" "sy_db s1 = d1" by (simp_all add: s1_def)
  have "\<forall>k \<in> fst ` set ws. holder (db_tm (sy_db s1)) k \<in> {0, i}"
    using free by (auto simp: s1 h1)
  note run = puts_run [OF s1(1) t1(1) i(1) this, unfolded s1, OF p, of en, unfolded t1]
  obtain tm where tm: "d2 = (sy_db s)\<lparr>db_tm := tm\<rparr>" "nextTransactionId tm = i + 1"
    "activeTransactionsMap tm = insert i (activeTransactionsMap (db_tm (sy_db s)))"
    using run by (auto simp: same_store_def d1_def i_def)
  have "s1\<lparr>sy_db := d2, sy_txns := (sy_txns s1)(i \<mapsto> txn2)\<rparr> = s\<lparr>sy_db := d2, sy_txns := (sy_txns s)(i \<mapsto> txn2)\<rparr>"
    by (simp add: s1_def)
  with run step1 have steps: "(store_step en)\<^sup>*\<^sup>* s (s\<lparr>sy_db := d2, sy_txns := (sy_txns s)(i \<mapsto> txn2)\<rparr>)"
    by (metis converse_rtranclp_into_rtranclp)
  show thesis
    by (rule that [OF begin_eq t1(1) i h1 p [unfolded tm(1)] steps [unfolded tm(1)] _ _ tm(2,3)])
      (use run h1 tm(1) in simp_all)
qed

lemma write_run:
  assumes env: "env_ok en" and reach: "store_reachable en s"
    and free: "\<forall>k \<in> fst ` set ws. holder (db_tm (sy_db s)) k = 0"
    and next_id: "nextTransactionId (db_tm (sy_db s)) + 1 \<noteq> 0"
    and fits: "commit_fits (en_bt en) (en_rngW en) (en_rngM en) s (write_txn (sy_db s) ws)"
  defines "m \<equiv> committed_memtable (en_bt en) (en_rngM en) (write_txn (sy_db s) ws) (sy_db s)"
    and "i \<equiv> nextTransactionId (db_tm (sy_db s))"
  obtains txn1 d1 txn2 d2 bnd s' where "db_Begin (sy_db s) = (txn1, d1)" "txn_id txn1 = i" "i \<noteq> 0"
    "\<And>k. holder (db_tm d1) k = holder (db_tm (sy_db s)) k" "puts ws txn1 d1 = (txn2, d2)"
    "txn_Commit (en_bt en) (en_rngA en) (en_rngW en) (en_rngM en) IoOk txn2 d2 = (Ok bnd, ended txn2, sy_db s')"
    "(store_step en)\<^sup>*\<^sup>* s s'"
    "set (versions (en_bt en) s') = set (versions (en_bt en) s) \<union> writes_of (write_txn (sy_db s) ws)"
    "nextTransactionId (db_tm (sy_db s')) = i + 1"
    "activeTransactionsMap (db_tm (sy_db s')) = activeTransactionsMap (db_tm (sy_db s))"
    "\<And>k. holder (db_tm (sy_db s')) k = holder (db_tm (sy_db s)) k"
    "\<not> ShouldFlush m \<Longrightarrow> db_memTable (sy_db s') = m \<and> sy_hist s' = sy_hist s \<and> db_disk (sy_db s') = db_disk (sy_db s)"
proof -
  let ?bt = "en_bt en"
  from writing_run [OF env reach free next_id, folded i_def]
  obtain txn1 d1 txn2 tm where b: "db_Begin (sy_db s) = (txn1, d1)" "txn_id txn1 = i" "i \<noteq> 0" "i \<notin> activeTransactionsMap (db_tm (sy_db s))"
    "\<And>k. holder (db_tm d1) k = holder (db_tm (sy_db s)) k" "puts ws txn1 d1 = (txn2, (sy_db s)\<lparr>db_tm := tm\<rparr>)"
    and steps2: "(store_step en)\<^sup>*\<^sup>* s (s\<lparr>sy_db := (sy_db s)\<lparr>db_tm := tm\<rparr>, sy_txns := (sy_txns s)(i \<mapsto> txn2)\<rparr>)"
    and t2: "txn_id txn2 = i" "bufferedWriteMap txn2 = buffer_all ws Map.empty"
    and tm: "nextTransactionId tm = i + 1" "activeTransactionsMap tm = insert i (activeTransactionsMap (db_tm (sy_db s)))"
      "\<And>k. k \<notin> fst ` set ws \<Longrightarrow> holder tm k = holder (db_tm (sy_db s)) k" by metis
  define s2 where "s2 = s\<lparr>sy_db := (sy_db s)\<lparr>db_tm := tm\<rparr>, sy_txns := (sy_txns s)(i \<mapsto> txn2)\<rparr>"
  have reach2: "store_reachable en s2" unfolding s2_def by (rule reachable_steps [OF reach steps2])
  have s2: "sy_txns s2 i = Some txn2" "db_memTable (sy_db s2) = db_memTable (sy_db s)" "sy_hist s2 = sy_hist s"
    "sy_db s2 = (sy_db s)\<lparr>db_tm := tm\<rparr>" "db_disk (sy_db s2) = db_disk (sy_db s)" by (simp_all add: s2_def)
  have same: "txn_id txn2 = txn_id (write_txn (sy_db s) ws)" "bufferedWriteMap txn2 = bufferedWriteMap (write_txn (sy_db s) ws)"
    by (simp_all add: t2 write_txn_def new_txn_def i_def)
  note cong = commit_fits_cong [OF same s2(2,3)]
  note c = commit_result [OF env_okD(1) [OF env] reach2 s2(1), unfolded cong, OF fits]
  define d3 where "d3 = (committed ?bt (en_rngW en) (en_rngM en) txn2 (sy_db s2))\<lparr>db_tm := tm_end txn2 (db_tm (sy_db s2))\<rparr>"
  define s3 where "s3 = after_commit ?bt (en_rngM en) s2 txn2 d3"
  have s3: "sy_db s3 = d3" by (simp add: s3_def after_commit_def Let_def)
  obtain bnd where commit: "txn_Commit ?bt (en_rngA en) (en_rngW en) (en_rngM en) IoOk txn2 ((sy_db s)\<lparr>db_tm := tm\<rparr>) =
      (Ok bnd, ended txn2, sy_db s3)"
    using c(1) unfolding s3 d3_def s2(4) by blast
  have steps3: "(store_step en)\<^sup>*\<^sup>* s s3"
    using steps2 c(3) unfolding s3_def d3_def s2_def [symmetric] by (metis rtranclp.rtrancl_into_rtrancl)
  have "versions ?bt s2 = versions ?bt s" by (simp add: versions_def s2(2,3))
  then have vers: "set (versions ?bt s3) = set (versions ?bt s) \<union> writes_of (write_txn (sy_db s) ws)"
    using c(2) unfolding s3_def d3_def cong by simp
  have ids: "nextTransactionId (db_tm (sy_db s3)) = i + 1"
    "activeTransactionsMap (db_tm (sy_db s3)) = activeTransactionsMap (db_tm (sy_db s))"
    using b(4) tm(1,2) t2(1) by (simp_all add: s3 d3_def s2(4))
  have "set (lockAcquiredKeys txn2) = fst ` set ws"
    using locks_okD(2) [OF sys_invD(2) [OF store_inv [OF env reach2]] s2(1)] t2(2) by (simp add: dom_buffer_all)
  then have locks: "holder (db_tm (sy_db s3)) k = holder (db_tm (sy_db s)) k" for k
    using tm(3) free by (auto simp: s3 d3_def s2(4))
  have "db_memTable (sy_db s3) = m \<and> sy_hist s3 = sy_hist s \<and> db_disk (sy_db s3) = db_disk (sy_db s)" if "\<not> ShouldFlush m"
    using that s2(3,5) by (simp add: s3 d3_def s3_def after_commit_def m_def cong committed_def Let_def)
  with that [OF b(1-3,5,6) commit steps3 vers ids locks] show thesis by blast
qed

section \<open>INSERT\<close>

text \<open>The keys of the index entries of a row, in the order of the table's indexes.\<close>

fun index_keys :: "CreateTable \<Rightarrow> InsertIntoTable \<Rightarrow> SecondaryIndex list \<Rightarrow> string list result" where
  "index_keys table ins [] = Ok []"
| "index_keys table ins (si # sis) =
     rbind (getIndexAndPrimaryKeyColumnValuesInIndexSequence table (si_Columns si) ins) (\<lambda>(vs, pk).
     rbind (index_keys table ins sis) (\<lambda>ks.
       Ok (getSecondaryIndexKeyOrPrefix (it_TableName ins) (si_IndexName si) vs pk # ks)))"

definition insert_writes :: "string \<Rightarrow> bytes \<Rightarrow> string list \<Rightarrow> (string \<times> string) list" where
  "insert_writes key buf ks = (key, buf) # map (\<lambda>k. (k, '''')) ks"

lemma updateIndexes_puts:
  "index_keys table ins sis = Ok ks \<Longrightarrow>
   updateIndexes table ins sis txn db = (case puts (map (\<lambda>k. (k, '''')) ks) txn db of (txn, db) \<Rightarrow> (Ok (), txn, db))"
proof (induction sis arbitrary: ks txn db)
  case (Cons si sis)
  then obtain vs pk ks' where k: "getIndexAndPrimaryKeyColumnValuesInIndexSequence table (si_Columns si) ins = Ok (vs, pk)"
    "index_keys table ins sis = Ok ks'"
    "ks = getSecondaryIndexKeyOrPrefix (it_TableName ins) (si_IndexName si) vs pk # ks'"
    by (auto simp: rbind_Ok_iff)
  with Cons.IH [OF k(2)] show ?case
    by (auto split: prod.splits)
qed simp

text \<open>An accepted row: it has the table's length, it can be stored, and every index has its values.\<close>

definition accepted :: "CreateTable \<Rightarrow> InsertIntoTable \<Rightarrow> string \<Rightarrow> bytes \<Rightarrow> string list \<Rightarrow> bool" where
  "accepted table ins key buf ks \<longleftrightarrow> length (it_ColumnValues ins) = length (ct_ColumnDetails table) \<and>
     serialiseInsertIntoTableInput table ins = Ok (key, buf) \<and> index_keys table ins (ct_SecondaryIndexes table) = Ok ks"

lemma schema_of_update [simp]: "schema_of (db\<lparr>sq_db := d\<rparr>) = schema_of db"
  by (simp add: schema_of_def fun_eq_iff)

lemma insert_granted:
  assumes "accepted (schema_of db (it_TableName ins)) ins key buf ks"
    and "txn_id txn \<noteq> 0" "holder (db_tm (sq_db db)) key \<in> {0, txn_id txn}"
  shows "txn_InsertIntoTable en io txn db ins =
    (case puts (insert_writes key buf ks) txn (sq_db db) of (txn, d) \<Rightarrow> sq_Commit en io txn (db\<lparr>sq_db := d\<rparr>))"
proof -
  obtain r txn1 d1 where p: "txn_Put txn (sq_db db) key buf = (r, txn1, d1)" by (metis prod_cases3)
  have r: "r = Ok ()" using put_granted(1) [OF refl assms(2,3) p] .
  obtain txn2 d2 where q: "puts (map (\<lambda>k. (k, '''')) ks) txn1 d1 = (txn2, d2)" by fastforce
  have "index_keys (schema_of db (it_TableName ins)) ins (ct_SecondaryIndexes (schema_of db (it_TableName ins))) = Ok ks"
    using assms(1) by (simp add: accepted_def)
  from updateIndexes_puts [OF this, of txn1 d1] assms(1) show ?thesis
    by (simp add: txn_InsertIntoTable_def accepted_def p r q insert_writes_def ignoring_error_def
        updateSecondaryIndexes_def Let_def)
qed

lemma insert_run:
  fixes db :: "'t sqldb"
  assumes env: "env_ok en" and reach: "store_reachable en s" and db: "sq_db db = sy_db s"
    and acc: "accepted (schema_of db (it_TableName ins)) ins key buf ks"
    and free: "\<forall>k \<in> insert key (set ks). holder (db_tm (sy_db s)) k = 0"
    and next_id: "nextTransactionId (db_tm (sy_db s)) + 1 \<noteq> 0"
    and fits: "commit_fits (en_bt en) (en_rngW en) (en_rngM en) s (write_txn (sy_db s) (insert_writes key buf ks))"
  defines "m \<equiv> committed_memtable (en_bt en) (en_rngM en) (write_txn (sy_db s) (insert_writes key buf ks)) (sy_db s)"
  shows "\<exists>s' db'. insertIntoTable en IoOk db ins = (Ok (), db') \<and> (store_step en)\<^sup>*\<^sup>* s s' \<and> sq_db db' = sy_db s' \<and>
    tableNameVsSchemaMap db' = tableNameVsSchemaMap db \<and>
    set (versions (en_bt en) s') = set (versions (en_bt en) s) \<union> writes_of (write_txn (sy_db s) (insert_writes key buf ks)) \<and>
    nextTransactionId (db_tm (sy_db s')) = nextTransactionId (db_tm (sy_db s)) + 1 \<and>
    activeTransactionsMap (db_tm (sy_db s')) = activeTransactionsMap (db_tm (sy_db s)) \<and>
    (\<not> ShouldFlush m \<longrightarrow> db_memTable (sy_db s') = m \<and> sy_hist s' = sy_hist s \<and> db_disk (sy_db s') = db_disk (sy_db s))"
proof -
  have "\<forall>k \<in> fst ` set (insert_writes key buf ks). holder (db_tm (sy_db s)) k = 0"
    using free by (auto simp: insert_writes_def)
  from write_run [OF env reach this next_id fits]
  obtain txn1 d1 txn2 d2 bnd s' where r: "db_Begin (sy_db s) = (txn1, d1)"
    "txn_id txn1 = nextTransactionId (db_tm (sy_db s))" "nextTransactionId (db_tm (sy_db s)) \<noteq> 0"
    "\<And>k. holder (db_tm d1) k = holder (db_tm (sy_db s)) k" "puts (insert_writes key buf ks) txn1 d1 = (txn2, d2)"
    "txn_Commit (en_bt en) (en_rngA en) (en_rngW en) (en_rngM en) IoOk txn2 d2 = (Ok bnd, ended txn2, sy_db s')"
    and r': "(store_step en)\<^sup>*\<^sup>* s s'"
    "set (versions (en_bt en) s') = set (versions (en_bt en) s) \<union> writes_of (write_txn (sy_db s) (insert_writes key buf ks))"
    "nextTransactionId (db_tm (sy_db s')) = nextTransactionId (db_tm (sy_db s)) + 1"
    "activeTransactionsMap (db_tm (sy_db s')) = activeTransactionsMap (db_tm (sy_db s))"
    "\<not> ShouldFlush m \<Longrightarrow> db_memTable (sy_db s') = m \<and> sy_hist s' = sy_hist s \<and> db_disk (sy_db s') = db_disk (sy_db s)"
    unfolding m_def by metis
  have "holder (db_tm (sq_db (db\<lparr>sq_db := d1\<rparr>))) key \<in> {0, txn_id txn1}"
    using free r(4) by simp
  from insert_granted [OF _ _ this] acc r(1-3,5,6)
  have "insertIntoTable en IoOk db ins = (Ok (), db\<lparr>sq_db := sy_db s', sq_started := sq_started db @ started bnd\<rparr>)"
    by (simp add: insertIntoTable_def db sq_Commit_def)
  with r' show ?thesis by fastforce
qed

lemma buffer_all_entries:
  "buffer_all (map (\<lambda>k. (k, '''')) ks) m = (\<lambda>k. if k \<in> set ks then Some '''' else m k)"
  by (induction ks arbitrary: m) (auto simp: fun_eq_iff)

lemma writes_of_insert:
  assumes "key \<notin> set ks"
  shows "writes_of (write_txn db (insert_writes key buf ks)) =
    insert (mk_entry key buf (nextTransactionId (db_tm db))) {mk_entry k '''' (nextTransactionId (db_tm db)) | k. k \<in> set ks}"
  using assms by (auto simp: writes_of_def write_txn_def insert_writes_def buffer_all_entries new_txn_def split: if_splits)

text \<open>
  C11. An accepted row whose keys nobody has locked is inserted by a run of the store's steps that adds exactly
  the row and one entry for every secondary index of the table, all with the id of the new transaction, in
  one commit; nothing else of the store changes and no transaction is left active.
\<close>

theorem insert_commits_row_and_indexes:
  assumes "env_ok en" "store_reachable en s" "sq_db db = sy_db s"
    and "accepted (schema_of db (it_TableName ins)) ins key buf ks" "key \<notin> set ks"
    and "\<forall>k \<in> insert key (set ks). holder (db_tm (sy_db s)) k = 0"
    and "nextTransactionId (db_tm (sy_db s)) + 1 \<noteq> 0"
    and "commit_fits (en_bt en) (en_rngW en) (en_rngM en) s (write_txn (sy_db s) (insert_writes key buf ks))"
  shows "\<exists>s' db'. insertIntoTable en IoOk db ins = (Ok (), db') \<and> (store_step en)\<^sup>*\<^sup>* s s' \<and> sq_db db' = sy_db s' \<and>
    set (versions (en_bt en) s') = set (versions (en_bt en) s) \<union>
      insert (mk_entry key buf (nextTransactionId (db_tm (sy_db s))))
        {mk_entry k '''' (nextTransactionId (db_tm (sy_db s))) | k. k \<in> set ks} \<and>
    activeTransactionsMap (db_tm (sy_db s')) = activeTransactionsMap (db_tm (sy_db s))"
  using insert_run [OF assms(1-4,6-8)] unfolding writes_of_insert [OF assms(5)] by blast

text \<open>A database with one table, which has one index.\<close>

definition sample_env :: "entry_tree env" where
  "sample_env = \<lparr>en_bt = list_btree, en_rngA = rngA0, en_rngW = sorted_range, en_rngM = sorted_range,
     en_rngT = sorted_range, en_rngV = sorted_range, en_rngS = sorted_list_of_set, en_pad = (\<lambda>_. 0)\<rparr>"

lemma sample_env_ok: "env_ok sample_env"
  by (simp add: env_ok_def sample_env_def sample_runtime sorted_range_order)

definition indexed_table :: CreateTable where
  "indexed_table = \<lparr>ct_TableName = ''t'', ct_ColumnDetails = [\<lparr>ColumnName = ''id'', col_DataType = DataType_String\<rparr>,
     \<lparr>ColumnName = ''c'', col_DataType = DataType_String\<rparr>], ct_PrimaryKeyColumnPosition = 0,
     ct_SecondaryIndexes = [\<lparr>si_Columns = [''c''], si_IndexName = ''i''\<rparr>]\<rparr>"

definition sample_db :: "entry_tree sqldb" where
  "sample_db = \<lparr>sq_db = sy_db sample_sys0, tableNameVsSchemaMap = [''t'' \<mapsto> indexed_table], sq_started = []\<rparr>"

definition sample_ins :: InsertIntoTable where
  "sample_ins = \<lparr>it_TableName = ''t'', it_ColumnValues = [''1'', ''a'']\<rparr>"

lemma sample_sys0_reachable: "store_reachable sample_env sample_sys0"
  unfolding sample_sys0_def sample_env_def by (simp add: sys_reachable.init)

lemma sample_accepted: "\<exists>buf. length buf = 10 \<and> accepted (schema_of sample_db ''t'') sample_ins ''t:1'' buf [''index:t:i:a:1'']"
  by (simp add: accepted_def sample_db_def schema_of_def indexed_table_def sample_ins_def serialiseInsertIntoTableInput_def
      serialiseValue_def rowKey_def getIndexAndPrimaryKeyColumnValuesInIndexSequence_def getSecondaryIndexKeyOrPrefix_def)

lemma sample_sys0_tm: "holder (db_tm (sy_db sample_sys0)) k = 0" "nextTransactionId (db_tm (sy_db sample_sys0)) = 1"
  "mt_entries list_btree (db_memTable (sy_db sample_sys0)) = []" "sy_hist sample_sys0 = []"
  by (simp_all add: sample_sys0_def sys_init_def holder_def mt_entries_def NewMemtable_def)

lemma sorted_range_upd2:
  "a < b \<Longrightarrow> sorted_range [a \<mapsto> x, b \<mapsto> y] = [(a, x), (b, y)]"
  by (auto simp: sorted_range_def)

lemma sample_insert_fits:
  assumes "length buf = 10"
  defines "txn \<equiv> write_txn (sy_db sample_sys0) (insert_writes ''t:1'' buf [''index:t:i:a:1''])"
  shows "commit_fits list_btree sorted_range sorted_range sample_sys0 txn"
    "\<not> ShouldFlush (committed_memtable list_btree sorted_range txn (sy_db sample_sys0))"
proof -
  have r: "sorted_range (bufferedWriteMap txn) = [(''index:t:i:a:1'', ''''), (''t:1'', buf)]"
    using sorted_range_upd2 [of "''index:t:i:a:1''" "''t:1''" "''''" buf]
    by (simp add: txn_def write_txn_def insert_writes_def fun_upd_twist)
  then show nf: "\<not> ShouldFlush (committed_memtable list_btree sorted_range txn (sy_db sample_sys0))"
    using assms(1) by (simp add: ShouldFlush_def committed_memtable_def commit_puts_def sample_sys0_def sys_init_def
        Memtable_Put_def NewMemtable_def memtableSizeLimit_def Entry_Less_def same_version_def Let_def)
  show "commit_fits list_btree sorted_range sorted_range sample_sys0 txn"
    using assms(1) nf r by (simp add: commit_fits_def payload_fits_def commit_payload_def
        serialiseTransactionCommitPayload_eq enc_kv_def CmdTransaction_def Let_def)
qed

theorem insert_commits_row_and_indexes_witness:
  "\<exists>s' db' buf. insertIntoTable sample_env IoOk sample_db sample_ins = (Ok (), db') \<and> sq_db db' = sy_db s' \<and>
    set (versions list_btree s') = {mk_entry ''t:1'' buf 1, mk_entry ''index:t:i:a:1'' '''' 1}"
proof -
  obtain buf where buf: "length buf = 10" "accepted (schema_of sample_db ''t'') sample_ins ''t:1'' buf [''index:t:i:a:1'']"
    using sample_accepted by blast
  have "it_TableName sample_ins = ''t''" "sq_db sample_db = sy_db sample_sys0"
    by (simp_all add: sample_ins_def sample_db_def)
  with insert_commits_row_and_indexes [OF sample_env_ok sample_sys0_reachable, of sample_db sample_ins "''t:1''" buf "[''index:t:i:a:1'']"]
    buf sample_insert_fits [OF buf(1)]
  show ?thesis
    by (auto simp: sample_sys0_tm versions_def sample_env_def)
qed

section \<open>Refused rows\<close>

lemma puts_locks:
  assumes "txn_id txn = i" "i \<noteq> 0" "\<forall>k \<in> fst ` set ws. holder (db_tm db) k \<in> {0, i}" "puts ws txn db = (txn', db')"
    and "distinct (lockAcquiredKeys txn)" "\<forall>k. holder (db_tm db) k = i \<longleftrightarrow> k \<in> set (lockAcquiredKeys txn)"
  shows "owns_locks txn' (db_tm db')"
  using assms
proof (induction ws arbitrary: txn db)
  case Nil
  then show ?case by (auto simp: owns_locks_def)
next
  case (Cons w ws)
  obtain k v where w: "w = (k, v)" by fastforce
  obtain r txn1 db1 where p: "txn_Put txn db k v = (r, txn1, db1)" by (metis prod_cases3)
  note g = put_granted [OF Cons.prems(1,2) _ p]
  have k: "holder (db_tm db) k \<in> {0, i}" using Cons.prems(3) by (simp add: w)
  have free: "\<forall>k' \<in> fst ` set ws. holder (db_tm db1) k' \<in> {0, i}"
    using Cons.prems(3) g(6) [OF k] by (auto simp: w)
  have own: "distinct (lockAcquiredKeys txn1)" "\<forall>k'. holder (db_tm db1) k' = i \<longleftrightarrow> k' \<in> set (lockAcquiredKeys txn1)"
  proof -
    from k consider "holder (db_tm db) k = 0" | "holder (db_tm db) k = i" by auto
    then have "distinct (lockAcquiredKeys txn1) \<and> (\<forall>k'. holder (db_tm db1) k' = i \<longleftrightarrow> k' \<in> set (lockAcquiredKeys txn1))"
    proof cases
      case 1
      then have "k \<notin> set (lockAcquiredKeys txn)" using Cons.prems(2,6) by metis
      moreover have "lockAcquiredKeys txn1 = lockAcquiredKeys txn @ [k]"
        using p txn_Put_eq [of txn db k v] Cons.prems(1,2) 1 by auto
      ultimately show ?thesis using Cons.prems(5,6) g(6) [OF k] by simp
    next
      case 2
      then have "lockAcquiredKeys txn1 = lockAcquiredKeys txn"
        using p txn_Put_eq [of txn db k v] Cons.prems(1,2) by auto
      with 2 Cons.prems(5,6) g(6) [OF k] show ?thesis by auto
    qed
    then show "distinct (lockAcquiredKeys txn1)" "\<forall>k'. holder (db_tm db1) k' = i \<longleftrightarrow> k' \<in> set (lockAcquiredKeys txn1)"
      by blast+
  qed
  from Cons.IH [OF g(3) [OF k] Cons.prems(2) free _ own] Cons.prems(4) show ?case
    by (simp add: w p)
qed

text \<open>
  An \<open>INSERT\<close> whose row is refused: the transaction is rolled back, and goes on with the index entries.
\<close>

lemma fresh_txn:
  assumes "env_ok en" "store_reachable en s"
  defines "txn \<equiv> new_txn (db_tm (sy_db s))"
  shows "txn_id txn = nextTransactionId (db_tm (sy_db s))" "bufferedWriteMap txn = Map.empty" "lockAcquiredKeys txn = []"
    "txn_id txn \<noteq> 0" "holder (db_tm (sy_db s)) k \<noteq> txn_id txn"
proof -
  note inv = sys_invD [OF store_inv [OF assms(1,2)]]
  show f: "txn_id txn = nextTransactionId (db_tm (sy_db s))" "bufferedWriteMap txn = Map.empty" "lockAcquiredKeys txn = []"
    by (simp_all add: txn_def new_txn_def)
  show ne: "txn_id txn \<noteq> 0" using inv(1) by (auto simp: ids_ok_def f)
  show "holder (db_tm (sy_db s)) k \<noteq> txn_id txn"
    using locks_ok_holder [OF inv(2), of k] ids_okD(4) [OF inv(1)] ne unfolding f(1) by (metis less_irrefl)
qed

lemma refused_insert_eq:
  fixes db :: "'t sqldb"
  assumes env: "env_ok en" and reach: "store_reachable en s" and db: "sq_db db = sy_db s"
    and acc: "accepted (schema_of db (it_TableName ins)) ins key buf ks" and taken: "holder (db_tm (sy_db s)) key \<noteq> 0"
  defines "txn1 \<equiv> new_txn (db_tm (sy_db s))"
    and "d2 \<equiv> (sy_db s)\<lparr>db_tm := tm_end (new_txn (db_tm (sy_db s))) (tm_begin (db_tm (sy_db s)))\<rparr>"
  assumes p: "puts (map (\<lambda>k. (k, '''')) ks) txn1 d2 = (txn3, d3)"
  shows "insertIntoTable en IoOk db ins = (case sq_Commit en IoOk txn3 (db\<lparr>sq_db := d3\<rparr>) of (r, _, db) \<Rightarrow> (r, db))"
proof -
  let ?table = "schema_of db (it_TableName ins)"
  define d1 where "d1 = (sy_db s)\<lparr>db_tm := tm_begin (db_tm (sy_db s))\<rparr>"
  note t1 = fresh_txn [OF env reach, folded txn1_def]
  have begin_eq: "db_Begin (sq_db db) = (txn1, d1)" by (simp add: db db_Begin_eq txn1_def d1_def)
  have h1: "holder (db_tm d1) k = holder (db_tm (sy_db s)) k" for k by (simp add: d1_def)
  have refused: "txn_Put txn1 d1 key buf = (Err (WriteLockHeldBy (holder (db_tm d1) key)), txn1, d1)"
    using txn_Put_eq [of txn1 d1 key buf] t1(4) taken t1(5) [of key] by (simp add: h1)
  have "owns_locks txn1 (db_tm d1)" using t1(4) by (simp add: owns_locks_def t1(3))
  moreover have "ended txn1 = txn1" using t1(2,3) by (simp add: ended_def)
  ultimately have rollback: "sq_Rollback txn1 (db\<lparr>sq_db := d1\<rparr>) = (Ok (), txn1, db\<lparr>sq_db := d2\<rparr>)"
    using endTransaction_eq [of txn1 d1] by (simp add: sq_Rollback_def txn_Rollback_def d2_def d1_def txn1_def)
  have ix: "index_keys ?table ins (ct_SecondaryIndexes ?table) = Ok ks"
    using acc by (simp add: accepted_def)
  have "txn_InsertIntoTable en IoOk txn1 (db\<lparr>sq_db := d1\<rparr>) ins = sq_Commit en IoOk txn3 (db\<lparr>sq_db := d3\<rparr>)"
    using acc updateIndexes_puts [OF ix, of txn1 d2]
    by (simp add: txn_InsertIntoTable_def accepted_def refused rollback p ignoring_error_def updateSecondaryIndexes_def Let_def)
  then show ?thesis
    by (simp add: insertIntoTable_def begin_eq)
qed

text \<open>
  C18. A row whose key another transaction has locked is not inserted, but the call reports success; and if the
  table has secondary indexes, their entries for the missing row are committed.
\<close>

theorem insert_refused_reports_success:
  fixes db :: "'t sqldb"
  assumes env: "env_ok en" and reach: "store_reachable en s" and db: "sq_db db = sy_db s"
    and acc: "accepted (schema_of db (it_TableName ins)) ins key buf ks"
    and taken: "holder (db_tm (sy_db s)) key \<noteq> 0" and free: "\<forall>k \<in> set ks. holder (db_tm (sy_db s)) k = 0"
    and no_flush: "\<not> ShouldFlush (committed_memtable (en_bt en) (en_rngM en) (write_txn (sy_db s) (map (\<lambda>k. (k, '''')) ks)) (sy_db s))"
  shows "\<exists>db'. insertIntoTable en IoOk db ins = (Ok (), db') \<and>
    set (mt_entries (en_bt en) (db_memTable (sq_db db'))) = set (mt_entries (en_bt en) (db_memTable (sq_db db))) \<union>
      {mk_entry k '''' (nextTransactionId (db_tm (sq_db db))) | k. k \<in> set ks} \<and>
    db_ssTable (sq_db db') = db_ssTable (sq_db db) \<and> db_disk (sq_db db') = db_disk (sq_db db)"
proof -
  let ?i = "nextTransactionId (db_tm (sy_db s))" and ?ws = "map (\<lambda>k. (k, '''')) ks" and ?bt = "en_bt en"
  define txn1 where "txn1 = new_txn (db_tm (sy_db s))"
  define d2 where "d2 = (sy_db s)\<lparr>db_tm := tm_end txn1 (tm_begin (db_tm (sy_db s)))\<rparr>"
  note t1 = fresh_txn [OF env reach, folded txn1_def]
  have h: "holder (db_tm d2) k = holder (db_tm (sy_db s)) k" for k by (simp add: d2_def t1(3))
  obtain txn3 d3 where p: "puts ?ws txn1 d2 = (txn3, d3)" by fastforce
  note ins = refused_insert_eq [OF env reach db acc taken, folded txn1_def, folded d2_def, OF p]
  have i: "?i \<noteq> 0" and keys: "\<forall>k \<in> fst ` set ?ws. holder (db_tm d2) k \<in> {0, ?i}"
    using t1(1,4) free by (auto simp: h)
  have own: "owns_locks txn3 (db_tm d3)"
    by (rule puts_locks [OF t1(1) i keys p]) (use t1(3,5) in \<open>simp_all add: h t1(1)\<close>)
  let ?s = "s\<lparr>sy_db := d2, sy_txns := [?i \<mapsto> txn1]\<rparr>"
  have live: "sy_txns ?s ?i = Some txn1" by simp
  have run: "bufferedWriteMap txn3 = buffer_all ?ws Map.empty" "txn_id txn3 = ?i" "same_store d2 d3"
    using puts_run [OF live t1(1) i, of ?ws txn3 d3] keys p by (simp_all add: t1(2))
  obtain tm where d3: "d3 = d2\<lparr>db_tm := tm\<rparr>" using run(3) by (auto simp: same_store_def)
  have m: "committed_memtable ?bt (en_rngM en) txn3 d3 = committed_memtable ?bt (en_rngM en) (write_txn (sy_db s) ?ws) (sy_db s)"
    using run(1,2) by (simp add: committed_memtable_def d3 d2_def write_txn_def new_txn_def)
  from txn_Commit_eq [OF own, of ?bt "en_rngA en" "en_rngW en" "en_rngM en"] obtain bnd where
    c: "txn_Commit ?bt (en_rngA en) (en_rngW en) (en_rngM en) IoOk txn3 d3 =
      (Ok bnd, ended txn3, (committed ?bt (en_rngW en) (en_rngM en) txn3 d3)\<lparr>db_tm := tm_end txn3 (db_tm d3)\<rparr>)" by blast
  note committed_write [OF env reach, of ?ws]
  moreover have "writes_of (write_txn (sy_db s) ?ws) = {mk_entry k '''' ?i | k. k \<in> set ks}"
    by (auto simp: writes_of_def write_txn_def buffer_all_entries new_txn_def split: if_splits)
  ultimately show ?thesis
    using no_flush by (auto simp: ins sq_Commit_def c committed_def m db Let_def) (simp_all add: d3 d2_def)
qed

definition locked_sys :: "entry_tree sys" where
  "locked_sys = sys_put 1 ''t:1'' ''x'' (sys_begin sample_sys0)"

lemma locked_sys_reachable: "store_reachable sample_env locked_sys"
proof -
  have 1: "store_reachable sample_env (sys_begin sample_sys0)"
    by (rule sys_begin_reachable [OF sample_sys0_reachable]) (simp add: sample_defs)
  moreover have "\<exists>txn. sy_txns (sys_begin sample_sys0) 1 = Some txn"
    by (simp add: sample_defs)
  ultimately show ?thesis
    unfolding locked_sys_def by (blast intro: sys_put_reachable)
qed

lemma locked_sys_tm: "holder (db_tm (sy_db locked_sys)) k = (if k = ''t:1'' then 1 else 0)"
  "nextTransactionId (db_tm (sy_db locked_sys)) = 2" "db_memTable (sy_db locked_sys) = NewMemtable list_btree"
  by (auto simp: locked_sys_def sample_defs)

theorem insert_refused_reports_success_witness:
  "\<exists>db'. insertIntoTable sample_env IoOk (sample_db\<lparr>sq_db := sy_db locked_sys\<rparr>) sample_ins = (Ok (), db') \<and>
    set (mt_entries list_btree (db_memTable (sq_db db'))) = {mk_entry ''index:t:i:a:1'' '''' 2}"
proof -
  let ?db = "sample_db\<lparr>sq_db := sy_db locked_sys\<rparr>"
  obtain buf where buf: "accepted (schema_of ?db (it_TableName sample_ins)) sample_ins ''t:1'' buf [''index:t:i:a:1'']"
    using sample_accepted by (auto simp: sample_ins_def)
  have "sorted_range [''index:t:i:a:1'' \<mapsto> '''' :: string] = [(''index:t:i:a:1'', '''')]"
    by (simp add: sorted_range_def)
  then have "\<not> ShouldFlush (committed_memtable list_btree sorted_range (write_txn (sy_db locked_sys) [(''index:t:i:a:1'', '''')]) (sy_db locked_sys))"
    by (simp add: ShouldFlush_def committed_memtable_def commit_puts_def write_txn_def locked_sys_tm
        Memtable_Put_def NewMemtable_def memtableSizeLimit_def)
  with insert_refused_reports_success [OF sample_env_ok locked_sys_reachable _ buf] show ?thesis
    by (fastforce simp: sample_env_def locked_sys_tm mt_entries_def NewMemtable_def)
qed

lemma releaseLocks_not_Err: "releaseLocks i locks ks \<noteq> Err er"
  by (induction ks arbitrary: locks) (auto simp: releaseLock_def rbind_Err_iff split: option.splits)

lemma endTransaction_not_Err: "endTransaction txn db \<noteq> Err er"
  by (auto simp: endTransaction_def releaseAllLocks_def rbind_Err_iff releaseLocks_not_Err)

lemma sq_Rollback_not_Err: "sq_Rollback txn db \<noteq> (Err er, r)"
  using endTransaction_not_Err [of txn "sq_db db"]
  by (auto simp: sq_Rollback_def txn_Rollback_def split: result.splits)

lemma sq_Commit_Err: "sq_Commit en io txn db = (Err er, r) \<Longrightarrow> er = WriteFailed"
  by (cases io) (auto simp: sq_Commit_def txn_Commit_def writeSingleWalEntryForCommit_def WriteEntry_def Let_def
      endTransaction_not_Err split: result.splits prod.splits)


end
