(* ===== verification/SqlCatalog.thy ===== *)
theory SqlCatalog
  imports SqlDbProps
begin

text \<open>
  The catalog in the store and the schemas in memory: \<open>CREATE TABLE\<close> keeps them equal, and opening the
  database after a crash loads the schemas that were in memory.
\<close>

section \<open>What a new reader finds\<close>

text \<open>
  The newest version of the key is in the memtable and was committed by a transaction that has ended.
\<close>

definition holds :: "'t btree \<Rightarrow> 't DB \<Rightarrow> string \<Rightarrow> string \<Rightarrow> bool" where
  "holds bt db k v \<longleftrightarrow> (\<exists>e \<in> set (mt_entries bt (db_memTable db)). Key e = k \<and> Value e = v \<and>
     TxnId e \<notin> activeTransactionsMap (db_tm db) \<and> TxnId e < nextTransactionId (db_tm db) \<and>
     (\<forall>f \<in> set (mt_entries bt (db_memTable db)). Key f = k \<longrightarrow> TxnId f \<le> TxnId e))"

lemma holds_mem_get:
  assumes "btree_ok bt" "holds bt db k v"
  shows "Memtable_Get bt (db_memTable db) k (nextTransactionId (db_tm db))
    (insert (nextTransactionId (db_tm db)) (activeTransactionsMap (db_tm db))) = (v, True)"
proof -
  from assms(2) obtain e where e: "e \<in> set (mt_entries bt (db_memTable db))" "Key e = k" "Value e = v"
    "TxnId e \<notin> activeTransactionsMap (db_tm db)" "TxnId e < nextTransactionId (db_tm db)"
    "\<forall>f \<in> set (mt_entries bt (db_memTable db)). Key f = k \<longrightarrow> TxnId f \<le> TxnId e"
    unfolding holds_def by blast
  have "latest_version k (nextTransactionId (db_tm db))
      (insert (nextTransactionId (db_tm db)) (activeTransactionsMap (db_tm db))) (mt_entries bt (db_memTable db)) = Some e"
    by (rule latest_versionI [OF ordered_unique [OF mt_entries_ordered [OF assms(1)]]])
      (use e in \<open>auto simp: visible_def\<close>)
  then show ?thesis by (simp add: Memtable_Get_eq [OF assms(1)] e(3))
qed

lemma holds_get:
  assumes "btree_ok bt" "holds bt db k v" "db_memTable db' = db_memTable db"
  shows "txn_Get bt (new_txn (db_tm db)) db' k = Ok v"
  using holds_mem_get [OF assms(1,2)]
  by (simp add: txn_Get_def new_txn_def getWithSnapshot_def assms(3))

text \<open>One transaction that begins, writes and commits, as seen by new readers.\<close>



lemma holds_after:
  assumes ents: "set (mt_entries bt (db_memTable db')) = set (mt_entries bt (db_memTable db)) \<union> writes_of (write_txn db ws)"
    and ids: "nextTransactionId (db_tm db') = nextTransactionId (db_tm db) + 1" "nextTransactionId (db_tm db) + 1 \<noteq> 0"
    and act: "activeTransactionsMap (db_tm db') = activeTransactionsMap (db_tm db)"
      "nextTransactionId (db_tm db) \<notin> activeTransactionsMap (db_tm db)"
    and old: "\<forall>e \<in> set (mt_entries bt (db_memTable db)). TxnId e < nextTransactionId (db_tm db)"
  shows "buffer_all ws Map.empty k = Some v \<Longrightarrow> holds bt db' k v"
    "k \<notin> fst ` set ws \<Longrightarrow> holds bt db k v \<Longrightarrow> holds bt db' k v"
proof -
  let ?i = "nextTransactionId (db_tm db)"
  have w: "writes_of (write_txn db ws) = {mk_entry k v ?i | k v. buffer_all ws Map.empty k = Some v}"
    by (simp add: writes_of_def write_txn_def new_txn_def)
  have lt: "?i < ?i + 1" using ids(2) word_next [of ?i ?i] by simp
  show "holds bt db' k v" if "buffer_all ws Map.empty k = Some v"
    unfolding holds_def ents w ids(1) act(1)
    by (rule bexI [of _ "mk_entry k v ?i"]) (use that act(2) lt old in \<open>auto intro: less_imp_le\<close>)
  have lt2: "x < ?i \<Longrightarrow> x < ?i + 1" for x by (rule less_trans [OF _ lt])
  show "holds bt db' k v" if k: "k \<notin> fst ` set ws" and h: "holds bt db k v"
  proof -
    have "k \<notin> dom (buffer_all ws Map.empty)" using k by (simp add: dom_buffer_all)
    with h lt2 show ?thesis
      unfolding holds_def ents w ids(1) act(1) by fastforce
  qed
qed

section \<open>One Put\<close>

text \<open>Enough room in the memtable for so many bytes of keys and values.\<close>

definition room :: "'t DB \<Rightarrow> nat \<Rightarrow> bool" where
  "room db n \<longleftrightarrow> max 0 (mt_size (db_memTable db)) + int n < memtableSizeLimit"

lemma mt_size_Put_le: "mt_size (Memtable_Put bt m k v i) \<le> mt_size m + int (length k + length v)"
  by (auto simp: mt_size_Put split: option.splits)

lemma range_single:
  assumes "range_order rng"
  shows "rng [k \<mapsto> v] = [(k, v)]"
proof -
  have en: "enumerates (rng [k \<mapsto> v]) [k \<mapsto> v]" using assms by (simp add: range_order_def)
  have s: "set (rng [k \<mapsto> v]) = {(k, v)}" using enumerates_set [OF en] by (auto split: if_splits)
  have "distinct (rng [k \<mapsto> v])" using en by (simp add: enumerates_def distinct_map)
  from distinct_card [OF this] s have "length (rng [k \<mapsto> v]) = 1" by simp
  then obtain x where "rng [k \<mapsto> v] = [x]" by (auto simp: length_Suc_conv)
  with s show ?thesis by simp
qed

lemma room_fits:
  assumes "env_ok en" "room (sy_db s) (length k + length v + n)"
  defines "txn \<equiv> write_txn (sy_db s) [(k, v)]"
  shows "commit_fits (en_bt en) (en_rngW en) (en_rngM en) s txn"
    "\<not> ShouldFlush (committed_memtable (en_bt en) (en_rngM en) txn (sy_db s))"
    "max 0 (mt_size (committed_memtable (en_bt en) (en_rngM en) txn (sy_db s))) + int n < memtableSizeLimit"
proof -
  note ok = runtime_okD [OF env_okD(1) [OF assms(1)]]
  let ?m = "committed_memtable (en_bt en) (en_rngM en) txn (sy_db s)"
  have m: "?m = Memtable_Put (en_bt en) (db_memTable (sy_db s)) k v (txn_id txn)"
    by (simp add: committed_memtable_def txn_def write_txn_def commit_puts_def range_single [OF ok(3)])
  have size: "max 0 (mt_size ?m) + int n < memtableSizeLimit"
    using assms(2) mt_size_Put_le [of "en_bt en" "db_memTable (sy_db s)" k v "txn_id txn"]
    by (simp add: m room_def)
  then show "max 0 (mt_size ?m) + int n < memtableSizeLimit" .
  from size show nf: "\<not> ShouldFlush ?m" by (simp add: ShouldFlush_def)
  show "commit_fits (en_bt en) (en_rngW en) (en_rngM en) s txn"
    using nf assms(2) unfolding commit_fits_def Let_def
    by (simp add: payload_fits_def txn_def write_txn_def range_single [OF ok(2)] commit_payload_def
        serialiseTransactionCommitPayload_eq enc_kv_def CmdTransaction_def room_def memtableSizeLimit_def)
qed

text \<open>A \<open>Put\<close> of a key that is free, as a run of the store.\<close>

lemma Put_run:
  fixes db :: "'t sqldb"
  assumes env: "env_ok en" and reach: "store_reachable en s" and db: "sq_db db = sy_db s"
    and free: "holder (db_tm (sy_db s)) k = 0" and next_id: "nextTransactionId (db_tm (sy_db s)) + 1 \<noteq> 0"
    and room: "room (sy_db s) (length k + length v + n)"
  obtains s' db' where "sq_Put en IoOk db k v = (Ok (), db')" "(store_step en)\<^sup>*\<^sup>* s s'" "sq_db db' = sy_db s'"
    "tableNameVsSchemaMap db' = tableNameVsSchemaMap db" "room (sy_db s') n"
    "nextTransactionId (db_tm (sy_db s')) = nextTransactionId (db_tm (sy_db s)) + 1"
    "\<And>k. holder (db_tm (sy_db s')) k = holder (db_tm (sy_db s)) k"
    "holds (en_bt en) (sy_db s') k v" "\<And>k' v'. k' \<noteq> k \<Longrightarrow> holds (en_bt en) (sy_db s) k' v' \<Longrightarrow> holds (en_bt en) (sy_db s') k' v'"
    "db_disk (sy_db s') = db_disk (sy_db s)"
    "set (mt_entries (en_bt en) (db_memTable (sy_db s'))) =
      set (mt_entries (en_bt en) (db_memTable (sy_db s))) \<union> writes_of (write_txn (sy_db s) [(k, v)])"
proof -
  note fits = room_fits [OF env room]
  have "\<forall>k \<in> fst ` set [(k, v)]. holder (db_tm (sy_db s)) k = 0" using free by simp
  from write_run [OF env reach this next_id fits(1)]
  obtain txn1 d1 txn2 d2 bnd s' where r: "db_Begin (sy_db s) = (txn1, d1)"
    "txn_id txn1 = nextTransactionId (db_tm (sy_db s))" "nextTransactionId (db_tm (sy_db s)) \<noteq> 0"
    "\<And>k. holder (db_tm d1) k = holder (db_tm (sy_db s)) k" "puts [(k, v)] txn1 d1 = (txn2, d2)"
    "txn_Commit (en_bt en) (en_rngA en) (en_rngW en) (en_rngM en) IoOk txn2 d2 = (Ok bnd, ended txn2, sy_db s')"
    and r': "(store_step en)\<^sup>*\<^sup>* s s'" "nextTransactionId (db_tm (sy_db s')) = nextTransactionId (db_tm (sy_db s)) + 1"
    "activeTransactionsMap (db_tm (sy_db s')) = activeTransactionsMap (db_tm (sy_db s))"
    "\<And>k. holder (db_tm (sy_db s')) k = holder (db_tm (sy_db s)) k"
    and m: "db_memTable (sy_db s') = committed_memtable (en_bt en) (en_rngM en) (write_txn (sy_db s) [(k, v)]) (sy_db s)"
    and disk: "db_disk (sy_db s') = db_disk (sy_db s)"
    using fits(2) by metis
  obtain x where p: "txn_Put txn1 d1 k v = (x, txn2, d2)"
    using r(5) by (auto split: prod.splits)
  have "x = Ok ()"
    by (rule put_granted(1) [OF refl _ _ p]) (use r free in auto)
  with r p db have put: "sq_Put en IoOk db k v = (Ok (), db\<lparr>sq_db := sy_db s', sq_started := sq_started db @ started bnd\<rparr>)"
    by (simp add: sq_Put_def db_Put_def)
  have old: "\<forall>e \<in> set (mt_entries (en_bt en) (db_memTable (sy_db s))). TxnId e < nextTransactionId (db_tm (sy_db s))"
    using old_versions [OF env reach] by blast
  have fresh: "nextTransactionId (db_tm (sy_db s)) \<notin> activeTransactionsMap (db_tm (sy_db s))"
    using sys_invD(1) [OF store_inv [OF env reach]] by (auto simp: ids_ok_def)
  have ents: "set (mt_entries (en_bt en) (db_memTable (sy_db s'))) =
      set (mt_entries (en_bt en) (db_memTable (sy_db s))) \<union> writes_of (write_txn (sy_db s) [(k, v)])"
    unfolding m by (rule committed_write [OF env reach])
  note h = holds_after [OF ents r'(2) next_id r'(3) fresh old]
  show thesis
    by (rule that [OF put r'(1) _ _ _ r'(2,4)]) (use fits(3) h disk ents in \<open>auto simp: room_def m\<close>)
qed

text \<open>Several \<open>Put\<close>s one after the other, each a transaction of its own.\<close>

fun sq_Puts :: "'t env \<Rightarrow> 't sqldb \<Rightarrow> (string \<times> string) list \<Rightarrow> unit result \<times> 't sqldb" where
  "sq_Puts en db [] = (Ok (), db)"
| "sq_Puts en db ((k, v) # ws) =
     (case sq_Put en IoOk db k v of
        (Ok _, db) \<Rightarrow> sq_Puts en db ws
      | (er, db) \<Rightarrow> (er, db))"

definition write_bytes :: "(string \<times> string) list \<Rightarrow> nat" where
  "write_bytes ws = (\<Sum>(k, v) \<leftarrow> ws. length k + length v)"

lemma write_bytes_simps [simp]:
  "write_bytes [] = 0" "write_bytes ((k, v) # ws) = length k + length v + write_bytes ws"
  by (simp_all add: write_bytes_def)

lemma no_wrap:
  assumes "unat (x :: u64) + n < 2 ^ 64" "0 < n"
  shows "x + word_of_nat n \<noteq> 0"
proof -
  have "x + word_of_nat n = word_of_nat (unat x + n)" by simp
  then have "unat (x + word_of_nat n) = unat x + n"
    using assms(1) by (simp only: unat_of_nat) simp
  with assms(2) show ?thesis by auto
qed

lemma unat_succ: "unat (x :: u64) + 1 < 2 ^ 64 \<Longrightarrow> unat (x + 1) = unat x + 1 \<and> x + 1 \<noteq> 0"
  using no_wrap [of x 1] unatSuc [of x] by (simp add: add.commute)

lemma Puts_run:
  fixes db :: "'t sqldb" and s :: "'t sys"
  assumes env: "env_ok en" and reach: "store_reachable en s" and db: "sq_db db = sy_db s"
    and free: "\<forall>k \<in> fst ` set ws. holder (db_tm (sy_db s)) k = 0" and keys: "distinct (map fst ws)"
    and ids: "unat (nextTransactionId (db_tm (sy_db s))) + length ws < 2 ^ 64" and room: "room (sy_db s) (write_bytes ws)"
  shows "\<exists>s' db'. sq_Puts en db ws = (Ok (), db') \<and> (store_step en)\<^sup>*\<^sup>* s s' \<and> sq_db db' = sy_db s' \<and>
    tableNameVsSchemaMap db' = tableNameVsSchemaMap db \<and> (\<forall>(k, v) \<in> set ws. holds (en_bt en) (sy_db s') k v) \<and>
    (\<forall>k v. k \<notin> fst ` set ws \<longrightarrow> holds (en_bt en) (sy_db s) k v \<longrightarrow> holds (en_bt en) (sy_db s') k v) \<and>
    db_disk (sy_db s') = db_disk (sy_db s)"
  using reach db free keys ids room
proof (induction ws arbitrary: s db)
  case (Cons w ws)
  obtain k v where w: "w = (k, v)" by (cases w)
  have succ: "unat (nextTransactionId (db_tm (sy_db s)) + 1) = unat (nextTransactionId (db_tm (sy_db s))) + 1"
    "nextTransactionId (db_tm (sy_db s)) + 1 \<noteq> 0"
    using unat_succ [of "nextTransactionId (db_tm (sy_db s))"] Cons.prems(5) by simp_all
  have free: "holder (db_tm (sy_db s)) k = 0" and room: "room (sy_db s) (length k + length v + write_bytes ws)"
    using Cons.prems(3,6) by (simp_all add: w)
  obtain s1 :: "'t sys" and db1 where p: "sq_Put en IoOk db k v = (Ok (), db1)" "(store_step en)\<^sup>*\<^sup>* s s1" "sq_db db1 = sy_db s1"
    "tableNameVsSchemaMap db1 = tableNameVsSchemaMap db" "room (sy_db s1) (write_bytes ws)"
    "nextTransactionId (db_tm (sy_db s1)) = nextTransactionId (db_tm (sy_db s)) + 1"
    "\<And>k. holder (db_tm (sy_db s1)) k = holder (db_tm (sy_db s)) k" "holds (en_bt en) (sy_db s1) k v"
    "\<And>k' v'. k' \<noteq> k \<Longrightarrow> holds (en_bt en) (sy_db s) k' v' \<Longrightarrow> holds (en_bt en) (sy_db s1) k' v'"
    "db_disk (sy_db s1) = db_disk (sy_db s)"
    by (rule Put_run [OF env Cons.prems(1,2) free succ(2) room]) (rule that)
  have "\<exists>s' db'. sq_Puts en db1 ws = (Ok (), db') \<and> (store_step en)\<^sup>*\<^sup>* s1 s' \<and> sq_db db' = sy_db s' \<and>
      tableNameVsSchemaMap db' = tableNameVsSchemaMap db1 \<and> (\<forall>(k, v) \<in> set ws. holds (en_bt en) (sy_db s') k v) \<and>
      (\<forall>k v. k \<notin> fst ` set ws \<longrightarrow> holds (en_bt en) (sy_db s1) k v \<longrightarrow> holds (en_bt en) (sy_db s') k v) \<and>
      db_disk (sy_db s') = db_disk (sy_db s1)"
    by (rule Cons.IH [OF reachable_steps [OF Cons.prems(1) p(2)] p(3)]) (use Cons.prems(3-5) p(5) in \<open>simp_all add: p(6,7) succ(1)\<close>)
  then obtain s' :: "'t sys" and db' where r: "sq_Puts en db1 ws = (Ok (), db')" "(store_step en)\<^sup>*\<^sup>* s1 s'" "sq_db db' = sy_db s'"
    "tableNameVsSchemaMap db' = tableNameVsSchemaMap db1" "\<forall>(k, v) \<in> set ws. holds (en_bt en) (sy_db s') k v"
    "\<forall>k v. k \<notin> fst ` set ws \<longrightarrow> holds (en_bt en) (sy_db s1) k v \<longrightarrow> holds (en_bt en) (sy_db s') k v"
    "db_disk (sy_db s') = db_disk (sy_db s1)" by blast
  have "k \<notin> fst ` set ws" using Cons.prems(4) by (simp add: w)
  with r(6) p(8) have "holds (en_bt en) (sy_db s') k v" by blast
  with r p show ?case
    by (intro exI [of _ s'] exI [of _ db']) (auto simp: w)
qed auto

section \<open>The list of tables\<close>

definition joined :: "string list \<Rightarrow> string" where
  "joined names = butlast (concat (map (\<lambda>n. n @ '','') names))"

lemma joined_simps: "joined [n] = n" "ns \<noteq> [] \<Longrightarrow> joined (n # ns) = n @ CHR '','' # joined ns"
  by (cases ns; simp add: joined_def butlast_append)+

lemma split_joined:
  "\<lbrakk>names \<noteq> []; \<forall>n \<in> set names. CHR '','' \<notin> set n\<rbrakk> \<Longrightarrow> split_on CHR '','' (joined names) = names"
proof (induction names)
  case (Cons n ns)
  then show ?case
    by (cases "ns = []") (simp_all add: joined_simps split_on_no_sep split_on_append)
qed simp

lemma joined_empty: "\<lbrakk>names \<noteq> []; \<forall>n \<in> set names. n \<noteq> ''''\<rbrakk> \<Longrightarrow> joined names \<noteq> ''''"
  by (cases names; cases "tl names = []") (auto simp: joined_simps)

section \<open>The catalog of the store is that of the memory\<close>

text \<open>A table whose name is usable and whose stored forms have lengths that fit.\<close>

definition wf_table :: "CreateTable \<Rightarrow> bytes \<Rightarrow> bool" where
  "wf_table t buf \<longleftrightarrow> ct_TableName t \<noteq> '''' \<and> CHR '','' \<notin> set (ct_TableName t) \<and>
     ct_PrimaryKeyColumnPosition t < 2 ^ 32 \<and> length (serialiseCreateTableInput t) < 2 ^ 32 \<and>
     serialiseSecondaryIndexCatalog (ct_ColumnDetails t) (ct_SecondaryIndexes t) = Ok buf \<and> length buf < 2 ^ 32"

definition catalog_ok :: "'t env \<Rightarrow> 't sqldb \<Rightarrow> bool" where
  "catalog_ok en db \<longleftrightarrow> finite (dom (tableNameVsSchemaMap db)) \<and>
     (\<forall>n t. tableNameVsSchemaMap db n = Some t \<longrightarrow> ct_TableName t = n \<and> (\<exists>buf. wf_table t buf \<and>
        holds (en_bt en) (sq_db db) (SchemaKey n) (serialiseCreateTableInput t) \<and>
        holds (en_bt en) (sq_db db) (SecondaryIndexesCatalogKey n) buf)) \<and>
     (tableNameVsSchemaMap db \<noteq> Map.empty \<longrightarrow>
        (\<exists>names. set names = dom (tableNameVsSchemaMap db) \<and> holds (en_bt en) (sq_db db) CatalogKey (joined names)))"

text \<open>The names in the order in which the map is visited.\<close>

definition visited_names :: "'t env \<Rightarrow> (string \<rightharpoonup> CreateTable) \<Rightarrow> string list" where
  "visited_names en m = map (\<lambda>(_, t). ct_TableName t) (en_rngT en m)"

lemma catalog_keys_distinct:
  "SchemaKey n \<noteq> CatalogKey" "SecondaryIndexesCatalogKey n \<noteq> CatalogKey" "SchemaKey n \<noteq> SecondaryIndexesCatalogKey m"
  "SchemaKey n = SchemaKey m \<longleftrightarrow> n = m" "SecondaryIndexesCatalogKey n = SecondaryIndexesCatalogKey m \<longleftrightarrow> n = m"
  by (simp_all add: SchemaKey_def SecondaryIndexesCatalogKey_def CatalogKey_def)

lemma set_visited_names:
  assumes "env_ok en" "finite (dom m)" "\<forall>n t. m n = Some t \<longrightarrow> ct_TableName t = n"
  shows "set (visited_names en m) = dom m"
proof -
  have "set (en_rngT en m) = {(n, t). m n = Some t}"
    using env_okD(2) [OF assms(1)] assms(2) by (intro enumerates_set) (simp add: range_order_def)
  with assms(3) show ?thesis by (force simp: visited_names_def)
qed

text \<open>What creating a table writes.\<close>

definition catalog_names :: "'t env \<Rightarrow> 't sqldb \<Rightarrow> CreateTable \<Rightarrow> string" where
  "catalog_names en db ct = joined (visited_names en ((tableNameVsSchemaMap db)(ct_TableName ct \<mapsto> ct)))"

definition table_writes :: "'t env \<Rightarrow> 't sqldb \<Rightarrow> CreateTable \<Rightarrow> bytes \<Rightarrow> (string \<times> string) list" where
  "table_writes en db ct buf =
     [(CatalogKey, catalog_names en db ct), (SchemaKey (ct_TableName ct), serialiseCreateTableInput ct),
      (SecondaryIndexesCatalogKey (ct_TableName ct), buf)]"

definition table_bytes :: "'t env \<Rightarrow> 't sqldb \<Rightarrow> CreateTable \<Rightarrow> bytes \<Rightarrow> nat" where
  "table_bytes en db ct buf = write_bytes (table_writes en db ct buf)"

lemma sq_Put_schemas: "sq_Put en io db k v = (r, db') \<Longrightarrow> tableNameVsSchemaMap db' = tableNameVsSchemaMap db"
  by (auto simp: sq_Put_def split: prod.splits result.splits)

lemma createTable_eq:
  assumes "serialiseSecondaryIndexCatalog (ct_ColumnDetails ct) (ct_SecondaryIndexes ct) = Ok buf"
    and "sq_Puts en (db\<lparr>tableNameVsSchemaMap := (tableNameVsSchemaMap db)(ct_TableName ct \<mapsto> ct)\<rparr>) (table_writes en db ct buf) =
      (Ok (), db')"
  shows "createTable en (IoOk, IoOk, IoOk) db ct = (Ok (), db')"
proof -
  let ?n = "ct_TableName ct" and ?m = "(tableNameVsSchemaMap db)(ct_TableName ct \<mapsto> ct)"
  define db0 where "db0 = db\<lparr>tableNameVsSchemaMap := ?m\<rparr>"
  have names: "butlast (concat (map (\<lambda>(_, table). ct_TableName table @ '','') (en_rngT en ?m))) = catalog_names en db ct"
    by (simp add: catalog_names_def joined_def visited_names_def comp_def case_prod_unfold)
  from assms(2) obtain db1 db2 where p: "sq_Put en IoOk db0 CatalogKey (catalog_names en db ct) = (Ok (), db1)"
    "sq_Put en IoOk db1 (SchemaKey ?n) (serialiseCreateTableInput ct) = (Ok (), db2)"
    "sq_Put en IoOk db2 (SecondaryIndexesCatalogKey ?n) buf = (Ok (), db')"
    unfolding table_writes_def db0_def [symmetric] by (auto split: prod.splits result.splits)
  have "tableNameVsSchemaMap db2 = ?m" by (simp add: sq_Put_schemas [OF p(2)] sq_Put_schemas [OF p(1)] db0_def)
  then have "schema_of db2 ?n = ct" by (simp add: schema_of_def)
  moreover have "tableNameVsSchemaMap db0 = ?m" by (simp add: db0_def)
  ultimately show ?thesis
    unfolding createTable_def Let_def db0_def [symmetric] prod.case by (simp add: names p assms(1) ignoring_error_def)
qed

lemma catalog_ok_add:
  fixes db db' :: "'t sqldb"
  assumes env: "env_ok en" and cat: "catalog_ok en db" and wf: "wf_table ct buf"
    and m: "tableNameVsSchemaMap db' = (tableNameVsSchemaMap db)(ct_TableName ct \<mapsto> ct)"
    and new: "\<forall>(k, v) \<in> set (table_writes en db ct buf). holds (en_bt en) (sq_db db') k v"
    and kept: "\<forall>k v. k \<notin> fst ` set (table_writes en db ct buf) \<longrightarrow> holds (en_bt en) (sq_db db) k v \<longrightarrow> holds (en_bt en) (sq_db db') k v"
  shows "catalog_ok en db'"
  unfolding catalog_ok_def m
proof (intro conjI allI impI)
  let ?n = "ct_TableName ct" and ?m = "(tableNameVsSchemaMap db)(ct_TableName ct \<mapsto> ct)"
  show fin: "finite (dom ?m)" using cat by (simp add: catalog_ok_def)
  have named: "\<forall>n t. ?m n = Some t \<longrightarrow> ct_TableName t = n" using cat by (auto simp: catalog_ok_def)
  then show "?m n = Some t \<Longrightarrow> ct_TableName t = n" for n t by blast
  have "holds (en_bt en) (sq_db db') CatalogKey (joined (visited_names en ?m))"
    using new by (simp add: table_writes_def catalog_names_def)
  with set_visited_names [OF env fin named]
  show "\<exists>names. set names = dom ?m \<and> holds (en_bt en) (sq_db db') CatalogKey (joined names)" by blast
  fix n t assume t: "?m n = Some t"
  show "\<exists>b. wf_table t b \<and> holds (en_bt en) (sq_db db') (SchemaKey n) (serialiseCreateTableInput t) \<and>
      holds (en_bt en) (sq_db db') (SecondaryIndexesCatalogKey n) b"
  proof (cases "n = ?n")
    case True
    with t wf new show ?thesis by (intro exI [of _ buf]) (simp add: table_writes_def)
  next
    case False
    with t cat obtain b where "wf_table t b" "holds (en_bt en) (sq_db db) (SchemaKey n) (serialiseCreateTableInput t)"
      "holds (en_bt en) (sq_db db) (SecondaryIndexesCatalogKey n) b"
      by (auto simp: catalog_ok_def)
    moreover have "SchemaKey n \<notin> fst ` set (table_writes en db ct buf)" "SecondaryIndexesCatalogKey n \<notin> fst ` set (table_writes en db ct buf)"
      using False by (simp_all add: table_writes_def catalog_keys_distinct catalog_keys_distinct(3) [symmetric])
    ultimately show ?thesis using kept by blast
  qed
qed

lemma createTable_run:
  fixes db :: "'t sqldb"
  assumes env: "env_ok en" and reach: "store_reachable en s" and db: "sq_db db = sy_db s" and cat: "catalog_ok en db"
    and wf: "wf_table ct buf"
    and free: "\<forall>k \<in> {CatalogKey, SchemaKey (ct_TableName ct), SecondaryIndexesCatalogKey (ct_TableName ct)}.
      holder (db_tm (sy_db s)) k = 0"
    and ids: "unat (nextTransactionId (db_tm (sy_db s))) + 3 < 2 ^ 64"
    and room: "room (sy_db s) (table_bytes en db ct buf)"
  shows "\<exists>db' s'. createTable en (IoOk, IoOk, IoOk) db ct = (Ok (), db') \<and> (store_step en)\<^sup>*\<^sup>* s s' \<and>
    sq_db db' = sy_db s' \<and> tableNameVsSchemaMap db' = (tableNameVsSchemaMap db)(ct_TableName ct \<mapsto> ct) \<and> catalog_ok en db' \<and>
    db_disk (sq_db db') = db_disk (sq_db db)"
proof -
  let ?ws = "table_writes en db ct buf" and ?db0 = "db\<lparr>tableNameVsSchemaMap := (tableNameVsSchemaMap db)(ct_TableName ct \<mapsto> ct)\<rparr>"
  have "\<exists>s' db'. sq_Puts en ?db0 ?ws = (Ok (), db') \<and> (store_step en)\<^sup>*\<^sup>* s s' \<and> sq_db db' = sy_db s' \<and>
      tableNameVsSchemaMap db' = tableNameVsSchemaMap ?db0 \<and> (\<forall>(k, v) \<in> set ?ws. holds (en_bt en) (sy_db s') k v) \<and>
      (\<forall>k v. k \<notin> fst ` set ?ws \<longrightarrow> holds (en_bt en) (sy_db s) k v \<longrightarrow> holds (en_bt en) (sy_db s') k v) \<and>
      db_disk (sy_db s') = db_disk (sy_db s)"
  proof (rule Puts_run [OF env reach _ _ _ _ room [unfolded table_bytes_def]])
    show "distinct (map fst ?ws)"
      by (simp add: table_writes_def catalog_keys_distinct catalog_keys_distinct(1,2) [symmetric])
  qed (use db free ids in \<open>simp_all add: table_writes_def\<close>)
  then obtain s' :: "'t sys" and db' where r: "sq_Puts en ?db0 ?ws = (Ok (), db')" "(store_step en)\<^sup>*\<^sup>* s s'" "sq_db db' = sy_db s'"
    "tableNameVsSchemaMap db' = tableNameVsSchemaMap ?db0" "\<forall>(k, v) \<in> set ?ws. holds (en_bt en) (sy_db s') k v"
    "\<forall>k v. k \<notin> fst ` set ?ws \<longrightarrow> holds (en_bt en) (sy_db s) k v \<longrightarrow> holds (en_bt en) (sy_db s') k v"
    "db_disk (sy_db s') = db_disk (sy_db s)" by blast
  have "createTable en (IoOk, IoOk, IoOk) db ct = (Ok (), db')"
    using wf r(1) by (intro createTable_eq) (simp_all add: wf_table_def)
  moreover have "catalog_ok en db'"
    by (rule catalog_ok_add [OF env cat wf]) (use r(4-6) in \<open>simp_all add: r(3) db\<close>)
  ultimately show ?thesis using r(2-4,7) db by auto
qed


lemma sample_wf: "\<exists>buf. length buf = 17 \<and> wf_table indexed_table buf"
  by (simp add: wf_table_def indexed_table_def serialiseCreateTableInput_def serialiseColumn_def
      serialiseSecondaryIndexCatalog_def primaryKeyPosition_def)

definition empty_db :: "entry_tree sqldb" where
  "empty_db = \<lparr>sq_db = sy_db sample_sys0, tableNameVsSchemaMap = Map.empty, sq_started = []\<rparr>"

lemma sample_room:
  assumes "length buf = 17"
  shows "room (sy_db sample_sys0) (table_bytes sample_env empty_db indexed_table buf)"
proof -
  have "visited_names sample_env [''t'' \<mapsto> indexed_table] = [''t'']"
    by (simp add: visited_names_def sample_env_def range_single [OF sorted_range_order] indexed_table_def)
  with assms show ?thesis
    by (simp add: room_def table_bytes_def table_writes_def catalog_names_def empty_db_def indexed_table_def joined_simps CatalogKey_def SchemaKey_def
        SecondaryIndexesCatalogKey_def serialiseCreateTableInput_def serialiseColumn_def memtableSizeLimit_def
        sample_sys0_def sys_init_def NewMemtable_def)
qed

lemma sample_created:
  "\<exists>buf. wf_table indexed_table buf \<and> room (sy_db sample_sys0) (table_bytes sample_env empty_db indexed_table buf)"
  "sq_db empty_db = sy_db sample_sys0" "catalog_ok sample_env empty_db"
  "\<forall>k \<in> A. holder (db_tm (sy_db sample_sys0)) k = 0" "unat (nextTransactionId (db_tm (sy_db sample_sys0))) + 3 < 2 ^ 64"
  using sample_wf sample_room by (auto simp: empty_db_def catalog_ok_def sample_sys0_tm)


section \<open>Reload\<close>

lemma length_serialiseColumns: "length cs \<le> length (concat (map serialiseColumn cs))"
  by (induction cs) (auto simp: serialiseColumn_def)

lemma load_table:
  assumes "wf_table t buf"
  shows "deserialiseCreateTableInput (serialiseCreateTableInput t) = Ok (t\<lparr>ct_TableName := '''', ct_SecondaryIndexes := []\<rparr>)"
    "deserialiseSecondaryIndexCatalog buf (ct_ColumnDetails t) = Ok (ct_SecondaryIndexes t)"
proof -
  have len: "length (ct_ColumnDetails t) < 2 ^ 32"
    using assms length_serialiseColumns [of "ct_ColumnDetails t"] by (simp add: wf_table_def serialiseCreateTableInput_def)
  show "deserialiseCreateTableInput (serialiseCreateTableInput t) = Ok (t\<lparr>ct_TableName := '''', ct_SecondaryIndexes := []\<rparr>)"
    using assms by (subst deserialiseCreateTableInput_iff) (simp_all add: wf_table_def serialiseCreateTableInput_def)
  show "deserialiseSecondaryIndexCatalog buf (ct_ColumnDetails t) = Ok (ct_SecondaryIndexes t)"
    by (rule SecondaryIndexCatalog_roundtrip) (use assms len in \<open>simp_all add: wf_table_def\<close>)
qed

lemma loadTables_stored:
  assumes "\<forall>n \<in> set names. \<exists>t buf. m n = Some t \<and> ct_TableName t = n \<and> wf_table t buf \<and>
    get (SchemaKey n) = Ok (serialiseCreateTableInput t) \<and> get (SecondaryIndexesCatalogKey n) = Ok buf"
  shows "loadTables get names m0 = Ok (\<lambda>n. if n \<in> set names then m n else m0 n)"
  using assms
proof (induction names arbitrary: m0)
  case (Cons n names)
  then obtain t buf where t: "m n = Some t" "ct_TableName t = n" "wf_table t buf"
    "get (SchemaKey n) = Ok (serialiseCreateTableInput t)" "get (SecondaryIndexesCatalogKey n) = Ok buf" by auto
  note l = load_table [OF t(3)]
  have "t\<lparr>ct_TableName := n, ct_SecondaryIndexes := ct_SecondaryIndexes t\<rparr> = t" using t(2) by (cases t) simp
  with l t(4,5) have "loadTables get (n # names) m0 = loadTables get names (m0(n \<mapsto> t))" by simp
  with Cons t(1) show ?case by (auto simp: fun_eq_iff)
qed simp

lemma readCatalog_stored:
  assumes env: "env_ok en" and cat: "catalog_ok en db" "tableNameVsSchemaMap db \<noteq> Map.empty"
    and get: "\<And>k v. holds (en_bt en) (sq_db db) k v \<Longrightarrow> get k = Ok v"
  shows "readCatalog get = Ok (tableNameVsSchemaMap db)"
proof -
  let ?m = "tableNameVsSchemaMap db"
  from cat obtain names where names: "set names = dom ?m" "holds (en_bt en) (sq_db db) CatalogKey (joined names)"
    unfolding catalog_ok_def by blast
  have tables: "\<forall>n \<in> set names. \<exists>t buf. ?m n = Some t \<and> ct_TableName t = n \<and> wf_table t buf \<and>
    get (SchemaKey n) = Ok (serialiseCreateTableInput t) \<and> get (SecondaryIndexesCatalogKey n) = Ok buf"
  proof
    fix n assume "n \<in> set names"
    then obtain t where "?m n = Some t" unfolding names(1) by blast
    with cat(1) get show "\<exists>t buf. ?m n = Some t \<and> ct_TableName t = n \<and> wf_table t buf \<and>
      get (SchemaKey n) = Ok (serialiseCreateTableInput t) \<and> get (SecondaryIndexesCatalogKey n) = Ok buf"
      unfolding catalog_ok_def by metis
  qed
  have ne: "names \<noteq> []" using cat(2) names(1) by (metis dom_eq_empty_conv list.set(1))
  have "\<forall>n \<in> set names. n \<noteq> '''' \<and> CHR '','' \<notin> set n" using tables unfolding wf_table_def by metis
  then have "joined names \<noteq> ''''" "split_on CHR '','' (joined names) = names"
    using joined_empty [OF ne] split_joined [OF ne] by blast+
  moreover have "(\<lambda>n. if n \<in> set names then ?m n else None) = ?m"
    unfolding names(1) by (auto simp: fun_eq_iff) (metis not_None_eq)
  ultimately show ?thesis
    using get [OF names(2)] loadTables_stored [OF tables, of Map.empty] by (simp add: readCatalog_def)
qed

text \<open>The transaction of the reload has nothing to commit; whatever that reports is ignored.\<close>

lemma fresh_commit:
  assumes "nextTransactionId (db_tm (sq_db db)) \<noteq> 0" "db_Begin (sq_db db) = (txn, d)"
  shows "\<exists>r txn' d' b. sq_Commit en io txn (db\<lparr>sq_db := d\<rparr>) = (r, txn', db\<lparr>sq_db := d', sq_started := b\<rparr>) \<and> r \<noteq> Panic"
proof -
  have own: "owns_locks txn (db_tm d)"
    using assms by (auto simp: db_Begin_eq owns_locks_def new_txn_def)
  show ?thesis
  proof (cases io)
    case IoOk
    with txn_Commit_eq [OF own, of "en_bt en" "en_rngA en" "en_rngW en" "en_rngM en"] show ?thesis
      by (force simp: sq_Commit_def)
  next
    case (IoFail n)
    have e: "db\<lparr>sq_db := x\<rparr> = db\<lparr>sq_db := x, sq_started := sq_started db\<rparr>" for x by simp
    show ?thesis
      unfolding IoFail sq_Commit_def by (simp add: txn_Commit_fail) (use e in blast)
  qed
qed

lemma reload_schemas:
  assumes env: "env_ok en" and cat: "catalog_ok en db0" "tableNameVsSchemaMap db0 \<noteq> Map.empty"
    and mem: "\<And>k v. holds (en_bt en) (sq_db db0) k v \<Longrightarrow> holds (en_bt en) (sq_db db) k v"
    and next_id: "nextTransactionId (db_tm (sq_db db)) \<noteq> 0"
  shows "\<exists>d b. getTableNameVsSchemaMap en io db = (Ok (tableNameVsSchemaMap db0), db\<lparr>sq_db := d, sq_started := b\<rparr>)"
proof -
  obtain txn d where b: "db_Begin (sq_db db) = (txn, d)" by fastforce
  then have t: "txn = new_txn (db_tm (sq_db db))" "db_memTable d = db_memTable (sq_db db)" by (auto simp: db_Begin_eq)
  have "readCatalog (txn_Get (en_bt en) txn d) = Ok (tableNameVsSchemaMap db0)"
    using holds_get [OF runtime_okD(1) [OF env_okD(1) [OF env]] mem t(2)]
    unfolding t(1) by (rule readCatalog_stored [OF env cat])
  moreover from fresh_commit [OF next_id b]
  obtain r txn' d' b' where "sq_Commit en io txn (db\<lparr>sq_db := d\<rparr>) = (r, txn', db\<lparr>sq_db := d', sq_started := b'\<rparr>)" "r \<noteq> Panic"
    by blast
  ultimately show ?thesis
    by (cases r) (simp_all add: getTableNameVsSchemaMap_def b, blast+)
qed

text \<open>
  C10. The schemas survive a crash: opening the database from the log file and the table directory as the crash
  left them, while the catalog is still in the log, gives back exactly the schemas that were in memory,
  with all columns, types, primary key positions and secondary indexes.
\<close>

theorem catalog_survives_crash:
  assumes "env_ok en" "store_reachable en s" "sq_db db = sy_db s"
    and "catalog_ok en db" "tableNameVsSchemaMap db \<noteq> Map.empty"
    and "NewSsTable config (db_disk (sy_db s)) = Ok st"
  shows "\<exists>db'. NewDB en io [defaultWalPath \<mapsto> f_content (wal_file (db_wal (sy_db s)))] (db_disk (sy_db s)) defaultWalPath config =
      Ok db' \<and> tableNameVsSchemaMap db' = tableNameVsSchemaMap db"
proof -
  let ?bt = "en_bt en" and ?w = "[defaultWalPath \<mapsto> f_content (wal_file (db_wal (sy_db s)))]"
  obtain m x where m: "fst (buildMemtableFromWal ?bt (openWal (f_content (wal_file (db_wal (sy_db s)))))) = Ok (m, x)"
    "mt_entries ?bt m = mt_entries ?bt (db_memTable (sy_db s))" "\<forall>e \<in> set (mt_entries ?bt m). TxnId e \<le> x"
    "x < nextTransactionId (db_tm (sy_db s))"
    using recover_memtable [OF env_okD(1) [OF assms(1)] assms(2)] by blast
  have ne: "x + 1 \<noteq> 0"
  proof
    assume "x + 1 = 0"
    then have "x = - 1" by (simp add: eq_neg_iff_add_eq_0)
    with m(4) show False by simp
  qed
  then have x: "x + 1 \<noteq> 0" "y \<le> x \<Longrightarrow> y < x + 1" for y
    using word_next [OF ne, of y] by auto
  obtain d where d: "openDB ?bt ?w (db_disk (sy_db s)) defaultWalPath config = Ok d" "db_memTable d = m"
    "nextTransactionId (db_tm d) = x + 1" "activeTransactionsMap (db_tm d) = {}"
    using m(1) assms(6) by (cases "buildMemtableFromWal ?bt (openWal (f_content (wal_file (db_wal (sy_db s)))))")
      (auto simp: openDB_def NewWal_def openWal_def defaultWalPath_def)
  have "holds ?bt d k v" if "holds ?bt (sq_db db) k v" for k v
    using that m(3) x(2) unfolding holds_def assms(3) d(2-4) m(2) by blast
  then have mem: "holds ?bt (sq_db db) k v \<Longrightarrow>
      holds ?bt (sq_db \<lparr>sq_db = d, tableNameVsSchemaMap = Map.empty, sq_started = []\<rparr>) k v" for k v by simp
  from reload_schemas [OF assms(1,4,5) mem, of io] x(1) d(1,3) show ?thesis
    by (auto simp: NewDB_def)
qed

theorem catalog_survives_crash_witness:
  "\<exists>db (s :: entry_tree sys) db'. createTable sample_env (IoOk, IoOk, IoOk) empty_db indexed_table = (Ok (), db) \<and> sq_db db = sy_db s \<and>
    NewDB sample_env IoOk [defaultWalPath \<mapsto> f_content (wal_file (db_wal (sy_db s)))] (db_disk (sy_db s)) defaultWalPath
      \<lparr>cfg_DataFilesDirectory = ''d'', cfg_BlockLength = 100, cfg_SkipIndex = False\<rparr> = Ok db' \<and>
    tableNameVsSchemaMap db' = [''t'' \<mapsto> indexed_table]"
proof -
  let ?cfg = "\<lparr>cfg_DataFilesDirectory = ''d'', cfg_BlockLength = 100, cfg_SkipIndex = False\<rparr>"
  obtain buf where buf: "wf_table indexed_table buf" "room (sy_db sample_sys0) (table_bytes sample_env empty_db indexed_table buf)"
    using sample_created(1) by blast
  from createTable_run [OF sample_env_ok sample_sys0_reachable sample_created(2,3) buf(1) sample_created(4,5) buf(2)]
  obtain db s where c: "createTable sample_env (IoOk, IoOk, IoOk) empty_db indexed_table = (Ok (), db)"
    "(store_step sample_env)\<^sup>*\<^sup>* sample_sys0 s" "sq_db db = sy_db s"
    "tableNameVsSchemaMap db = [''t'' \<mapsto> indexed_table]" "catalog_ok sample_env db" "db_disk (sq_db db) = db_disk (sq_db empty_db)"
    by (auto simp: empty_db_def indexed_table_def)
  have "db_disk (sy_db s) = disk_of ''d'' []"
    using c(3,6) by (simp add: sample_created(2)) (simp add: sample_sys0_def sys_init_def)
  then obtain st where st: "NewSsTable ?cfg (db_disk (sy_db s)) = Ok st"
    by (simp add: NewSsTable_def getDirectoryMetadata_def getManifest_def disk_of_def table_of_def Let_def)
  have "tableNameVsSchemaMap db \<noteq> Map.empty" by (simp add: c(4))
  from catalog_survives_crash [OF sample_env_ok reachable_steps [OF sample_sys0_reachable c(2)] c(3,5) this st, of IoOk]
  obtain db' where n: "NewDB sample_env IoOk [defaultWalPath \<mapsto> f_content (wal_file (db_wal (sy_db s)))] (db_disk (sy_db s))
      defaultWalPath ?cfg = Ok db'" "tableNameVsSchemaMap db' = tableNameVsSchemaMap db" by blast
  show ?thesis
    by (rule exI [of _ db], rule exI [of _ s], rule exI [of _ db'])
      (simp only: c(1,3,4) n(1,2) simp_thms)
qed

end
