(* ===== verification/SqlSelect.thy ===== *)
theory SqlSelect
  imports SqlDb
begin

text \<open>
  \<open>SELECT\<close> (\<open>db/select.go\<close>): a lookup by primary key, a scan of the whole table, or a scan of a secondary
  index followed by a lookup of every row, with the remaining conditions as filters. Reading does not
  change the store, so only the operation that begins and ends the transaction returns one.
\<close>

section \<open>The kind of a query\<close>

definition isPointedPrimaryKeyQuery :: "SelectFromTable \<Rightarrow> string \<Rightarrow> bool" where
  "isPointedPrimaryKeyQuery sf pkColumnName \<longleftrightarrow>
     length (sf_QueryConditions sf) = 1 \<and> qc_ColumnName (sf_QueryConditions sf ! 0) = pkColumnName \<and>
     qc_QueryType (sf_QueryConditions sf ! 0) = ''=''"

definition isFullTableScanQuery :: "SelectFromTable \<Rightarrow> bool" where
  "isFullTableScanQuery sf \<longleftrightarrow> length (sf_QueryConditions sf) = 0"

section \<open>Choosing an index\<close>

text \<open>
  The loop over the columns of one index: it returns from the function (\<open>Inl\<close>) when the query has a
  condition on every column of the index, and otherwise leaves a candidate.
\<close>

fun secIdx_cols ::
  "string set \<Rightarrow> SecondaryIndex \<Rightarrow> string list \<Rightarrow> string list \<Rightarrow> (SecondaryIndex \<times> string list) option \<Rightarrow>
   SecondaryIndex \<times> string list + (SecondaryIndex \<times> string list) option" where
  "secIdx_cols inputQueryColumn si [] covered candidate = Inr candidate"
| "secIdx_cols inputQueryColumn si (secIdxCol # cols) covered candidate =
     (if secIdxCol \<notin> inputQueryColumn then Inr candidate
      else
        let covered = covered @ [secIdxCol] in
        if length covered = length (si_Columns si) then Inl (si, covered)
        else secIdx_cols inputQueryColumn si cols covered
          (if length covered > 0 then Some (si, covered) else candidate))"

fun secIdx_loop ::
  "string set \<Rightarrow> SecondaryIndex list \<Rightarrow> (SecondaryIndex \<times> string list) option \<Rightarrow> (SecondaryIndex \<times> string list) option" where
  "secIdx_loop inputQueryColumn [] candidate = candidate"
| "secIdx_loop inputQueryColumn (si # sis) candidate =
     (case secIdx_cols inputQueryColumn si (si_Columns si) [] candidate of
        Inl chosen \<Rightarrow> Some chosen
      | Inr candidate \<Rightarrow> secIdx_loop inputQueryColumn sis candidate)"

text \<open>\<open>None\<close> is the nil pointer, which comes with an empty list of columns.\<close>

definition getSecondaryIndexForQueryIfApplicable ::
  "SelectFromTable \<Rightarrow> SecondaryIndex list \<Rightarrow> (SecondaryIndex \<times> string list) option" where
  "getSecondaryIndexForQueryIfApplicable sf secondaryIndexes =
     secIdx_loop (qc_ColumnName ` set (sf_QueryConditions sf)) secondaryIndexes None"

definition allColumnsCoveredBySecondaryIndex :: "SecondaryIndex \<Rightarrow> string list \<Rightarrow> bool" where
  "allColumnsCoveredBySecondaryIndex si covered \<longleftrightarrow> length (si_Columns si) = length covered"

section \<open>Filtering\<close>

text \<open>Values are compared as strings, whatever the type of the column.\<close>

definition isQueryConditionApplicable :: "string list \<Rightarrow> nat \<Rightarrow> QueryCondition \<Rightarrow> bool result" where
  "isQueryConditionApplicable row colPos qc =
     (if qc_QueryType qc \<notin> {''='', ''<'', ''<='', ''>'', ''>=''} then Err (SqlError QueryTypeNotSupported)
      else if length row \<le> colPos then Panic
      else if qc_QueryType qc = ''='' then Ok (row ! colPos = qc_Value qc)
      else if qc_QueryType qc = ''<'' then Ok (row ! colPos < qc_Value qc)
      else if qc_QueryType qc = ''<='' then Ok (row ! colPos \<le> qc_Value qc)
      else if qc_QueryType qc = ''>'' then Ok (row ! colPos > qc_Value qc)
      else Ok (row ! colPos \<ge> qc_Value qc))"

fun filterRows :: "nat \<Rightarrow> QueryCondition \<Rightarrow> string list list \<Rightarrow> string list list result" where
  "filterRows colPos qc [] = Ok []"
| "filterRows colPos qc (row # rows) =
     rbind (isQueryConditionApplicable row colPos qc) (\<lambda>applicable.
     rbind (filterRows colPos qc rows) (\<lambda>rows. Ok (if applicable then row # rows else rows)))"

fun filterQueryConditions ::
  "'t sqldb \<Rightarrow> string \<Rightarrow> QueryCondition list \<Rightarrow> string list \<Rightarrow> string list list \<Rightarrow> string list list result" where
  "filterQueryConditions db tableName [] covered queryResult = Ok queryResult"
| "filterQueryConditions db tableName (qc # qcs) covered queryResult =
     (if qc_ColumnName qc \<in> set covered then filterQueryConditions db tableName qcs covered queryResult
      else
        let colPos = getColPositionFromColName db tableName (qc_ColumnName qc) in
        if colPos = - 1 then Err (SqlError UnableToApplyConditions)
        else rbind (filterRows (nat colPos) qc queryResult) (\<lambda>queryResult.
          filterQueryConditions db tableName qcs covered queryResult))"

section \<open>Reading rows\<close>

definition decodeRow :: "'t env \<Rightarrow> 't sqldb \<Rightarrow> string \<Rightarrow> string \<Rightarrow> string list result" where
  "decodeRow en db tableName value = deserializeRowValues (en_pad en value) (schema_of db tableName) value"

definition getRowForPrimaryKey :: "'t env \<Rightarrow> Transaction \<Rightarrow> 't sqldb \<Rightarrow> string \<Rightarrow> string \<Rightarrow> string list result" where
  "getRowForPrimaryKey en txn db tableName primaryKeyId =
     rbind (txn_Get (en_bt en) txn (sq_db db) (rowKey tableName primaryKeyId)) (\<lambda>value.
       decodeRow en db tableName value)"

fun collect :: "('a \<Rightarrow> string list result) \<Rightarrow> 'a list \<Rightarrow> string list list result" where
  "collect f [] = Ok []"
| "collect f (x # xs) = rbind (f x) (\<lambda>row. rbind (collect f xs) (\<lambda>rows. Ok (row # rows)))"

text \<open>The rows found in the memtable, then those of the tables whose key the memtable does not have.\<close>

definition fullTableScan :: "'t env \<Rightarrow> 't sqldb \<Rightarrow> string \<Rightarrow> u64 \<Rightarrow> u64 set \<Rightarrow> string list list result" where
  "fullTableScan en db tableName readTxnId activeTxnMap =
     (let key = tableName @ '':'';
          memTableMap = Memtable_PrefixScan (en_bt en) (db_memTable (sq_db db)) key readTxnId activeTxnMap
      in rbind (SsTable_PrefixScan (db_ssTable (sq_db db)) (db_disk (sq_db db)) key readTxnId activeTxnMap) (\<lambda>ssTableMap.
         rbind (collect (\<lambda>(_, value). decodeRow en db tableName value) (en_rngM en memTableMap)) (\<lambda>rows1.
         rbind (collect (\<lambda>(_, currValueTxnId). decodeRow en db tableName (vt_value currValueTxnId))
                  (filter (\<lambda>(key, _). memTableMap key = None) (en_rngV en ssTableMap))) (\<lambda>rows2.
           Ok (rows1 @ rows2)))))"

definition lastElement :: "string \<Rightarrow> string" where
  "lastElement key = last (split_on CHR '':'' key)"

definition secondaryIndexPrefixScan :: "'t env \<Rightarrow> 't sqldb \<Rightarrow> string \<Rightarrow> u64 \<Rightarrow> u64 set \<Rightarrow> string list result" where
  "secondaryIndexPrefixScan en db prefixKey readTxnId activeTxnMap =
     (let memTableMap = Memtable_PrefixScan (en_bt en) (db_memTable (sq_db db)) prefixKey readTxnId activeTxnMap
      in rbind (SsTable_PrefixScan (db_ssTable (sq_db db)) (db_disk (sq_db db)) prefixKey readTxnId activeTxnMap) (\<lambda>ssTableMap.
           Ok (en_rngS en (lastElement ` dom ssTableMap \<union> lastElement ` dom memTableMap))))"

definition runFullTableScanAndFilterConditions ::
  "'t env \<Rightarrow> Transaction \<Rightarrow> 't sqldb \<Rightarrow> string \<Rightarrow> SelectFromTable \<Rightarrow> string list list result" where
  "runFullTableScanAndFilterConditions en txn db tableName sf =
     rbind (fullTableScan en db tableName (txn_id txn) (activeTransactionsSnapshot txn)) (\<lambda>queryResult.
       filterQueryConditions db tableName (sf_QueryConditions sf) [] queryResult)"

definition indexCoveredColValues :: "QueryCondition list \<Rightarrow> string list \<Rightarrow> string list" where
  "indexCoveredColValues qcs covered =
     concat (map (\<lambda>colName. map qc_Value (filter (\<lambda>condition. qc_ColumnName condition = colName) qcs)) covered)"

definition getQueryResultFromSecondaryIndexIfApplicable ::
  "'t env \<Rightarrow> Transaction \<Rightarrow> 't sqldb \<Rightarrow> string \<Rightarrow> SelectFromTable \<Rightarrow> CreateTable \<Rightarrow> string list list result" where
  "getQueryResultFromSecondaryIndexIfApplicable en txn db tableName sf schema =
     (case getSecondaryIndexForQueryIfApplicable sf (ct_SecondaryIndexes schema) of
        None \<Rightarrow> runFullTableScanAndFilterConditions en txn db tableName sf
      | Some (secondaryIndex, covered) \<Rightarrow>
          let prefixKey = getSecondaryIndexKeyOrPrefix tableName (si_IndexName secondaryIndex)
                (indexCoveredColValues (sf_QueryConditions sf) covered) ''''
          in rbind (secondaryIndexPrefixScan en db prefixKey (txn_id txn) (activeTransactionsSnapshot txn)) (\<lambda>primaryKeyIds.
             rbind (collect (getRowForPrimaryKey en txn db tableName) primaryKeyIds) (\<lambda>queryResult.
               if allColumnsCoveredBySecondaryIndex secondaryIndex covered then Ok queryResult
               else filterQueryConditions db tableName (sf_QueryConditions sf) covered queryResult)))"

section \<open>SELECT\<close>

definition txn_SelectFromTable :: "'t env \<Rightarrow> Transaction \<Rightarrow> 't sqldb \<Rightarrow> SelectFromTable \<Rightarrow> string list list result" where
  "txn_SelectFromTable en txn db sf =
     (let tableName = sf_TableName sf in
      case tableNameVsSchemaMap db tableName of
        None \<Rightarrow> Err (SqlError (TableNotFound tableName))
      | Some schema \<Rightarrow>
          let pkPos = ct_PrimaryKeyColumnPosition schema; cols = ct_ColumnDetails schema;
              pkColumnName = (if pkPos < length cols then ColumnName (cols ! pkPos) else '''')
          in if pkColumnName = '''' then Err (SqlError PkPositionIncorrect)
             else if isPointedPrimaryKeyQuery sf pkColumnName then
               rbind (getRowForPrimaryKey en txn db tableName (qc_Value (sf_QueryConditions sf ! 0))) (\<lambda>rowValues.
                 Ok [rowValues])
             else if isFullTableScanQuery sf then
               fullTableScan en db tableName (txn_id txn) (activeTransactionsSnapshot txn)
             else getQueryResultFromSecondaryIndexIfApplicable en txn db tableName sf schema)"

text \<open>The result comes with the error of the commit, if there is one.\<close>

definition db_SelectFromTable ::
  "'t env \<Rightarrow> io_outcome \<Rightarrow> 't sqldb \<Rightarrow> SelectFromTable \<Rightarrow> string list list result \<times> 't sqldb" where
  "db_SelectFromTable en io db sf =
     (let (txn, d) = db_Begin (sq_db db); db = db\<lparr>sq_db := d\<rparr>
      in case txn_SelectFromTable en txn db sf of
           Panic \<Rightarrow> (Panic, db)
         | Err er \<Rightarrow> (case sq_Rollback txn db of (Panic, _, db) \<Rightarrow> (Panic, db) | (_, _, db) \<Rightarrow> (Err er, db))
         | Ok res \<Rightarrow>
             (case sq_Commit en io txn db of
                (Ok _, _, db) \<Rightarrow> (Ok res, db)
              | (Err er, _, db) \<Rightarrow> (Err er, db)
              | (Panic, _, db) \<Rightarrow> (Panic, db)))"

end
