(* ===== verification/SqlScan.thy ===== *)
theory SqlScan
  imports SqlCatalog SqlSelect
begin

text \<open>
  What \<open>SELECT\<close> returns: a scan of a table is exact for the reader's snapshot, the filters are conjunctions,
  the choice of an index is sound, and what a lookup through an index returns.
\<close>

section \<open>Full scans\<close>

lemma collect_append: "collect f (xs @ ys) = rbind (collect f xs) (\<lambda>as. rbind (collect f ys) (\<lambda>bs. Ok (as @ bs)))"
proof (induction xs)
  case Nil
  then show ?case by (cases "collect f ys") auto
next
  case (Cons x xs)
  then show ?case by (cases "f x"; cases "collect f xs"; cases "collect f ys") auto
qed

lemma distinct_set_singleton: "\<lbrakk>distinct xs; set xs = {x}\<rbrakk> \<Longrightarrow> xs = [x]"
  by (cases xs) (auto simp: subset_singleton_iff)

lemma collect_map: "collect f (map g xs) = collect (f \<circ> g) xs"
  by (induction xs) auto

lemma collect_cong [cong]: "\<lbrakk>xs = ys; \<And>x. x \<in> set ys \<Longrightarrow> f x = g x\<rbrakk> \<Longrightarrow> collect f xs = collect g ys"
  by (induction xs arbitrary: ys) auto

lemma latest_all_visible: "(\<And>x. visible t a x) \<Longrightarrow> latest_version k t a es \<noteq> None \<longleftrightarrow> k \<in> Key ` set es"
  unfolding latest_version_None by blast

lemma finite_latest: "finite {k. latest_version k t a es \<noteq> None}"
proof (rule finite_subset)
  show "{k. latest_version k t a es \<noteq> None} \<subseteq> Key ` set es"
    by (auto dest: latest_version_SomeD)
qed simp

lemma fullTableScan_eq:
  assumes env: "env_ok en" and reach: "store_reachable en s" and db: "sq_db db = sy_db s"
    and bound: "\<forall>x \<le> sy_bound s. visible t a x"
    and no_empty: "\<forall>e \<in> set (versions (en_bt en) s). Key e \<noteq> tableName @ '':''"
    and newer: "\<forall>f \<in> set (sy_hist s). \<forall>e \<in> set (mt_entries (en_bt en) (db_memTable (sy_db s))).
      Key e = Key f \<longrightarrow> TxnId f \<le> TxnId e"
  defines "latest \<equiv> \<lambda>k. latest_version k t a (versions (en_bt en) s)"
  shows "\<exists>ks. distinct ks \<and> set ks = {k. prefix (tableName @ '':'') k \<and> latest k \<noteq> None} \<and>
    fullTableScan en db tableName t a = collect (\<lambda>k. decodeRow en db tableName (Value (the (latest k)))) ks"
proof -
  let ?p = "tableName @ '':''" and ?bt = "en_bt en"
  let ?mem = "mt_entries ?bt (db_memTable (sy_db s))"
  note ok = runtime_okD [OF env_okD(1) [OF env]]
  obtain tfs where rel: "table_rel (ts_of s) tfs" using sys_invD(5) [OF store_inv [OF env reach]] by blast
  have "\<forall>e \<in> set (ts_hist (ts_of s)). Key e \<noteq> ?p" using no_empty by (simp add: versions_def ts_of_def)
  with table_rel_scan [OF rel, of t a ?p] bound obtain m2 where
    m2: "SsTable_PrefixScan (db_ssTable (sy_db s)) (db_disk (sy_db s)) ?p t a = Ok m2"
    "\<And>k. m2 k = (if prefix ?p k then map_option vt_of (latest_version k t a (sy_hist s)) else None)"
    by (auto simp: ts_of_def)
  define m1 where "m1 = Memtable_PrefixScan ?bt (db_memTable (sy_db s)) ?p t a"
  have m1: "m1 k = (if prefix ?p k then map_option Value (latest_version k t a ?mem) else None)" for k
    by (simp add: m1_def Memtable_PrefixScan_eq [OF ok(1)])
  have latest: "latest k = (case latest_version k t a ?mem of None \<Rightarrow> latest_version k t a (sy_hist s) | Some e \<Rightarrow> Some e)" for k
    unfolding latest_def versions_def by (rule latest_version_append) (use newer in auto)
  have "finite (dom m1)" "finite (dom m2)"
    by (rule finite_subset [OF _ finite_latest], auto simp: m1 m2(2) split: if_splits)+
  then have en: "enumerates (en_rngM en m1) m1" "enumerates (en_rngV en m2) m2"
    using ok(3,4) by (simp_all add: range_order_def)
  note xs = enumerates_set [OF en(1)] and ys = enumerates_set [OF en(2)]
  define ys' where "ys' = filter (\<lambda>(k, _). m1 k = None) (en_rngV en m2)"
  define ks where "ks = map fst (en_rngM en m1) @ map fst ys'"
  have "distinct (map fst ys')"
    using en(2) unfolding ys'_def enumerates_def by (simp add: distinct_map_filter)
  moreover have "set (map fst (en_rngM en m1)) = dom m1" "set (map fst ys') = dom m2 - dom m1"
    using xs ys by (auto simp: ys'_def image_iff)
  ultimately have "distinct ks" "set ks = dom m1 \<union> dom m2"
    using en(1) by (auto simp: ks_def enumerates_def)
  moreover have "dom m1 \<union> dom m2 = {k. prefix ?p k \<and> latest k \<noteq> None}"
    by (auto simp: m1 m2(2) latest split: option.splits if_splits)
  moreover have "fullTableScan en db tableName t a = collect (\<lambda>k. decodeRow en db tableName (Value (the (latest k)))) ks"
  proof -
    have 1: "collect (\<lambda>(_, value). decodeRow en db tableName value) (en_rngM en m1) =
        collect (\<lambda>k. decodeRow en db tableName (Value (the (latest k)))) (map fst (en_rngM en m1))"
      unfolding collect_map
      by (rule collect_cong [OF refl]) (auto simp: xs m1 latest split: if_splits)
    have 2: "collect (\<lambda>(_, v). decodeRow en db tableName (vt_value v)) ys' =
        collect (\<lambda>k. decodeRow en db tableName (Value (the (latest k)))) (map fst ys')"
      unfolding collect_map
      by (rule collect_cong [OF refl]) (auto simp: ys ys'_def m1 m2(2) latest vt_of_def split: if_splits)
    show ?thesis
      unfolding ks_def collect_append 1 [symmetric] 2 [symmetric]
      by (simp add: ys'_def fullTableScan_def db m1_def [symmetric] m2(1) Let_def)
  qed
  ultimately show ?thesis by metis
qed

text \<open>
  C13. The scan of a table, for any reader that sees all ids up to the largest bound of a compaction, returns
  one row for every key of the table of which the reader sees a version, decoded from the newest such
  version, provided that the versions in the memtable are newer than those of the same keys that
  were flushed and no row has an empty primary key; a value that does not decode makes it fail.
\<close>

theorem fullTableScan_exact:
  assumes env: "env_ok en" and reach: "store_reachable en s" and db: "sq_db db = sy_db s"
    and bound: "\<forall>x \<le> sy_bound s. visible t a x"
    and no_empty: "\<forall>e \<in> set (versions (en_bt en) s). Key e \<noteq> tableName @ '':''"
    and newer: "\<forall>f \<in> set (sy_hist s). \<forall>e \<in> set (mt_entries (en_bt en) (db_memTable (sy_db s))).
      Key e = Key f \<longrightarrow> TxnId f \<le> TxnId e"
  defines "latest \<equiv> \<lambda>k. latest_version k t a (versions (en_bt en) s)"
  shows "\<exists>ks. distinct ks \<and> set ks = {k. prefix (tableName @ '':'') k \<and> latest k \<noteq> None} \<and>
    fullTableScan en db tableName t a = collect (\<lambda>k. decodeRow en db tableName (Value (the (latest k)))) ks"
  unfolding latest_def by (rule fullTableScan_eq [OF assms(1-6)])

section \<open>Inserting and reading back\<close>

lemma buffer_insert_key:
  "key \<notin> set ks \<Longrightarrow> buffer_all (insert_writes key buf ks) Map.empty key = Some buf"
  by (simp add: insert_writes_def buffer_all_entries)

lemma fresh_commit_ok:
  assumes "nextTransactionId (db_tm (sq_db db)) \<noteq> 0" "db_Begin (sq_db db) = (txn, d)"
  shows "\<exists>txn' db'. sq_Commit en IoOk txn (db\<lparr>sq_db := d\<rparr>) = (Ok (), txn', db')"
proof -
  have "owns_locks txn (db_tm d)"
    using assms by (auto simp: db_Begin_eq owns_locks_def new_txn_def)
  from txn_Commit_eq [OF this, of "en_bt en" "en_rngA en" "en_rngW en" "en_rngM en"] show ?thesis
    by (force simp: sq_Commit_def)
qed

text \<open>The query for one row by its primary key.\<close>

definition by_primary_key :: "CreateTable \<Rightarrow> string \<Rightarrow> string list \<Rightarrow> string \<Rightarrow> SelectFromTable" where
  "by_primary_key table tableName columns v = \<lparr>sf_TableName = tableName, sf_ColumnsRequired = columns,
     sf_QueryConditions = [\<lparr>qc_ColumnName = ColumnName (ct_ColumnDetails table ! ct_PrimaryKeyColumnPosition table),
       qc_QueryType = ''='', qc_Value = v\<rparr>]\<rparr>"

lemma select_by_primary_key:
  assumes env: "env_ok en" and table: "tableNameVsSchemaMap db tableName = Some table"
    and pk: "ct_PrimaryKeyColumnPosition table < length (ct_ColumnDetails table)"
      "ColumnName (ct_ColumnDetails table ! ct_PrimaryKeyColumnPosition table) \<noteq> ''''"
    and row: "holds (en_bt en) (sq_db db) (rowKey tableName v) value" "decodeRow en db tableName value = Ok row"
    and next_id: "nextTransactionId (db_tm (sq_db db)) \<noteq> 0"
  shows "fst (db_SelectFromTable en IoOk db (by_primary_key table tableName columns v)) = Ok [row]"
proof -
  obtain txn d where b: "db_Begin (sq_db db) = (txn, d)" by fastforce
  then have t: "txn = new_txn (db_tm (sq_db db))" "db_memTable d = db_memTable (sq_db db)" by (auto simp: db_Begin_eq)
  have "txn_Get (en_bt en) txn d (rowKey tableName v) = Ok value"
    unfolding t(1) by (rule holds_get [OF runtime_okD(1) [OF env_okD(1) [OF env]] row(1) t(2)])
  moreover have "decodeRow en (db\<lparr>sq_db := d\<rparr>) tableName value = Ok row"
    using row(2) by (simp add: decodeRow_def)
  ultimately have "txn_SelectFromTable en txn (db\<lparr>sq_db := d\<rparr>) (by_primary_key table tableName columns v) = Ok [row]"
    using table pk by (simp add: txn_SelectFromTable_def by_primary_key_def isPointedPrimaryKeyQuery_def
        getRowForPrimaryKey_def Let_def)
  moreover obtain txn' db' where "sq_Commit en IoOk txn (db\<lparr>sq_db := d\<rparr>) = (Ok (), txn', db')"
    using fresh_commit_ok [OF next_id b] by blast
  ultimately show ?thesis
    by (simp add: db_SelectFromTable_def b)
qed

text \<open>
  C12. A row that is inserted is found: after an accepted \<open>INSERT\<close> that does not flush the memtable, selecting by
  its primary key returns one row, with every value in the normal form of its column's type.
\<close>

theorem insert_then_select:
  fixes db :: "'t sqldb"
  assumes env: "env_ok en" and reach: "store_reachable en s" and db: "sq_db db = sy_db s"
    and table: "tableNameVsSchemaMap db (it_TableName ins) = Some table"
    and acc: "accepted table ins key buf ks" "key \<notin> set ks" "typed (ct_ColumnDetails table)" "length buf < 2 ^ 32"
    and pk: "ct_PrimaryKeyColumnPosition table < length (ct_ColumnDetails table)"
      "ColumnName (ct_ColumnDetails table ! ct_PrimaryKeyColumnPosition table) \<noteq> ''''"
    and free: "\<forall>k \<in> insert key (set ks). holder (db_tm (sy_db s)) k = 0"
    and next_id: "nextTransactionId (db_tm (sy_db s)) + 1 \<noteq> 0"
    and fits: "commit_fits (en_bt en) (en_rngW en) (en_rngM en) s (write_txn (sy_db s) (insert_writes key buf ks))"
    and no_flush: "\<not> ShouldFlush (committed_memtable (en_bt en) (en_rngM en) (write_txn (sy_db s) (insert_writes key buf ks)) (sy_db s))"
  shows "\<exists>db'. insertIntoTable en IoOk db ins = (Ok (), db') \<and>
    fst (db_SelectFromTable en IoOk db' (by_primary_key table (it_TableName ins) columns
      (it_ColumnValues ins ! ct_PrimaryKeyColumnPosition table))) =
    Ok [map2 (\<lambda>col v. normal_form (col_DataType col) v) (ct_ColumnDetails table) (it_ColumnValues ins)]"
proof -
  let ?ws = "insert_writes key buf ks"
  have schema: "schema_of db (it_TableName ins) = table" using table by (simp add: schema_of_def)
  from insert_run [OF env reach db acc(1) [folded schema] free next_id fits] no_flush
  obtain s' :: "'t sys" and db' where r: "insertIntoTable en IoOk db ins = (Ok (), db')" "sq_db db' = sy_db s'"
    "tableNameVsSchemaMap db' = tableNameVsSchemaMap db"
    "nextTransactionId (db_tm (sy_db s')) = nextTransactionId (db_tm (sy_db s)) + 1"
    "activeTransactionsMap (db_tm (sy_db s')) = activeTransactionsMap (db_tm (sy_db s))"
    "db_memTable (sy_db s') = committed_memtable (en_bt en) (en_rngM en) (write_txn (sy_db s) ?ws) (sy_db s)"
    by blast
  have fresh: "nextTransactionId (db_tm (sy_db s)) \<notin> activeTransactionsMap (db_tm (sy_db s))"
    using sys_invD(1) [OF store_inv [OF env reach]] by (auto simp: ids_ok_def)
  have "set (mt_entries (en_bt en) (db_memTable (sy_db s'))) =
      set (mt_entries (en_bt en) (db_memTable (sy_db s))) \<union> writes_of (write_txn (sy_db s) ?ws)"
    unfolding r(6) by (rule committed_write [OF env reach])
  from holds_after(1) [OF this r(4) next_id r(5) fresh _ buffer_insert_key [OF acc(2)]] old_versions [OF env reach]
  have holds: "holds (en_bt en) (sq_db db') key buf" unfolding r(2) by blast
  have len: "length (it_ColumnValues ins) = length (ct_ColumnDetails table)"
    and ser: "serialiseInsertIntoTableInput table ins = Ok (key, buf)"
    using acc(1) by (auto simp: accepted_def)
  have key: "key = rowKey (it_TableName ins) (it_ColumnValues ins ! ct_PrimaryKeyColumnPosition table)"
    using ser pk(1) len by (auto simp: serialiseInsertIntoTableInput_def rbind_Ok_iff Let_def)
  have "decodeRow en db' (it_TableName ins) buf =
      Ok (map2 (\<lambda>col v. normal_form (col_DataType col) v) (ct_ColumnDetails table) (it_ColumnValues ins))"
    using deserializeRowValues_serialised [OF ser acc(4) len acc(3)] table r(3)
    by (simp add: decodeRow_def schema_of_def)
  from select_by_primary_key [OF env _ pk holds [unfolded key] this] table next_id r(1-4) show ?thesis
    by (simp add: key)
qed

lemma sample_insert:
  obtains buf where "length buf = 10" "accepted indexed_table sample_ins ''t:1'' buf [''index:t:i:a:1'']"
    "commit_fits (en_bt sample_env) (en_rngW sample_env) (en_rngM sample_env) sample_sys0
      (write_txn (sy_db sample_sys0) (insert_writes ''t:1'' buf [''index:t:i:a:1'']))"
    "\<not> ShouldFlush (committed_memtable (en_bt sample_env) (en_rngM sample_env)
      (write_txn (sy_db sample_sys0) (insert_writes ''t:1'' buf [''index:t:i:a:1''])) (sy_db sample_sys0))"
proof -
  obtain buf where buf: "length buf = 10" "accepted (schema_of sample_db ''t'') sample_ins ''t:1'' buf [''index:t:i:a:1'']"
    using sample_accepted by blast
  then have "accepted indexed_table sample_ins ''t:1'' buf [''index:t:i:a:1'']"
    by (simp add: schema_of_def sample_db_def)
  with buf(1) sample_insert_fits [OF buf(1)] that show thesis
    by (simp add: sample_env_def)
qed

lemma sample_simps: "it_TableName sample_ins = ''t''" "it_ColumnValues sample_ins = [''1'', ''a'']"
  "sq_db sample_db = sy_db sample_sys0" "tableNameVsSchemaMap sample_db ''t'' = Some indexed_table"
  by (simp_all add: sample_ins_def sample_db_def)

text \<open>The sample row inserted, and what every reader sees of it.\<close>

lemma visible_max: "visible (- 1) {} (x :: u64)"
  using le_neq_trans [OF word_order.extremum [of x]] by (auto simp: visible_def)

lemma sample_inserted:
  obtains s' :: "entry_tree sys" and db' and buf where
    "insertIntoTable sample_env IoOk sample_db sample_ins = (Ok (), db')"
    "store_reachable sample_env s'" "sq_db db' = sy_db s'"
    "tableNameVsSchemaMap db' ''t'' = Some indexed_table"
    "set (versions list_btree s') = {mk_entry ''t:1'' buf 1, mk_entry ''index:t:i:a:1'' '''' 1}"
    "sy_hist s' = []" "decodeRow sample_env db' ''t'' buf = Ok [''1'', ''a'']"
proof -
  obtain buf where b: "length buf = 10" "accepted indexed_table sample_ins ''t:1'' buf [''index:t:i:a:1'']"
    "commit_fits (en_bt sample_env) (en_rngW sample_env) (en_rngM sample_env) sample_sys0
      (write_txn (sy_db sample_sys0) (insert_writes ''t:1'' buf [''index:t:i:a:1'']))"
    "\<not> ShouldFlush (committed_memtable (en_bt sample_env) (en_rngM sample_env)
      (write_txn (sy_db sample_sys0) (insert_writes ''t:1'' buf [''index:t:i:a:1''])) (sy_db sample_sys0))"
    by (rule sample_insert)
  have acc: "accepted (schema_of sample_db (it_TableName sample_ins)) sample_ins ''t:1'' buf [''index:t:i:a:1'']"
    using b(2) by (simp add: schema_of_def sample_simps)
  have "\<forall>k \<in> insert ''t:1'' (set [''index:t:i:a:1'']). holder (db_tm (sy_db sample_sys0)) k = 0"
    "nextTransactionId (db_tm (sy_db sample_sys0)) + 1 \<noteq> 0" by (simp_all add: sample_sys0_tm)
  from insert_run [OF sample_env_ok sample_sys0_reachable sample_simps(3) acc this b(3)] b(4)
  obtain s' :: "entry_tree sys" and db' where r: "insertIntoTable sample_env IoOk sample_db sample_ins = (Ok (), db')"
    "(store_step sample_env)\<^sup>*\<^sup>* sample_sys0 s'" "sq_db db' = sy_db s'" "tableNameVsSchemaMap db' = tableNameVsSchemaMap sample_db"
    "set (versions (en_bt sample_env) s') = set (versions (en_bt sample_env) sample_sys0) \<union>
      writes_of (write_txn (sy_db sample_sys0) (insert_writes ''t:1'' buf [''index:t:i:a:1'']))"
    "sy_hist s' = sy_hist sample_sys0" by blast
  have "set (versions list_btree s') = {mk_entry ''t:1'' buf 1, mk_entry ''index:t:i:a:1'' '''' 1}"
    using r(5) by (simp add: writes_of_insert sample_sys0_tm sample_env_def versions_def insert_commute)
  moreover have "decodeRow sample_env db' ''t'' buf = Ok [''1'', ''a'']"
    using deserializeRowValues_serialised [of indexed_table sample_ins "''t:1''" buf 0] b(1,2)
    by (simp add: decodeRow_def schema_of_def r(4) sample_simps accepted_def sample_env_def indexed_table_def normal_form_def)
  moreover have "store_reachable sample_env s'" by (rule reachable_steps [OF sample_sys0_reachable r(2)])
  ultimately show thesis using that r(1,3,4,6) by (simp add: sample_simps sample_sys0_tm)
qed

lemma latest_of_pair:
  assumes "set es = {e, f}" "Key e \<noteq> Key f"
  shows "latest_version k (- 1) {} es = (if k = Key e then Some e else if k = Key f then Some f else None)"
proof (cases "latest_version k (- 1) {} es")
  case None
  with assms(1) have "k \<notin> {Key e, Key f}" by (auto simp: latest_version_None visible_max)
  with None show ?thesis by simp
next
  case (Some g)
  with assms latest_version_SomeD(1,2) [OF Some] show ?thesis by auto
qed

theorem insert_then_select_witness:
  "\<exists>db'. insertIntoTable sample_env IoOk sample_db sample_ins = (Ok (), db') \<and>
    fst (db_SelectFromTable sample_env IoOk db' (by_primary_key indexed_table ''t'' [''*''] ''1'')) = Ok [[''1'', ''a'']]"
proof -
  obtain buf where b: "length buf = 10" "accepted indexed_table sample_ins ''t:1'' buf [''index:t:i:a:1'']"
    "commit_fits (en_bt sample_env) (en_rngW sample_env) (en_rngM sample_env) sample_sys0
      (write_txn (sy_db sample_sys0) (insert_writes ''t:1'' buf [''index:t:i:a:1'']))"
    "\<not> ShouldFlush (committed_memtable (en_bt sample_env) (en_rngM sample_env)
      (write_txn (sy_db sample_sys0) (insert_writes ''t:1'' buf [''index:t:i:a:1''])) (sy_db sample_sys0))"
    by (rule sample_insert)
  from insert_then_select [OF sample_env_ok sample_sys0_reachable sample_simps(3) _ _ _ _ _ _ _ _ _ b(3,4), of sample_ins indexed_table "[''*'']"] b(1,2)
  show ?thesis
    by (simp add: sample_simps sample_sys0_tm indexed_table_def normal_form_def)
qed

theorem fullTableScan_exact_witness:
  "\<exists>db'. insertIntoTable sample_env IoOk sample_db sample_ins = (Ok (), db') \<and>
    fullTableScan sample_env db' ''t'' (- 1) {} = Ok [[''1'', ''a'']]"
proof -
  obtain s' :: "entry_tree sys" and db' and buf where
    r: "insertIntoTable sample_env IoOk sample_db sample_ins = (Ok (), db')"
    "store_reachable sample_env s'" "sq_db db' = sy_db s'"
    "tableNameVsSchemaMap db' ''t'' = Some indexed_table"
    "set (versions list_btree s') = {mk_entry ''t:1'' buf 1, mk_entry ''index:t:i:a:1'' '''' 1}"
    "sy_hist s' = []" "decodeRow sample_env db' ''t'' buf = Ok [''1'', ''a'']" by (rule sample_inserted)
  let ?l = "\<lambda>k. latest_version k (- 1) {} (versions list_btree s')"
  note l = latest_of_pair [OF r(5), simplified]
  have keys: "{k. prefix (''t'' @ '':'') k \<and> ?l k \<noteq> None} = {''t:1''}" by (auto simp: l split: if_splits)
  have env: "en_bt sample_env = list_btree" by (simp add: sample_env_def)
  have "\<exists>ks. distinct ks \<and> set ks = {''t:1''} \<and> fullTableScan sample_env db' ''t'' (- 1) {} =
      collect (\<lambda>k. decodeRow sample_env db' ''t'' (Value (the (?l k)))) ks"
    using fullTableScan_exact [OF sample_env_ok r(2,3), of "- 1" "{}" "''t''"] visible_max r(5,6)
    by (simp add: env keys [simplified])
  then have "fullTableScan sample_env db' ''t'' (- 1) {} = collect (\<lambda>k. decodeRow sample_env db' ''t'' (Value (the (?l k)))) [''t:1'']"
    by (metis distinct_set_singleton)
  then show ?thesis using r(1,7) by (simp add: l)
qed

end
