(* ===== verification/SqlSelectProps.thy ===== *)
theory SqlSelectProps
  imports SqlScan
begin

text \<open>
  The conditions of a query and the use of an index: filtering is a conjunction, the choice of the index,
  the keys that a scan of the index finds, and the equivalence of the lookup through an index with the
  filtered scan of the table, with the cases where it fails.
\<close>

section \<open>Conditions\<close>

definition compares :: "string \<Rightarrow> string \<Rightarrow> string \<Rightarrow> bool" where
  "compares queryType x y \<longleftrightarrow>
     queryType = ''='' \<and> x = y \<or> queryType = ''<'' \<and> x < y \<or> queryType = ''<='' \<and> x \<le> y \<or>
     queryType = ''>'' \<and> y < x \<or> queryType = ''>='' \<and> y \<le> x"

definition supported :: "QueryCondition \<Rightarrow> bool" where
  "supported qc \<longleftrightarrow> qc_QueryType qc \<in> {''='', ''<'', ''<='', ''>'', ''>=''}"

text \<open>The value of a row in the first column of a name.\<close>

fun value_in :: "Column list \<Rightarrow> string list \<Rightarrow> string \<Rightarrow> string" where
  "value_in (col # cols) (v # vs) name = (if ColumnName col = name then v else value_in cols vs name)"
| "value_in _ _ name = ''''"

definition satisfies :: "Column list \<Rightarrow> string list \<Rightarrow> QueryCondition \<Rightarrow> bool" where
  "satisfies cols row qc \<longleftrightarrow> compares (qc_QueryType qc) (value_in cols row (qc_ColumnName qc)) (qc_Value qc)"

lemma getColPosition_cases:
  "(name \<notin> ColumnName ` set cols \<and> getColPosition k cols name = - 1) \<or>
   (name \<in> ColumnName ` set cols \<and> (\<exists>i < length cols. getColPosition k cols name = int (k + i) \<and>
      (\<forall>row. length row = length cols \<longrightarrow> value_in cols row name = row ! i)))"
proof (induction cols arbitrary: k)
  case (Cons col cols)
  show ?case
  proof (cases "ColumnName col = name")
    case True
    then show ?thesis by (auto simp: length_Suc_conv intro!: exI [of _ 0])
  next
    case False
    from Cons.IH [of "k + 1"] show ?thesis
    proof (elim disjE conjE exE)
      fix i assume "name \<in> ColumnName ` set cols" "i < length cols" "getColPosition (k + 1) cols name = int (k + 1 + i)"
        "\<forall>row. length row = length cols \<longrightarrow> value_in cols row name = row ! i"
      with False show ?thesis by (intro disjI2 conjI exI [of _ "Suc i"]) (auto simp: length_Suc_conv)
    qed (use False in auto)
  qed
qed simp

lemma isQueryConditionApplicable_eq:
  "\<lbrakk>supported qc; i < length row\<rbrakk> \<Longrightarrow> isQueryConditionApplicable row i qc = Ok (compares (qc_QueryType qc) (row ! i) (qc_Value qc))"
  by (auto simp: isQueryConditionApplicable_def supported_def compares_def)

lemma filterRows_eq:
  "\<lbrakk>supported qc; \<forall>row \<in> set rows. i < length row\<rbrakk> \<Longrightarrow>
   filterRows i qc rows = Ok (filter (\<lambda>row. compares (qc_QueryType qc) (row ! i) (qc_Value qc)) rows)"
  by (induction rows) (simp_all add: isQueryConditionApplicable_eq)

lemma filterQueryConditions_eq:
  assumes "\<forall>qc \<in> set qcs. supported qc"
    and "\<forall>row \<in> set rows. length row = length (ct_ColumnDetails (schema_of db tableName))"
  shows "filterQueryConditions db tableName qcs covered rows =
    (let cols = ct_ColumnDetails (schema_of db tableName);
         rest = filter (\<lambda>qc. qc_ColumnName qc \<notin> set covered) qcs
     in if qc_ColumnName ` set rest \<subseteq> ColumnName ` set cols
        then Ok (filter (\<lambda>row. \<forall>qc \<in> set rest. satisfies cols row qc) rows)
        else Err (SqlError UnableToApplyConditions))"
  using assms
proof (induction qcs arbitrary: rows)
  case Nil
  then show ?case by simp
next
  case (Cons qc qcs)
  let ?cols = "ct_ColumnDetails (schema_of db tableName)"
  show ?case
  proof (cases "qc_ColumnName qc \<in> set covered")
    case True
    with Cons show ?thesis by simp
  next
    case rest: False
    show ?thesis
    proof (cases "qc_ColumnName qc \<in> ColumnName ` set ?cols")
      case False
      then have "getColPositionFromColName db tableName (qc_ColumnName qc) = - 1"
        using getColPosition_cases [of "qc_ColumnName qc" ?cols 0] by (auto simp: getColPositionFromColName_def)
      with False rest show ?thesis by (simp add: Let_def)
    next
      case True
      then obtain i where i: "i < length ?cols" "getColPositionFromColName db tableName (qc_ColumnName qc) = int i"
        "\<And>row. length row = length ?cols \<Longrightarrow> value_in ?cols row (qc_ColumnName qc) = row ! i"
        using getColPosition_cases [of "qc_ColumnName qc" ?cols 0] by (auto simp: getColPositionFromColName_def)
      have "filterRows i qc rows = Ok (filter (\<lambda>row. compares (qc_QueryType qc) (row ! i) (qc_Value qc)) rows)"
        using Cons.prems i(1) by (intro filterRows_eq) auto
      also have "filter (\<lambda>row. compares (qc_QueryType qc) (row ! i) (qc_Value qc)) rows = filter (\<lambda>row. satisfies ?cols row qc) rows"
        using Cons.prems(2) i(3) by (intro filter_cong) (auto simp: satisfies_def)
      finally have "filterQueryConditions db tableName (qc # qcs) covered rows =
          filterQueryConditions db tableName qcs covered (filter (\<lambda>row. satisfies ?cols row qc) rows)"
        using rest i(2) by simp
      also have "\<dots> = (let rest = filter (\<lambda>qc. qc_ColumnName qc \<notin> set covered) qcs
        in if qc_ColumnName ` set rest \<subseteq> ColumnName ` set ?cols
           then Ok (filter (\<lambda>row. \<forall>qc \<in> set rest. satisfies ?cols row qc) (filter (\<lambda>row. satisfies ?cols row qc) rows))
           else Err (SqlError UnableToApplyConditions))"
        using Cons.IH [of "filter (\<lambda>row. satisfies ?cols row qc) rows"] Cons.prems by (simp add: Let_def)
      finally show ?thesis
        using rest True by (simp add: Let_def conj_commute)
    qed
  qed
qed

text \<open>
  C14. Filtering is conjunction: with operators that exist and rows of the table's length, the conditions that an
  index does not cover are applied one after the other exactly as the conjunction of all of them, values
  being compared as strings; and a condition on a column that the table does not have is an error.
\<close>

theorem filterQueryConditions_exact:
  assumes "\<forall>qc \<in> set qcs. supported qc"
    and "\<forall>row \<in> set rows. length row = length (ct_ColumnDetails (schema_of db tableName))"
  shows "filterQueryConditions db tableName qcs covered rows =
    (let cols = ct_ColumnDetails (schema_of db tableName);
         rest = filter (\<lambda>qc. qc_ColumnName qc \<notin> set covered) qcs
     in if qc_ColumnName ` set rest \<subseteq> ColumnName ` set cols
        then Ok (filter (\<lambda>row. \<forall>qc \<in> set rest. satisfies cols row qc) rows)
        else Err (SqlError UnableToApplyConditions))"
  by (rule filterQueryConditions_eq [OF assms])

theorem filterQueryConditions_exact_witness:
  "filterQueryConditions sample_db ''t'' [\<lparr>qc_ColumnName = ''id'', qc_QueryType = ''<'', qc_Value = ''11''\<rparr>,
      \<lparr>qc_ColumnName = ''c'', qc_QueryType = ''='', qc_Value = ''z''\<rparr>] [''c''] [[''2'', ''a''], [''100'', ''b'']] = Ok [[''100'', ''b'']]"
proof -
  have "schema_of sample_db ''t'' = indexed_table" by (simp add: schema_of_def sample_simps)
  then show ?thesis
    by (subst filterQueryConditions_exact)
      (simp_all add: indexed_table_def supported_def satisfies_def compares_def)
qed

section \<open>The choice of an index\<close>

text \<open>The columns of an index up to the first one that the query has no condition on.\<close>

definition coverage :: "string set \<Rightarrow> SecondaryIndex \<Rightarrow> string list" where
  "coverage Q si = takeWhile (\<lambda>c. c \<in> Q) (si_Columns si)"

lemma secIdx_cols_eq:
  assumes "si_Columns si = covered @ cols" "set covered \<subseteq> Q"
  shows "secIdx_cols Q si cols covered candidate =
    (if cols \<noteq> [] \<and> set cols \<subseteq> Q then Inl (si, si_Columns si)
     else Inr (if takeWhile (\<lambda>c. c \<in> Q) cols \<noteq> [] then Some (si, coverage Q si) else candidate))"
  using assms
proof (induction cols arbitrary: covered candidate)
  case (Cons c cols)
  show ?case
  proof (cases "c \<in> Q")
    case True
    have si: "si_Columns si = (covered @ [c]) @ cols" "set (covered @ [c]) \<subseteq> Q" using Cons.prems True by simp_all
    have cov: "coverage Q si = covered @ c # takeWhile (\<lambda>c. c \<in> Q) cols"
      using Cons.prems True by (simp add: coverage_def takeWhile_append subset_iff)
    show ?thesis
    proof (cases "cols = []")
      case False
      with True si(1) have "secIdx_cols Q si (c # cols) covered candidate =
          secIdx_cols Q si cols (covered @ [c]) (Some (si, covered @ [c]))" by (simp add: Let_def)
      also have "\<dots> = (if cols \<noteq> [] \<and> set cols \<subseteq> Q then Inl (si, si_Columns si)
          else Inr (if takeWhile (\<lambda>c. c \<in> Q) cols \<noteq> [] then Some (si, coverage Q si) else Some (si, covered @ [c])))"
        by (rule Cons.IH [OF si])
      finally show ?thesis
        using True False cov by (cases "takeWhile (\<lambda>c. c \<in> Q) cols") simp_all
    qed (use True si in \<open>simp add: Let_def\<close>)
  qed simp
qed simp

lemma secIdx_loop_eq:
  "secIdx_loop Q sis candidate =
    (case find (\<lambda>si. si_Columns si \<noteq> [] \<and> set (si_Columns si) \<subseteq> Q) sis of
       Some si \<Rightarrow> Some (si, si_Columns si)
     | None \<Rightarrow> (case rev (filter (\<lambda>si. coverage Q si \<noteq> []) sis) of [] \<Rightarrow> candidate | si # _ \<Rightarrow> Some (si, coverage Q si)))"
proof (induction sis arbitrary: candidate)
  case (Cons si sis)
  then show ?case
    by (auto simp: secIdx_cols_eq [of si "[]" "si_Columns si"] coverage_def split: option.splits list.splits)
qed simp


section \<open>Keys\<close>

definition colon_free :: "string \<Rightarrow> bool" where
  "colon_free s \<longleftrightarrow> CHR '':'' \<notin> set s"

text \<open>The elements of a key, separated by colons.\<close>

fun elems :: "string list \<Rightarrow> string \<Rightarrow> string" where
  "elems [] z = z"
| "elems (x # xs) z = x @ CHR '':'' # elems xs z"

lemma elems_concat: "concat (map ((#) CHR '':'') xs) @ CHR '':'' # z = CHR '':'' # elems xs z"
  by (induction xs) auto

lemma key_elems:
  "getSecondaryIndexKeyOrPrefix tn ix vs '''' = elems (''index'' # tn # ix # vs) ''''"
  "pk \<noteq> '''' \<Longrightarrow> getSecondaryIndexKeyOrPrefix tn ix vs pk = elems (''index'' # tn # ix # vs) pk"
  "rowKey tn pk = elems [tn] pk" "tn @ '':'' = elems [tn] ''''"
  by (simp_all add: getSecondaryIndexKeyOrPrefix_def elems_concat rowKey_def)

lemma split_elems:
  "\<lbrakk>\<forall>x \<in> set xs. colon_free x; colon_free z\<rbrakk> \<Longrightarrow> split_on CHR '':'' (elems xs z) = xs @ [z]"
  by (induction xs) (simp_all add: split_on_append split_on_no_sep colon_free_def)

lemma prefix_colon:
  "\<lbrakk>colon_free x; colon_free y\<rbrakk> \<Longrightarrow> prefix (x @ CHR '':'' # s) (y @ CHR '':'' # t) \<longleftrightarrow> x = y \<and> prefix s t"
proof (induction x arbitrary: y)
  case Nil
  then show ?case by (cases y) (auto simp: colon_free_def)
next
  case (Cons c x)
  then show ?case by (cases y) (auto simp: colon_free_def)
qed

lemma prefix_elems:
  "\<lbrakk>\<forall>x \<in> set xs \<union> set ys. colon_free x; colon_free z\<rbrakk> \<Longrightarrow> prefix (elems xs '''') (elems ys z) \<longleftrightarrow> prefix xs ys"
proof (induction xs arbitrary: ys)
  case (Cons x xs)
  show ?case
  proof (cases ys)
    case Nil
    have "CHR '':'' \<in> set (elems (x # xs) '''')" by simp
    then have "\<not> prefix (elems (x # xs) '''') z"
      using Cons.prems(2) set_mono_prefix unfolding colon_free_def by blast
    then show ?thesis by (simp only: Nil elems.simps prefix_Nil) simp
  next
    case (Cons y ys')
    with Cons.IH [of ys'] Cons.prems show ?thesis by (simp add: prefix_colon)
  qed
qed simp

text \<open>
  The keys of the store keep apart what they should: as long as names and values have no colon, the prefix of
  an index scan finds exactly the entries of that index whose first values are the given ones, the last
  element of such a key is the primary key, and the prefix of a table scan finds exactly the rows of the
  table. The exception is a table called \<open>index\<close>, whose scan also finds every index entry of every table.
\<close>

theorem keys_separated:
  assumes "\<forall>x \<in> {tn, ix, tn', ix', pk} \<union> set vs \<union> set ws. colon_free x" "pk \<noteq> ''''"
  shows "(prefix (getSecondaryIndexKeyOrPrefix tn ix vs '''') (getSecondaryIndexKeyOrPrefix tn' ix' ws pk) \<longleftrightarrow>
      tn = tn' \<and> ix = ix' \<and> prefix vs ws) \<and>
    lastElement (getSecondaryIndexKeyOrPrefix tn' ix' ws pk) = pk \<and>
    (prefix (tn @ '':'') (rowKey tn' pk) \<longleftrightarrow> tn = tn') \<and>
    (prefix (tn @ '':'') (getSecondaryIndexKeyOrPrefix tn' ix' ws pk) \<longleftrightarrow> tn = ''index'')"
proof -
  have free: "\<forall>x \<in> set (''index'' # tn # ix # vs) \<union> set (''index'' # tn' # ix' # ws). colon_free x" "colon_free pk"
    using assms(1) by (auto simp: colon_free_def)
  then have "\<forall>x \<in> set [tn] \<union> set [tn']. colon_free x" "\<forall>x \<in> set [tn] \<union> set (''index'' # tn' # ix' # ws). colon_free x"
    "\<forall>x \<in> set (''index'' # tn' # ix' # ws). colon_free x" by simp_all
  note p = prefix_elems [OF free] prefix_elems [OF this(1) free(2)] prefix_elems [OF this(2) free(2)] split_elems [OF this(3) free(2)]
  show ?thesis
    unfolding key_elems(1,3,4) key_elems(2) [OF assms(2)] lastElement_def p by auto
qed

theorem keys_separated_witness:
  "prefix (getSecondaryIndexKeyOrPrefix ''t'' ''i'' [''a''] '''') (getSecondaryIndexKeyOrPrefix ''t'' ''i'' [''a'', ''b''] ''1'') \<and>
   \<not> prefix (getSecondaryIndexKeyOrPrefix ''t'' ''i'' [''a''] '''') (getSecondaryIndexKeyOrPrefix ''t'' ''i'' [''ab'', ''b''] ''1'')"
  using keys_separated [of "''t''" "''i''" "''t''" "''i''" "''1''" "[''a'']" "[''a'', ''b'']"]
    keys_separated [of "''t''" "''i''" "''t''" "''i''" "''1''" "[''a'']" "[''ab'', ''b'']"]
  by (simp add: colon_free_def)

section \<open>Lookup through an index\<close>

lemma dom_map_if: "dom (\<lambda>k. if P k then map_option f (g k) else None) = {k. P k \<and> g k \<noteq> None}"
  by (auto split: if_splits)

lemma secondaryIndexPrefixScan_eq:
  assumes env: "env_ok en" and reach: "store_reachable en s" and db: "sq_db db = sy_db s"
    and bound: "\<forall>x \<le> sy_bound s. visible t a x" and no_key: "\<forall>e \<in> set (versions (en_bt en) s). Key e \<noteq> p"
  shows "secondaryIndexPrefixScan en db p t a =
    Ok (en_rngS en (lastElement ` {k. prefix p k \<and> latest_version k t a (versions (en_bt en) s) \<noteq> None}))"
proof -
  obtain tfs where rel: "table_rel (ts_of s) tfs" using sys_invD(5) [OF store_inv [OF env reach]] by blast
  have "\<forall>e \<in> set (ts_hist (ts_of s)). Key e \<noteq> p" using no_key by (simp add: versions_def ts_of_def)
  with table_rel_scan [OF rel, of t a p] bound obtain m2 where
    m2: "SsTable_PrefixScan (db_ssTable (sy_db s)) (db_disk (sy_db s)) p t a = Ok m2"
    "\<And>k. m2 k = (if prefix p k then map_option vt_of (latest_version k t a (sy_hist s)) else None)"
    by (auto simp: ts_of_def)
  define m1 where "m1 = Memtable_PrefixScan (en_bt en) (db_memTable (sy_db s)) p t a"
  have m1: "m1 k = (if prefix p k then map_option Value (latest_version k t a (mt_entries (en_bt en) (db_memTable (sy_db s)))) else None)" for k
    by (simp add: m1_def Memtable_PrefixScan_eq [OF runtime_okD(1) [OF env_okD(1) [OF env]]])
  have seen: "latest_version k t a (versions (en_bt en) s) = None \<longleftrightarrow>
      latest_version k t a (sy_hist s) = None \<and> latest_version k t a (mt_entries (en_bt en) (db_memTable (sy_db s))) = None" for k
    by (auto simp: latest_version_None versions_def)
  have "m1 = (\<lambda>k. if prefix p k then map_option Value (latest_version k t a (mt_entries (en_bt en) (db_memTable (sy_db s)))) else None)"
    by (rule ext) (rule m1)
  moreover have "m2 = (\<lambda>k. if prefix p k then map_option vt_of (latest_version k t a (sy_hist s)) else None)"
    by (rule ext) (rule m2(2))
  ultimately have d: "dom m1 = {k. prefix p k \<and> latest_version k t a (mt_entries (en_bt en) (db_memTable (sy_db s))) \<noteq> None}"
    "dom m2 = {k. prefix p k \<and> latest_version k t a (sy_hist s) \<noteq> None}"
    by (simp_all only: dom_map_if)
  have "dom m2 \<union> dom m1 = {k. prefix p k \<and> latest_version k t a (versions (en_bt en) s) \<noteq> None}"
    unfolding d seen by auto
  then show ?thesis
    by (simp add: secondaryIndexPrefixScan_def db m1_def [symmetric] m2(1) Let_def flip: image_Un)
qed

lemma collect_Ok: "(\<And>x. x \<in> set xs \<Longrightarrow> f x = Ok (g x)) \<Longrightarrow> collect f xs = Ok (map g xs)"
  by (induction xs) simp_all

text \<open>The rows of a table that a reader sees, with their primary keys.\<close>

definition rows_seen :: "'t env \<Rightarrow> 't sqldb \<Rightarrow> (string \<Rightarrow> Entry option) \<Rightarrow> string \<Rightarrow> (string \<times> string list) set" where
  "rows_seen en db latest tn =
     {(pk, row). \<exists>e. latest (rowKey tn pk) = Some e \<and> decodeRow en db tn (Value e) = Ok row}"

text \<open>
  An index is consistent with what a reader sees when it has one entry for every row, under the values that the
  row has now, and no other. Values and keys have no colons.
\<close>

definition index_consistent :: "'t env \<Rightarrow> 't sqldb \<Rightarrow> (string \<Rightarrow> Entry option) \<Rightarrow> string \<Rightarrow> SecondaryIndex \<Rightarrow> bool" where
  "index_consistent en db latest tn si \<longleftrightarrow>
     colon_free tn \<and> colon_free (si_IndexName si) \<and>
     (\<forall>(pk, row) \<in> rows_seen en db latest tn. pk \<noteq> '''' \<and> colon_free pk \<and> length row = length (ct_ColumnDetails (schema_of db tn)) \<and>
        (\<forall>c \<in> set (si_Columns si). colon_free (value_in (ct_ColumnDetails (schema_of db tn)) row c))) \<and>
     (\<forall>k. prefix (getSecondaryIndexKeyOrPrefix tn (si_IndexName si) [] '''') k \<and> latest k \<noteq> None \<longleftrightarrow>
        (\<exists>(pk, row) \<in> rows_seen en db latest tn. k = getSecondaryIndexKeyOrPrefix tn (si_IndexName si)
           (map (value_in (ct_ColumnDetails (schema_of db tn)) row) (si_Columns si)) pk))"

text \<open>
  A query that an index answers: equalities on the covered columns, one condition per column, and none beyond the
  columns of an index that is covered completely.
\<close>

definition answerable :: "Column list \<Rightarrow> QueryCondition list \<Rightarrow> SecondaryIndex \<Rightarrow> string list \<Rightarrow> bool" where
  "answerable cols qcs si covered \<longleftrightarrow>
     distinct (map qc_ColumnName qcs) \<and>
     (\<forall>qc \<in> set qcs. supported qc \<and> colon_free (qc_Value qc) \<and> qc_ColumnName qc \<in> ColumnName ` set cols) \<and>
     (\<forall>qc \<in> set qcs. qc_ColumnName qc \<in> set covered \<longrightarrow> qc_QueryType qc = ''='') \<and>
     (covered = si_Columns si \<longrightarrow> qc_ColumnName ` set qcs \<subseteq> set covered)"

lemma index_choice_covered:
  assumes "getSecondaryIndexForQueryIfApplicable sf sis = Some (si, covered)"
  shows "prefix covered (si_Columns si)" "set covered \<subseteq> qc_ColumnName ` set (sf_QueryConditions sf)" "si \<in> set sis"
proof -
  let ?Q = "qc_ColumnName ` set (sf_QueryConditions sf)"
  have "covered = coverage ?Q si \<and> si \<in> set sis"
  proof (cases "find (\<lambda>si. si_Columns si \<noteq> [] \<and> set (si_Columns si) \<subseteq> ?Q) sis")
    case None
    with assms obtain xs where "rev (filter (\<lambda>si. coverage ?Q si \<noteq> []) sis) = si # xs" "covered = coverage ?Q si"
      unfolding getSecondaryIndexForQueryIfApplicable_def secIdx_loop_eq by (auto split: list.splits)
    moreover from this(1) have "si \<in> set (rev (filter (\<lambda>si. coverage ?Q si \<noteq> []) sis))"
      by (metis list.set_intros(1))
    then have "si \<in> set sis" by (simp only: set_rev set_filter mem_Collect_eq)
    ultimately show ?thesis by simp
  next
    case (Some si')
    then have "si' \<in> set sis" "set (si_Columns si') \<subseteq> ?Q" by (auto simp: find_Some_iff)
    moreover from this(2) have "coverage ?Q si' = si_Columns si'"
      unfolding coverage_def by (auto simp: takeWhile_eq_all_conv)
    moreover from Some assms have "si = si'" "covered = si_Columns si'"
      unfolding getSecondaryIndexForQueryIfApplicable_def secIdx_loop_eq by auto
    ultimately show ?thesis by simp
  qed
  then show "prefix covered (si_Columns si)" "set covered \<subseteq> ?Q" "si \<in> set sis"
    by (auto simp: coverage_def takeWhile_is_prefix dest: set_takeWhileD)
qed

lemma covered_values:
  assumes "distinct (map qc_ColumnName qcs)" "set covered \<subseteq> qc_ColumnName ` set qcs"
  obtains val where "indexCoveredColValues qcs covered = map val covered"
    "\<And>qc. qc \<in> set qcs \<Longrightarrow> val (qc_ColumnName qc) = qc_Value qc"
proof -
  define val where "val c = qc_Value (the (find (\<lambda>qc. qc_ColumnName qc = c) qcs))" for c
  have val: "val (qc_ColumnName qc) = qc_Value qc" if qc: "qc \<in> set qcs" for qc
  proof -
    have "find (\<lambda>q. qc_ColumnName q = qc_ColumnName qc) qcs \<noteq> None" using qc by (auto simp: find_None_iff)
    then obtain qc' where qc': "find (\<lambda>q. qc_ColumnName q = qc_ColumnName qc) qcs = Some qc'" by blast
    then have "qc' \<in> set qcs" "qc_ColumnName qc' = qc_ColumnName qc" by (auto simp: find_Some_iff)
    with qc assms(1) have "qc' = qc" by (auto simp: distinct_map dest: inj_onD)
    with qc' show ?thesis by (simp add: val_def)
  qed
  have "map qc_Value (filter (\<lambda>qc. qc_ColumnName qc = c) qcs) = [val c]" if "c \<in> set covered" for c
  proof -
    from that assms(2) obtain qc where qc: "qc \<in> set qcs" "qc_ColumnName qc = c" by auto
    have "filter (\<lambda>q. qc_ColumnName q = c) qcs = [qc]"
    proof (rule distinct_set_singleton)
      show "distinct (filter (\<lambda>q. qc_ColumnName q = c) qcs)" using assms(1) by (simp add: distinct_map)
      show "set (filter (\<lambda>q. qc_ColumnName q = c) qcs) = {qc}"
        using qc assms(1) by (auto simp: distinct_map dest: inj_onD)
    qed
    with val [OF qc(1)] qc(2) show ?thesis by simp
  qed
  then have "indexCoveredColValues qcs covered = map val covered"
    unfolding indexCoveredColValues_def by (induction covered) auto
  with val that show thesis by blast
qed

lemma prefix_map_conv:
  "prefix xs ys \<Longrightarrow> prefix (map f xs) (map g ys) \<longleftrightarrow> (\<forall>x \<in> set xs. f x = g x)"
  by (auto simp: prefix_def append_eq_append_conv)

lemma index_keys_found:
  assumes cons: "index_consistent en db latest tn si" and pre: "prefix covered (si_Columns si)"
    and vs: "\<forall>c \<in> set covered. colon_free (val c)"
  shows "lastElement ` {k. prefix (getSecondaryIndexKeyOrPrefix tn (si_IndexName si) (map val covered) '''') k \<and> latest k \<noteq> None} =
    fst ` {(pk, row) \<in> rows_seen en db latest tn. \<forall>c \<in> set covered. val c = value_in (ct_ColumnDetails (schema_of db tn)) row c}"
proof -
  let ?key = "getSecondaryIndexKeyOrPrefix tn (si_IndexName si)"
  let ?f = "value_in (ct_ColumnDetails (schema_of db tn))"
  have names: "colon_free tn" "colon_free (si_IndexName si)" "colon_free ''index''"
    using cons by (simp_all add: index_consistent_def colon_free_def)
  have row: "pk \<noteq> ''''" "\<forall>x \<in> set (''index'' # tn # si_IndexName si # map (?f r) (si_Columns si)). colon_free x" "colon_free pk"
    if "(pk, r) \<in> rows_seen en db latest tn" for pk r
    using cons that names by (auto simp: index_consistent_def)
  have entries: "prefix (?key [] '''') k \<and> latest k \<noteq> None \<longleftrightarrow>
      (\<exists>(pk, r) \<in> rows_seen en db latest tn. k = ?key (map (?f r) (si_Columns si)) pk)" for k
    using cons unfolding index_consistent_def by blast
  have shorter: "prefix (?key [] '''') (?key (map val covered) '''')"
    unfolding key_elems(1) by (subst prefix_elems) (use vs names in \<open>auto simp: colon_free_def\<close>)
  have last: "lastElement (?key (map (?f r) (si_Columns si)) pk) = pk" if "(pk, r) \<in> rows_seen en db latest tn" for pk r
    using split_elems [OF row(2,3) [OF that]] by (simp add: lastElement_def key_elems(2) [OF row(1) [OF that]])
  have match: "prefix (?key (map val covered) '''') (?key (map (?f r) (si_Columns si)) pk) \<longleftrightarrow> (\<forall>c \<in> set covered. val c = ?f r c)"
    if "(pk, r) \<in> rows_seen en db latest tn" for pk r
  proof -
    have "\<forall>x \<in> set (''index'' # tn # si_IndexName si # map val covered) \<union>
        set (''index'' # tn # si_IndexName si # map (?f r) (si_Columns si)). colon_free x"
      using row(2) [OF that] vs by auto
    from prefix_elems [OF this row(3) [OF that]] show ?thesis
      by (simp add: key_elems(1) key_elems(2) [OF row(1) [OF that]] prefix_map_conv [OF pre])
  qed
  have "{k. prefix (?key (map val covered) '''') k \<and> latest k \<noteq> None} =
      (\<lambda>(pk, r). ?key (map (?f r) (si_Columns si)) pk) `
        {(pk, r) \<in> rows_seen en db latest tn. \<forall>c \<in> set covered. val c = ?f r c}"
  proof (rule set_eqI)
    fix k
    have "prefix (?key (map val covered) '''') k \<and> latest k \<noteq> None \<longleftrightarrow>
        prefix (?key (map val covered) '''') k \<and> prefix (?key [] '''') k \<and> latest k \<noteq> None"
      using shorter prefix_order.trans by blast
    also have "\<dots> \<longleftrightarrow> (\<exists>(pk, r) \<in> rows_seen en db latest tn. k = ?key (map (?f r) (si_Columns si)) pk \<and>
        prefix (?key (map val covered) '''') k)"
      unfolding entries case_prod_unfold by blast
    also have "\<dots> \<longleftrightarrow> (\<exists>(pk, r) \<in> rows_seen en db latest tn. k = ?key (map (?f r) (si_Columns si)) pk \<and>
        (\<forall>c \<in> set covered. val c = ?f r c))"
      using match by (auto simp: case_prod_unfold)
    finally show "k \<in> {k. prefix (?key (map val covered) '''') k \<and> latest k \<noteq> None} \<longleftrightarrow>
      k \<in> (\<lambda>(pk, r). ?key (map (?f r) (si_Columns si)) pk) `
        {(pk, r) \<in> rows_seen en db latest tn. \<forall>c \<in> set covered. val c = ?f r c}"
      by (auto simp: image_iff)
  qed
  then have "lastElement ` {k. prefix (?key (map val covered) '''') k \<and> latest k \<noteq> None} =
      (\<lambda>(pk, r). lastElement (?key (map (?f r) (si_Columns si)) pk)) `
        {(pk, r) \<in> rows_seen en db latest tn. \<forall>c \<in> set covered. val c = ?f r c}"
    by (simp add: image_image case_prod_unfold)
  also have "\<dots> = fst ` {(pk, r) \<in> rows_seen en db latest tn. \<forall>c \<in> set covered. val c = ?f r c}"
    by (rule image_cong [OF refl]) (auto simp: last)
  finally show ?thesis .
qed

text \<open>The keys that the scan of the index finds, and the rows under them.\<close>

lemma index_collect:
  fixes db :: "'t sqldb" and tn :: string
  assumes env: "env_ok en" and reach: "store_reachable en s" and db: "sq_db db = sy_db s"
    and bound: "\<forall>x \<le> sy_bound s. visible (txn_id txn) (activeTransactionsSnapshot txn) x"
  defines "latest \<equiv> \<lambda>k. latest_version k (txn_id txn) (activeTransactionsSnapshot txn) (versions (en_bt en) s)"
  assumes no_key: "\<forall>e \<in> set (versions (en_bt en) s). Key e = '''' \<or> last (Key e) \<noteq> CHR '':''"
    and gets: "\<forall>(pk, row) \<in> rows_seen en db latest tn. txn_Get (en_bt en) txn (sq_db db) (rowKey tn pk) = Ok (Value (the (latest (rowKey tn pk))))"
    and consistent: "index_consistent en db latest tn si" and pre: "prefix covered (si_Columns si)"
    and vs: "\<forall>c \<in> set covered. colon_free (val c)"
  obtains pks row_of where
    "secondaryIndexPrefixScan en db (getSecondaryIndexKeyOrPrefix tn (si_IndexName si) (map val covered) '''')
      (txn_id txn) (activeTransactionsSnapshot txn) = Ok pks"
    "collect (getRowForPrimaryKey en txn db tn) pks = Ok (map row_of pks)" "distinct pks"
    "(\<lambda>pk. (pk, row_of pk)) ` set pks =
      {(pk, row) \<in> rows_seen en db latest tn. \<forall>c \<in> set covered. val c = value_in (ct_ColumnDetails (schema_of db tn)) row c}"
proof -
  let ?R = "rows_seen en db latest tn"
  define P where "P = getSecondaryIndexKeyOrPrefix tn (si_IndexName si) (map val covered) ''''"
  define S where "S = {(pk, row) \<in> ?R. \<forall>c \<in> set covered. val c = value_in (ct_ColumnDetails (schema_of db tn)) row c}"
  have "P \<noteq> ''''" "last P = CHR '':''" by (simp_all add: P_def getSecondaryIndexKeyOrPrefix_def)
  then have "\<forall>e \<in> set (versions (en_bt en) s). Key e \<noteq> P" using no_key by metis
  from secondaryIndexPrefixScan_eq [OF env reach db bound this]
  have scan: "secondaryIndexPrefixScan en db P (txn_id txn) (activeTransactionsSnapshot txn) =
      Ok (en_rngS en (lastElement ` {k. prefix P k \<and> latest k \<noteq> None}))" by (simp add: latest_def)
  from index_keys_found [OF consistent pre vs]
  have keys: "lastElement ` {k. prefix P k \<and> latest k \<noteq> None} = fst ` S" by (simp add: P_def S_def)
  have fin: "finite (fst ` S)"
    unfolding keys [symmetric] latest_def by (intro finite_imageI finite_subset [OF _ finite_latest]) auto
  define pks where "pks = en_rngS en (fst ` S)"
  have pks: "distinct pks" "set pks = fst ` S" using env_okD(3,4) [OF env fin] by (simp_all add: pks_def)
  have uniq: "row = row'" if "(pk, row) \<in> ?R" "(pk, row') \<in> ?R" for pk row row'
    using that by (auto simp: rows_seen_def)
  define row_of where "row_of pk = (THE row. (pk, row) \<in> ?R)" for pk
  have row_of: "row_of pk = row" if "(pk, row) \<in> ?R" for pk row
    unfolding row_of_def using that uniq by blast
  have S: "S = (\<lambda>pk. (pk, row_of pk)) ` set pks"
    unfolding pks(2) S_def by (auto simp: image_iff row_of)
  have "getRowForPrimaryKey en txn db tn pk = Ok (row_of pk)" if "pk \<in> set pks" for pk
  proof -
    from that obtain row where row: "(pk, row) \<in> ?R" by (auto simp: pks(2) S_def)
    with gets have "txn_Get (en_bt en) txn (sq_db db) (rowKey tn pk) = Ok (Value (the (latest (rowKey tn pk))))" by blast
    with row row_of [OF row] show ?thesis by (auto simp: getRowForPrimaryKey_def rows_seen_def)
  qed
  then have "collect (getRowForPrimaryKey en txn db tn) pks = Ok (map row_of pks)" by (rule collect_Ok)
  then show thesis
    by (rule that [OF scan [unfolded keys, folded pks_def, unfolded P_def] _ pks(1) S [symmetric, unfolded S_def]])
qed

text \<open>The rest of the conditions, on the rows that the index leads to.\<close>

lemma index_filter:
  fixes db :: "'t sqldb" and tn :: string
  defines "cols \<equiv> ct_ColumnDetails (schema_of db tn)"
  assumes query: "answerable cols qcs si covered" and cov: "prefix covered (si_Columns si)" and pks: "distinct pks"
    and len: "\<forall>pk \<in> set pks. length (row_of pk) = length cols"
  shows "\<exists>found. (if allColumnsCoveredBySecondaryIndex si covered then Ok (map row_of pks)
      else filterQueryConditions db tn qcs covered (map row_of pks)) = Ok (map snd found) \<and> distinct (map fst found) \<and>
    set found = {(pk, row) \<in> (\<lambda>pk. (pk, row_of pk)) ` set pks.
      \<forall>qc \<in> set qcs. qc_ColumnName qc \<notin> set covered \<longrightarrow> satisfies cols row qc}"
proof -
  have qcs: "\<forall>qc \<in> set qcs. supported qc" "\<forall>qc \<in> set qcs. qc_ColumnName qc \<in> ColumnName ` set cols"
    "covered = si_Columns si \<Longrightarrow> qc_ColumnName ` set qcs \<subseteq> set covered"
    using query by (simp_all add: answerable_def)
  define rest where "rest = filter (\<lambda>qc. qc_ColumnName qc \<notin> set covered) qcs"
  define found where "found = filter (\<lambda>(pk, row). \<forall>qc \<in> set rest. satisfies cols row qc) (map (\<lambda>pk. (pk, row_of pk)) pks)"
  have found: "map snd found = filter (\<lambda>row. \<forall>qc \<in> set rest. satisfies cols row qc) (map row_of pks)"
    by (simp add: found_def filter_map o_def case_prod_unfold)
  have "(if allColumnsCoveredBySecondaryIndex si covered then Ok (map row_of pks)
      else filterQueryConditions db tn qcs covered (map row_of pks)) = Ok (map snd found)"
  proof (cases "allColumnsCoveredBySecondaryIndex si covered")
    case True
    with cov have "covered = si_Columns si" by (auto simp: allColumnsCoveredBySecondaryIndex_def prefix_def)
    with qcs(3) have "rest = []" by (auto simp: rest_def filter_empty_conv)
    with True show ?thesis by (simp add: found)
  next
    case False
    have lens: "\<forall>row \<in> set (map row_of pks). length row = length cols" using len by simp
    have "filterQueryConditions db tn qcs covered (map row_of pks) = Ok (map snd found)"
      unfolding found filterQueryConditions_eq [OF qcs(1) lens [unfolded cols_def]] rest_def [symmetric] cols_def [symmetric] Let_def
      using qcs(2) by (auto simp: rest_def)
    with False show ?thesis by simp
  qed
  moreover have "distinct (map fst found)"
    using pks by (simp add: found_def filter_map o_def case_prod_unfold)
  moreover have "set found = {(pk, row) \<in> (\<lambda>pk. (pk, row_of pk)) ` set pks.
      \<forall>qc \<in> set qcs. qc_ColumnName qc \<notin> set covered \<longrightarrow> satisfies cols row qc}"
    by (auto simp: found_def rest_def)
  ultimately show ?thesis by blast
qed

text \<open>
  C16. A query that is answered through an index returns the rows that the conditions select among those that
  the reader sees, each once, whether the index covers all its columns or the remaining conditions
  are filtered afterwards: for every index that is consistent with the rows, and every query of the kind
  that an index answers, if the lookups of the rows by their keys return the latest versions.
\<close>

theorem index_select_exact:
  fixes db :: "'t sqldb" and tn :: string
  assumes env: "env_ok en" and reach: "store_reachable en s" and db: "sq_db db = sy_db s"
    and bound: "\<forall>x \<le> sy_bound s. visible (txn_id txn) (activeTransactionsSnapshot txn) x"
  defines "latest \<equiv> \<lambda>k. latest_version k (txn_id txn) (activeTransactionsSnapshot txn) (versions (en_bt en) s)"
    and "cols \<equiv> ct_ColumnDetails (schema_of db tn)"
  assumes no_key: "\<forall>e \<in> set (versions (en_bt en) s). Key e = '''' \<or> last (Key e) \<noteq> CHR '':''"
    and gets: "\<forall>(pk, row) \<in> rows_seen en db latest tn.
      txn_Get (en_bt en) txn (sq_db db) (rowKey tn pk) = Ok (Value (the (latest (rowKey tn pk))))"
    and choice: "getSecondaryIndexForQueryIfApplicable sf (ct_SecondaryIndexes (schema_of db tn)) = Some (si, covered)"
    and consistent: "index_consistent en db latest tn si"
    and query: "answerable cols (sf_QueryConditions sf) si covered"
  shows "\<exists>found. getQueryResultFromSecondaryIndexIfApplicable en txn db tn sf (schema_of db tn) = Ok (map snd found) \<and>
    distinct (map fst found) \<and>
    set found = {(pk, row) \<in> rows_seen en db latest tn. \<forall>qc \<in> set (sf_QueryConditions sf). satisfies cols row qc}"
proof -
  let ?qcs = "sf_QueryConditions sf" and ?R = "rows_seen en db latest tn"
  have qcs: "distinct (map qc_ColumnName ?qcs)" "\<forall>qc \<in> set ?qcs. supported qc" "\<forall>qc \<in> set ?qcs. colon_free (qc_Value qc)"
    "\<forall>qc \<in> set ?qcs. qc_ColumnName qc \<in> ColumnName ` set cols"
    "\<And>qc. \<lbrakk>qc \<in> set ?qcs; qc_ColumnName qc \<in> set covered\<rbrakk> \<Longrightarrow> qc_QueryType qc = ''=''"
    "covered = si_Columns si \<Longrightarrow> qc_ColumnName ` set ?qcs \<subseteq> set covered"
    using query by (simp_all add: answerable_def)
  note cov = index_choice_covered [OF choice]
  obtain val where val: "indexCoveredColValues ?qcs covered = map val covered"
    "\<And>qc. qc \<in> set ?qcs \<Longrightarrow> val (qc_ColumnName qc) = qc_Value qc"
    using covered_values [OF qcs(1) cov(2)] by blast
  define S where "S = {(pk, row) \<in> ?R. \<forall>c \<in> set covered. val c = value_in cols row c}"
  have "\<forall>c \<in> set covered. colon_free (val c)" using cov(2) val(2) qcs(3) by (auto simp: image_iff)
  from index_collect [OF env reach db bound no_key gets [unfolded latest_def] consistent [unfolded latest_def] cov(1) this,
      folded latest_def cols_def, folded S_def]
  obtain pks row_of where scan: "secondaryIndexPrefixScan en db (getSecondaryIndexKeyOrPrefix tn (si_IndexName si) (map val covered) '''')
      (txn_id txn) (activeTransactionsSnapshot txn) = Ok pks"
    and collected: "collect (getRowForPrimaryKey en txn db tn) pks = Ok (map row_of pks)"
    and pks: "distinct pks" and "(\<lambda>pk. (pk, row_of pk)) ` set pks = S" .
  note S = this(4) [symmetric]
  have in_R: "(pk, row_of pk) \<in> ?R" if "pk \<in> set pks" for pk using that S by (auto simp: S_def)
  then have len: "\<forall>pk \<in> set pks. length (row_of pk) = length cols"
    using consistent by (fastforce simp: index_consistent_def cols_def)
  have conds: "(\<forall>c \<in> set covered. val c = value_in cols row c) \<longleftrightarrow>
      (\<forall>qc \<in> set ?qcs. qc_ColumnName qc \<in> set covered \<longrightarrow> satisfies cols row qc)" for row
  proof -
    have "satisfies cols row qc \<longleftrightarrow> val (qc_ColumnName qc) = value_in cols row (qc_ColumnName qc)"
      if "qc \<in> set ?qcs" "qc_ColumnName qc \<in> set covered" for qc
      using qcs(5) [OF that] val(2) [OF that(1)] by (auto simp: satisfies_def compares_def)
    then show ?thesis using cov(2) by (fastforce simp: subset_iff image_iff)
  qed
  from index_filter [OF query [unfolded cols_def] cov(1) pks(1) len [unfolded cols_def]]
  obtain found where found: "(if allColumnsCoveredBySecondaryIndex si covered then Ok (map row_of pks)
      else filterQueryConditions db tn ?qcs covered (map row_of pks)) = Ok (map snd found)" "distinct (map fst found)"
    "set found = {(pk, row) \<in> S. \<forall>qc \<in> set ?qcs. qc_ColumnName qc \<notin> set covered \<longrightarrow> satisfies cols row qc}"
    unfolding S cols_def by blast
  have "set found = {(pk, row) \<in> ?R. \<forall>qc \<in> set ?qcs. satisfies cols row qc}"
    unfolding found(3) S_def conds by auto
  moreover have "getQueryResultFromSecondaryIndexIfApplicable en txn db tn sf (schema_of db tn) = Ok (map snd found)"
    using found(1) by (simp add: getQueryResultFromSecondaryIndexIfApplicable_def choice val(1) scan collected)
  ultimately show ?thesis using found(2) by blast
qed

text \<open>A reader of the sample row, and what it sees.\<close>

definition sample_reader :: Transaction where
  "sample_reader = \<lparr>txn_id = - 1, bufferedWriteMap = Map.empty, lockAcquiredKeys = [], activeTransactionsSnapshot = {}\<rparr>"

definition sample_query :: SelectFromTable where
  "sample_query = \<lparr>sf_TableName = ''t'', sf_ColumnsRequired = [''*''],
     sf_QueryConditions = [\<lparr>qc_ColumnName = ''c'', qc_QueryType = ''='', qc_Value = ''a''\<rparr>]\<rparr>"

lemma sample_choice: "getSecondaryIndexForQueryIfApplicable sample_query (ct_SecondaryIndexes indexed_table) =
    Some (\<lparr>si_Columns = [''c''], si_IndexName = ''i''\<rparr>, [''c''])"
  by (simp add: getSecondaryIndexForQueryIfApplicable_def sample_query_def indexed_table_def Let_def)

lemma sample_rows_seen:
  assumes "set es = {mk_entry ''t:1'' buf 1, mk_entry ''index:t:i:a:1'' '''' 1}"
    and "decodeRow en db ''t'' buf = Ok row"
  shows "rows_seen en db (\<lambda>k. latest_version k (- 1) {} es) ''t'' = {(''1'', row)}"
proof -
  have "rowKey ''t'' pk = ''t:1'' \<longleftrightarrow> pk = ''1''" "rowKey ''t'' pk \<noteq> ''index:t:i:a:1''" for pk
    by (simp_all add: rowKey_def)
  then have "latest_version (rowKey ''t'' pk) (- 1) {} es = (if pk = ''1'' then Some (mk_entry ''t:1'' buf 1) else None)" for pk
    using latest_of_pair [OF assms(1), of "rowKey ''t'' pk"] by simp
  moreover have "Value (mk_entry ''t:1'' buf 1) = buf" by (simp add: mk_entry_def)
  ultimately show ?thesis
    using assms(2) by (simp add: rows_seen_def) (auto split: if_splits)
qed

theorem index_select_exact_witness:
  "\<exists>db'. insertIntoTable sample_env IoOk sample_db sample_ins = (Ok (), db') \<and>
    getQueryResultFromSecondaryIndexIfApplicable sample_env sample_reader db' ''t'' sample_query indexed_table = Ok [[''1'', ''a'']]"
proof -
  obtain s' :: "entry_tree sys" and db' and buf where
    r: "insertIntoTable sample_env IoOk sample_db sample_ins = (Ok (), db')"
    "store_reachable sample_env s'" "sq_db db' = sy_db s'"
    "tableNameVsSchemaMap db' ''t'' = Some indexed_table"
    "set (versions list_btree s') = {mk_entry ''t:1'' buf 1, mk_entry ''index:t:i:a:1'' '''' 1}"
    "sy_hist s' = []" "decodeRow sample_env db' ''t'' buf = Ok [''1'', ''a'']" by (rule sample_inserted)
  let ?l = "\<lambda>k. latest_version k (- 1) {} (versions list_btree s')"
  let ?si = "\<lparr>si_Columns = [''c''], si_IndexName = ''i''\<rparr>"
  note l = latest_of_pair [OF r(5), simplified]
  have schema: "schema_of db' ''t'' = indexed_table" by (simp add: schema_of_def r(4))
  have env: "en_bt sample_env = list_btree" by (simp add: sample_env_def)
  have reader: "txn_id sample_reader = - 1" "activeTransactionsSnapshot sample_reader = {}" "bufferedWriteMap sample_reader = Map.empty"
    by (simp_all add: sample_reader_def)
  have rows: "rows_seen sample_env db' ?l ''t'' = {(''1'', [''1'', ''a''])}"
    by (rule sample_rows_seen [OF r(5,7)])
  have mem: "mt_entries list_btree (db_memTable (sy_db s')) = versions list_btree s'"
    by (simp add: versions_def r(6))
  have get: "txn_Get list_btree sample_reader (sq_db db') (rowKey ''t'' ''1'') = Ok (Value (the (?l (rowKey ''t'' ''1''))))"
    by (simp add: txn_Get_def reader r(3) getWithSnapshot_def Memtable_Get_eq [OF list_btree_ok] mem l rowKey_def)
  have no_key: "\<forall>e \<in> set (versions list_btree s'). Key e = '''' \<or> last (Key e) \<noteq> CHR '':''" by (simp add: r(5))
  have cons: "index_consistent sample_env db' ?l ''t'' ?si"
    unfolding index_consistent_def rows schema
    by (auto simp: colon_free_def indexed_table_def getSecondaryIndexKeyOrPrefix_def l split: if_splits)
  have query: "answerable (ct_ColumnDetails indexed_table) (sf_QueryConditions sample_query) ?si [''c'']"
    by (simp add: answerable_def sample_query_def supported_def colon_free_def indexed_table_def)
  have bound: "\<forall>x \<le> sy_bound s'. visible (- 1) {} x" by (simp add: visible_max)
  have gets: "\<forall>(pk, row) \<in> rows_seen sample_env db' ?l ''t''.
      txn_Get list_btree sample_reader (sq_db db') (rowKey ''t'' pk) = Ok (Value (the (?l (rowKey ''t'' pk))))"
    by (simp add: rows get)
  have sat: "{(pk, row) \<in> {(''1'', [''1'', ''a''])}. \<forall>qc \<in> set (sf_QueryConditions sample_query).
      satisfies (ct_ColumnDetails indexed_table) row qc} = {(''1'', [''1'', ''a''])}"
    by (auto simp: sample_query_def satisfies_def compares_def indexed_table_def)
  from index_select_exact [OF sample_env_ok r(2,3), of sample_reader "''t''", unfolded reader env schema,
      OF bound no_key gets sample_choice cons query, unfolded rows sat]
  obtain found where found: "getQueryResultFromSecondaryIndexIfApplicable sample_env sample_reader db' ''t'' sample_query indexed_table = Ok (map snd found)"
    "distinct (map fst found)" "set found = {(''1'', [''1'', ''a''])}" by blast
  from this(2,3) have "found = [(''1'', [''1'', ''a''])]" by (metis distinct_map distinct_set_singleton)
  with found(1) r(1) show ?thesis by simp
qed

end
