(* ===== verification/SqlStaleIndex.thy ===== *)
theory SqlStaleIndex
  imports SqlSelectProps
begin

text \<open>
  A row that is inserted again under its key overwrites the row, but the index entry of its old values stays. The
  index is then not consistent with the rows, and a query for the old value returns the new row.
\<close>

lemma mt_size_Puts_le:
  "mt_size (Memtable_Puts bt m ps) \<le> mt_size m + (\<Sum>(k, v, i) \<leftarrow> ps. int (length k + length v))"
proof (induction ps arbitrary: m)
  case (Cons p ps)
  obtain k v i where "p = (k, v, i)" by (cases p)
  with Cons [of "Memtable_Put bt m k v i"] mt_size_Put_le [of bt m k v i] show ?case by simp
qed simp

lemma holder_idle:
  assumes "env_ok en" "store_reachable en s" "activeTransactionsMap (db_tm (sy_db s)) = {}"
  shows "holder (db_tm (sy_db s)) k = 0"
proof (rule ccontr)
  note d = sys_invD [OF store_inv [OF assms(1,2)]]
  assume "holder (db_tm (sy_db s)) k \<noteq> 0"
  from locks_ok_holder [OF d(2) this] ids_okD(3) [OF d(1)] assms(3) show False by fastforce
qed

text \<open>The sample row, and the row that overwrites it.\<close>

definition index_entry :: "char \<Rightarrow> string" where
  "index_entry c = ''index:t:i:'' @ [c] @ '':1''"

definition insert_row :: "char \<Rightarrow> InsertIntoTable" where
  "insert_row c = \<lparr>it_TableName = ''t'', it_ColumnValues = [''1'', [c]]\<rparr>"

lemma row_fits:
  fixes c :: char
  assumes "length buf = 10" "mt_size (db_memTable (sy_db s)) \<le> 100"
  defines "txn \<equiv> write_txn (sy_db s) (insert_writes ''t:1'' buf [index_entry c])"
  shows "commit_fits list_btree sorted_range sorted_range s txn"
    "\<not> ShouldFlush (committed_memtable list_btree sorted_range txn (sy_db s))"
    "mt_size (committed_memtable list_btree sorted_range txn (sy_db s)) \<le> mt_size (db_memTable (sy_db s)) + 27"
proof -
  have "index_entry c < ''t:1''" by (simp add: index_entry_def)
  then have r: "sorted_range (bufferedWriteMap txn) = [(index_entry c, ''''), (''t:1'', buf)]"
    using sorted_range_upd2 [of "index_entry c" "''t:1''" "''''" buf]
    by (simp add: txn_def write_txn_def insert_writes_def fun_upd_twist index_entry_def)
  then show le: "mt_size (committed_memtable list_btree sorted_range txn (sy_db s)) \<le> mt_size (db_memTable (sy_db s)) + 27"
    using mt_size_Puts_le [of list_btree "db_memTable (sy_db s)" "commit_puts (txn_id txn, sorted_range (bufferedWriteMap txn))"] assms(1)
    by (simp add: committed_memtable_def commit_puts_def index_entry_def)
  then show nf: "\<not> ShouldFlush (committed_memtable list_btree sorted_range txn (sy_db s))"
    using assms(2) by (simp add: ShouldFlush_def memtableSizeLimit_def)
  show "commit_fits list_btree sorted_range sorted_range s txn"
    using assms(1) nf r by (simp add: commit_fits_def payload_fits_def commit_payload_def index_entry_def
        serialiseTransactionCommitPayload_eq enc_kv_def CmdTransaction_def Let_def)
qed

lemma row_accepted: "\<exists>buf. length buf = 10 \<and> accepted indexed_table (insert_row c) ''t:1'' buf [index_entry c]"
  by (simp add: accepted_def indexed_table_def insert_row_def serialiseInsertIntoTableInput_def index_entry_def
      serialiseValue_def rowKey_def getIndexAndPrimaryKeyColumnValuesInIndexSequence_def getSecondaryIndexKeyOrPrefix_def)

lemma insert_row_run:
  assumes reach: "store_reachable sample_env s" and db: "sq_db db = sy_db s"
    and table: "tableNameVsSchemaMap db ''t'' = Some indexed_table"
    and idle: "activeTransactionsMap (db_tm (sy_db s)) = {}" "nextTransactionId (db_tm (sy_db s)) + 1 \<noteq> 0"
    and small: "mt_size (db_memTable (sy_db s)) \<le> 100"
  obtains s' :: "entry_tree sys" and db' buf where
    "insertIntoTable sample_env IoOk db (insert_row c) = (Ok (), db')" "store_reachable sample_env s'" "sq_db db' = sy_db s'"
    "tableNameVsSchemaMap db' ''t'' = Some indexed_table"
    "set (versions list_btree s') = set (versions list_btree s) \<union>
      {mk_entry ''t:1'' buf (nextTransactionId (db_tm (sy_db s))), mk_entry (index_entry c) '''' (nextTransactionId (db_tm (sy_db s)))}"
    "activeTransactionsMap (db_tm (sy_db s')) = {}" "nextTransactionId (db_tm (sy_db s')) = nextTransactionId (db_tm (sy_db s)) + 1"
    "mt_size (db_memTable (sy_db s')) \<le> mt_size (db_memTable (sy_db s)) + 27" "sy_hist s' = sy_hist s"
    "decodeRow sample_env db' ''t'' buf = Ok [''1'', [c]]"
proof -
  obtain buf where buf: "length buf = 10" "accepted indexed_table (insert_row c) ''t:1'' buf [index_entry c]"
    using row_accepted by blast
  have ne: "''t:1'' \<notin> set [index_entry c]" by (simp add: index_entry_def)
  have acc: "accepted (schema_of db (it_TableName (insert_row c))) (insert_row c) ''t:1'' buf [index_entry c]"
    using buf(2) table by (simp add: schema_of_def insert_row_def)
  have free: "\<forall>k \<in> insert ''t:1'' (set [index_entry c]). holder (db_tm (sy_db s)) k = 0"
    using holder_idle [OF sample_env_ok reach idle(1)] by blast
  have env: "en_bt sample_env = list_btree" "en_rngW sample_env = sorted_range" "en_rngM sample_env = sorted_range"
    by (simp_all add: sample_env_def)
  note fits = row_fits [OF buf(1) small, of c]
  from insert_run [OF sample_env_ok reach db acc free idle(2), unfolded env, OF fits(1)] fits(2)
  obtain s' :: "entry_tree sys" and db' where r: "insertIntoTable sample_env IoOk db (insert_row c) = (Ok (), db')"
    "(store_step sample_env)\<^sup>*\<^sup>* s s'" "sq_db db' = sy_db s'" "tableNameVsSchemaMap db' = tableNameVsSchemaMap db"
    "set (versions list_btree s') = set (versions list_btree s) \<union>
      writes_of (write_txn (sy_db s) (insert_writes ''t:1'' buf [index_entry c]))"
    "nextTransactionId (db_tm (sy_db s')) = nextTransactionId (db_tm (sy_db s)) + 1"
    "activeTransactionsMap (db_tm (sy_db s')) = activeTransactionsMap (db_tm (sy_db s))"
    "db_memTable (sy_db s') = committed_memtable list_btree sorted_range
      (write_txn (sy_db s) (insert_writes ''t:1'' buf [index_entry c])) (sy_db s)" "sy_hist s' = sy_hist s" by (metis env)
  have "set (versions list_btree s') = set (versions list_btree s) \<union>
      {mk_entry ''t:1'' buf (nextTransactionId (db_tm (sy_db s))), mk_entry (index_entry c) '''' (nextTransactionId (db_tm (sy_db s)))}"
    unfolding r(5) writes_of_insert [OF ne] by auto
  moreover have "decodeRow sample_env db' ''t'' buf = Ok [''1'', [c]]"
    using deserializeRowValues_serialised [of indexed_table "insert_row c" "''t:1''" buf 0] buf table
    by (simp add: decodeRow_def schema_of_def r(4) accepted_def sample_env_def indexed_table_def normal_form_def insert_row_def)
  ultimately show thesis
    using that [OF r(1) reachable_steps [OF reach r(2)] r(3)] r(4,6-9) table idle(1) fits(3) by simp
qed

text \<open>The state after the row and the one that overwrites it, and what a reader finds there.\<close>

definition overwritten :: "entry_tree sys \<Rightarrow> entry_tree sqldb \<Rightarrow> bool" where
  "overwritten s db \<longleftrightarrow> store_reachable sample_env s \<and> sq_db db = sy_db s \<and>
     tableNameVsSchemaMap db ''t'' = Some indexed_table \<and> sy_hist s = [] \<and>
     (\<exists>buf1 buf2. decodeRow sample_env db ''t'' buf2 = Ok [''1'', ''b''] \<and>
       set (versions list_btree s) = {mk_entry ''t:1'' buf1 1, mk_entry (index_entry CHR ''a'') '''' 1,
         mk_entry ''t:1'' buf2 2, mk_entry (index_entry CHR ''b'') '''' 2})"

lemma overwriting_run:
  obtains s db1 db2 where "insertIntoTable sample_env IoOk sample_db (insert_row CHR ''a'') = (Ok (), db1)"
    "insertIntoTable sample_env IoOk db1 (insert_row CHR ''b'') = (Ok (), db2)" "overwritten s db2"
proof -
  let ?s0 = sample_sys0
  have init: "sq_db sample_db = sy_db ?s0" "tableNameVsSchemaMap sample_db ''t'' = Some indexed_table"
    "activeTransactionsMap (db_tm (sy_db ?s0)) = {}" "nextTransactionId (db_tm (sy_db ?s0)) + 1 \<noteq> 0" "mt_size (db_memTable (sy_db ?s0)) \<le> 100"
    by (simp_all add: sample_simps sample_sys0_def sys_init_def NewMemtable_def)
  have zero: "versions list_btree ?s0 = []" "nextTransactionId (db_tm (sy_db ?s0)) = 1" "mt_size (db_memTable (sy_db ?s0)) = 0" "sy_hist ?s0 = []"
    by (simp_all add: sample_sys0_tm versions_def) (simp add: sample_sys0_def sys_init_def NewMemtable_def)
  from insert_row_run [OF sample_sys0_reachable init, of "CHR ''a''", unfolded zero]
  obtain s1 :: "entry_tree sys" and db1 buf1 where 1: "insertIntoTable sample_env IoOk sample_db (insert_row CHR ''a'') = (Ok (), db1)"
    "store_reachable sample_env s1" "sq_db db1 = sy_db s1" "tableNameVsSchemaMap db1 ''t'' = Some indexed_table"
    "set (versions list_btree s1) = {mk_entry ''t:1'' buf1 1, mk_entry (index_entry CHR ''a'') '''' 1}"
    "activeTransactionsMap (db_tm (sy_db s1)) = {}" "nextTransactionId (db_tm (sy_db s1)) = 2"
    "mt_size (db_memTable (sy_db s1)) \<le> 27" "sy_hist s1 = []"
    by (metis (no_types) Un_empty_left add_0 list.set(1) one_add_one)
  have "nextTransactionId (db_tm (sy_db s1)) + 1 \<noteq> 0" "mt_size (db_memTable (sy_db s1)) \<le> 100" using 1(7,8) by simp_all
  from insert_row_run [OF 1(2-4,6) this, of "CHR ''b''"]
  obtain s2 :: "entry_tree sys" and db2 buf2 where 2: "insertIntoTable sample_env IoOk db1 (insert_row CHR ''b'') = (Ok (), db2)"
    "store_reachable sample_env s2" "sq_db db2 = sy_db s2" "tableNameVsSchemaMap db2 ''t'' = Some indexed_table"
    "set (versions list_btree s2) = set (versions list_btree s1) \<union> {mk_entry ''t:1'' buf2 2, mk_entry (index_entry CHR ''b'') '''' 2}"
    "sy_hist s2 = []" "decodeRow sample_env db2 ''t'' buf2 = Ok [''1'', ''b'']"
    unfolding 1(7,9) by metis
  have "set (versions list_btree s2) = {mk_entry ''t:1'' buf1 1, mk_entry (index_entry CHR ''a'') '''' 1,
      mk_entry ''t:1'' buf2 2, mk_entry (index_entry CHR ''b'') '''' 2}"
    using 1(5) 2(5) by auto
  with 2 have "overwritten s2 db2" unfolding overwritten_def by blast
  with 1(1) 2(1) show thesis by (rule that)
qed

lemma overwrittenD:
  fixes s :: "entry_tree sys"
  assumes "overwritten s db"
  defines "l \<equiv> \<lambda>k. latest_version k (- 1) {} (versions list_btree s)"
  shows "store_reachable sample_env s" "sq_db db = sy_db s" "schema_of db ''t'' = indexed_table"
    "mt_entries list_btree (db_memTable (sy_db s)) = versions list_btree s"
    "e \<in> set (versions list_btree s) \<Longrightarrow> Key e \<in> {''t:1'', index_entry CHR ''a'', index_entry CHR ''b''}"
    "l k \<noteq> None \<longleftrightarrow> k \<in> {''t:1'', index_entry CHR ''a'', index_entry CHR ''b''}"
    "\<exists>e. l ''t:1'' = Some e \<and> decodeRow sample_env db ''t'' (Value e) = Ok [''1'', ''b'']"
proof -
  let ?es = "versions list_btree s" and ?a = "index_entry CHR ''a''" and ?b = "index_entry CHR ''b''"
  show r: "store_reachable sample_env s" "sq_db db = sy_db s" "schema_of db ''t'' = indexed_table"
    "mt_entries list_btree (db_memTable (sy_db s)) = ?es"
    using assms(1) by (simp_all add: overwritten_def schema_of_def versions_def)
  obtain buf1 buf2 where es: "set ?es = {mk_entry ''t:1'' buf1 1, mk_entry ?a '''' 1, mk_entry ''t:1'' buf2 2, mk_entry ?b '''' 2}"
    and row: "decodeRow sample_env db ''t'' buf2 = Ok [''1'', ''b'']"
    using assms(1) by (auto simp: overwritten_def)
  show "e \<in> set ?es \<Longrightarrow> Key e \<in> {''t:1'', ?a, ?b}" by (auto simp: es)
  show "l k \<noteq> None \<longleftrightarrow> k \<in> {''t:1'', ?a, ?b}" by (auto simp: l_def latest_version_None es visible_max)
  have "unique_versions ?es"
    using sys_invD(3) [OF store_inv [OF sample_env_ok r(1)]] by (simp add: versions_ok_def sample_env_def)
  moreover have "?a \<noteq> ''t:1''" "?b \<noteq> ''t:1''" by (simp_all add: index_entry_def)
  ultimately have "l ''t:1'' = Some (mk_entry ''t:1'' buf2 2)"
    unfolding l_def by (intro latest_versionI) (auto simp: es visible_max)
  with row show "\<exists>e. l ''t:1'' = Some e \<and> decodeRow sample_env db ''t'' (Value e) = Ok [''1'', ''b'']" by simp
qed

lemma sample_reader_fields:
  "txn_id sample_reader = - 1" "activeTransactionsSnapshot sample_reader = {}" "bufferedWriteMap sample_reader = Map.empty"
  "en_bt sample_env = list_btree" "en_rngS sample_env = sorted_list_of_set"
  by (simp_all add: sample_reader_def sample_env_def)

lemma stale_lookup:
  fixes s :: "entry_tree sys"
  assumes "overwritten s db"
  shows "getQueryResultFromSecondaryIndexIfApplicable sample_env sample_reader db ''t'' sample_query indexed_table = Ok [[''1'', ''b'']]"
proof -
  note o = overwrittenD [OF assms] and r = sample_reader_fields
  let ?P = "getSecondaryIndexKeyOrPrefix ''t'' ''i'' [''a''] ''''"
  have bound: "\<forall>x \<le> sy_bound s. visible (- 1) {} x" by (simp add: visible_max)
  obtain e where e: "latest_version ''t:1'' (- 1) {} (versions list_btree s) = Some e"
    "decodeRow sample_env db ''t'' (Value e) = Ok [''1'', ''b'']" using o(7) by blast
  have "getRowForPrimaryKey sample_env sample_reader db ''t'' ''1'' = Ok [''1'', ''b'']"
    by (simp add: getRowForPrimaryKey_def txn_Get_def r o(2,4) getWithSnapshot_def Memtable_Get_eq [OF list_btree_ok] e rowKey_def)
  moreover have "\<forall>e \<in> set (versions list_btree s). Key e \<noteq> ?P"
    using o(5) by (fastforce simp: getSecondaryIndexKeyOrPrefix_def index_entry_def)
  moreover have "{k. prefix ?P k \<and> latest_version k (- 1) {} (versions list_btree s) \<noteq> None} = {index_entry CHR ''a''}"
    unfolding o(6) by (auto simp: getSecondaryIndexKeyOrPrefix_def index_entry_def)
  moreover have "lastElement (index_entry CHR ''a'') = ''1''" by (simp add: lastElement_def index_entry_def)
  ultimately show ?thesis
    using secondaryIndexPrefixScan_eq [OF sample_env_ok o(1,2) bound, of ?P]
    by (simp add: getQueryResultFromSecondaryIndexIfApplicable_def sample_choice r allColumnsCoveredBySecondaryIndex_def)
      (simp add: sample_query_def indexCoveredColValues_def)
qed

lemma fresh_scan:
  fixes s :: "entry_tree sys"
  assumes "overwritten s db"
  shows "runFullTableScanAndFilterConditions sample_env sample_reader db ''t'' sample_query = Ok []"
proof -
  note o = overwrittenD [OF assms] and r = sample_reader_fields
  let ?l = "\<lambda>k. latest_version k (- 1) {} (versions list_btree s)"
  have bound: "\<forall>x \<le> sy_bound s. visible (- 1) {} x" by (simp add: visible_max)
  obtain e where e: "?l ''t:1'' = Some e" "decodeRow sample_env db ''t'' (Value e) = Ok [''1'', ''b'']" using o(7) by blast
  have no_key: "\<forall>e \<in> set (versions list_btree s). Key e \<noteq> ''t'' @ '':''" using o(5) by (fastforce simp: index_entry_def)
  have keys: "{k. prefix (''t'' @ '':'') k \<and> ?l k \<noteq> None} = {''t:1''}" unfolding o(6) by (auto simp: index_entry_def)
  have "\<forall>f \<in> set (sy_hist s). \<forall>e \<in> set (mt_entries (en_bt sample_env) (db_memTable (sy_db s))). Key e = Key f \<longrightarrow> TxnId f \<le> TxnId e"
    using assms by (simp add: overwritten_def)
  from fullTableScan_eq [OF sample_env_ok o(1,2) bound no_key [folded r(4)] this, unfolded r(4) keys] obtain ks where
    "distinct ks" "set ks = {''t:1''}" "fullTableScan sample_env db ''t'' (- 1) {} =
      collect (\<lambda>k. decodeRow sample_env db ''t'' (Value (the (?l k)))) ks" by blast
  moreover from this(1,2) have "ks = [''t:1'']" by (rule distinct_set_singleton)
  ultimately have "fullTableScan sample_env db ''t'' (- 1) {} = Ok [[''1'', ''b'']]" by (simp add: e)
  then show ?thesis
    by (simp add: runFullTableScanAndFilterConditions_def r sample_query_def getColPositionFromColName_def o(3) indexed_table_def
        isQueryConditionApplicable_def)
qed

text \<open>
  C17. Two rows are inserted under the same key, and the query asks for the value of the first: the filtered scan finds no
  row, the index finds the second row, which does not satisfy the query.
\<close>

theorem stale_index_entry:
  "\<exists>db1 db2. insertIntoTable sample_env IoOk sample_db (insert_row CHR ''a'') = (Ok (), db1) \<and>
    insertIntoTable sample_env IoOk db1 (insert_row CHR ''b'') = (Ok (), db2) \<and>
    getQueryResultFromSecondaryIndexIfApplicable sample_env sample_reader db2 ''t'' sample_query indexed_table = Ok [[''1'', ''b'']] \<and>
    runFullTableScanAndFilterConditions sample_env sample_reader db2 ''t'' sample_query = Ok []"
  using overwriting_run stale_lookup fresh_scan by metis

end
