(* ===== verification/Shell.thy ===== *)
theory Shell
  imports SqlSelect
begin

text \<open>
  The interactive loop of \<open>main.go\<close>: lines are read from standard input, split at spaces into a command and its
  arguments, and handed to the operations of the database. A reply stands for the line that is printed;
  the texts of the messages are not modelled. \<open>SELECT\<close> never reaches the database.
\<close>

section \<open>Lines and arguments\<close>

text \<open>
  The lines that a \<open>bufio.Scanner\<close> with its default buffer yields: a carriage return before the newline is
  dropped, and a line of 64 KB or more ends the scan.
\<close>

definition maxLine :: nat where
  "maxLine = 65536"

definition dropCR :: "string \<Rightarrow> string" where
  "dropCR l = (if l \<noteq> [] \<and> last l = CHR 0x0D then butlast l else l)"

function scan_lines :: "string \<Rightarrow> string list" where
  "scan_lines s =
     (if s = [] then []
      else
        let l = takeWhile (\<lambda>c. c \<noteq> CHR 0x0A) s in
        if maxLine \<le> length l then []
        else dropCR l # scan_lines (drop (length l + 1) s))"
  by pat_completeness auto
termination
  by (relation "measure length") auto

declare scan_lines.simps [simp del]

text \<open>\<open>strings.SplitN\<close> with a separator of one character: at most \<open>n\<close> parts, the last one unsplit.\<close>

fun splitN :: "char \<Rightarrow> nat \<Rightarrow> string \<Rightarrow> string list" where
  "splitN sep 0 s = []"
| "splitN sep (Suc 0) s = [s]"
| "splitN sep (Suc (Suc n)) s =
     (if sep \<in> set s
      then takeWhile (\<lambda>c. c \<noteq> sep) s # splitN sep (Suc n) (tl (dropWhile (\<lambda>c. c \<noteq> sep) s))
      else [s])"

section \<open>Commands\<close>

datatype command_error =
    GetExpectsOneArgument
  | PutExpectsTwoArguments
  | NoValueFound string
  | NoValueFoundError string go_error
  | SomethingWentWrong go_error
  | DatabaseError go_error
  | NotImplemented

text \<open>What a command returns: a value, an error, or a run-time panic that ends the program.\<close>

datatype 'a command_result = Done 'a | Failed command_error | Crashed

definition cmdGet :: "'t env \<Rightarrow> 't sqldb \<Rightarrow> string list \<Rightarrow> string command_result \<times> 't sqldb" where
  "cmdGet en db args =
     (if length args \<noteq> 2 then (Failed GetExpectsOneArgument, db)
      else
        let key = args ! 1 in
        case db_Get (en_bt en) (sq_db db) key of
          (Err er, d) \<Rightarrow> (Failed (NoValueFoundError key er), db\<lparr>sq_db := d\<rparr>)
        | (Panic, d) \<Rightarrow> (Crashed, db\<lparr>sq_db := d\<rparr>)
        | (Ok value, d) \<Rightarrow> (if value = '''' then Failed (NoValueFound key) else Done value, db\<lparr>sq_db := d\<rparr>))"

definition cmdPut :: "'t env \<Rightarrow> io_outcome \<Rightarrow> 't sqldb \<Rightarrow> string list \<Rightarrow> unit command_result \<times> 't sqldb" where
  "cmdPut en io db args =
     (if length args \<noteq> 3 then (Failed PutExpectsTwoArguments, db)
      else
        case sq_Put en io db (args ! 1) (args ! 2) of
          (Err er, db) \<Rightarrow> (Failed (SomethingWentWrong er), db)
        | (Panic, db) \<Rightarrow> (Crashed, db)
        | (Ok _, db) \<Rightarrow> (Done (), db))"

definition of_result :: "unit result \<Rightarrow> unit command_result" where
  "of_result r = (case r of Ok _ \<Rightarrow> Done () | Err er \<Rightarrow> Failed (DatabaseError er) | Panic \<Rightarrow> Crashed)"

definition cmdCreateTable ::
  "unicode \<Rightarrow> 't env \<Rightarrow> io_outcome \<times> io_outcome \<times> io_outcome \<Rightarrow> 't sqldb \<Rightarrow> string \<Rightarrow> unit command_result \<times> 't sqldb" where
  "cmdCreateTable u en ios db query = apfst of_result (db_CreateTable u en ios db query)"

text \<open>\<open>None\<close>: the parser does not return.\<close>

definition cmdInsertIntoTable ::
  "unicode \<Rightarrow> 't env \<Rightarrow> io_outcome \<Rightarrow> 't sqldb \<Rightarrow> string \<Rightarrow> (unit command_result \<times> 't sqldb) option" where
  "cmdInsertIntoTable u en io db query = map_option (apfst of_result) (db_InsertIntoTable u en io db query)"

definition cmdSelectFromTable :: "'t sqldb \<Rightarrow> string \<Rightarrow> unit command_result \<times> 't sqldb" where
  "cmdSelectFromTable db query = (Failed NotImplemented, db)"

section \<open>The loop\<close>

datatype reply =
    GetReturned string string
  | GetFailed command_error
  | PutReply "unit command_result"
  | CreateReply "unit command_result"
  | InsertReply "unit command_result"
  | SelectReply "unit command_result"
  | CommandNotSupported

text \<open>What a line does: the loop goes on with a reply, or it ends, or the program hangs or dies.\<close>

datatype 't line_result = Goes_on reply "'t sqldb" | Exits | Hangs | Dies

definition replies :: "(unit command_result \<Rightarrow> reply) \<Rightarrow> unit command_result \<times> 't sqldb \<Rightarrow> 't line_result" where
  "replies f r = (case r of (Crashed, _) \<Rightarrow> Dies | (r, db) \<Rightarrow> Goes_on (f r) db)"

text \<open>The outcomes of the log writes of the line are arguments; \<open>PUT\<close> and \<open>INSERT\<close> use the first.\<close>

definition runLine ::
  "unicode \<Rightarrow> 't env \<Rightarrow> io_outcome \<times> io_outcome \<times> io_outcome \<Rightarrow> 't sqldb \<Rightarrow> string \<Rightarrow> 't line_result" where
  "runLine u en ios db line =
     (let args = splitN CHR '' '' 3 line; cmd = args ! 0 in
      if cmd = ''GET'' then
        (case cmdGet en db args of
           (Done value, db) \<Rightarrow> Goes_on (GetReturned (args ! 1) value) db
         | (Failed er, db) \<Rightarrow> Goes_on (GetFailed er) db
         | (Crashed, _) \<Rightarrow> Dies)
      else if cmd = ''PUT'' then replies PutReply (cmdPut en (fst ios) db args)
      else if cmd = ''CREATE'' then
        if 1 < length args \<and> args ! 1 = ''TABLE''
        then replies CreateReply (cmdCreateTable u en ios db line)
        else Goes_on CommandNotSupported db
      else if cmd = ''INSERT'' then
        (case cmdInsertIntoTable u en (fst ios) db line of
           None \<Rightarrow> Hangs
         | Some r \<Rightarrow> replies InsertReply r)
      else if cmd = ''SELECT'' then
        if 1 < length args \<and> args ! 1 = ''TABLE''
        then replies SelectReply (cmdSelectFromTable db line)
        else Goes_on CommandNotSupported db
      else if cmd = ''EXIT'' then Exits
      else Goes_on CommandNotSupported db)"

datatype ending = Exited | EndOfInput | Hung | Died

text \<open>The loop over the lines, each with the outcomes of its log writes.\<close>

fun runLines ::
  "unicode \<Rightarrow> 't env \<Rightarrow> (nat \<Rightarrow> io_outcome \<times> io_outcome \<times> io_outcome) \<Rightarrow> 't sqldb \<Rightarrow> string list \<Rightarrow>
   reply list \<times> ending \<times> 't sqldb" where
  "runLines u en ios db [] = ([], EndOfInput, db)"
| "runLines u en ios db (line # lines) =
     (case runLine u en (ios 0) db line of
        Goes_on reply db \<Rightarrow> apfst ((#) reply) (runLines u en (\<lambda>n. ios (Suc n)) db lines)
      | Exits \<Rightarrow> ([], Exited, db)
      | Hangs \<Rightarrow> ([], Hung, db)
      | Dies \<Rightarrow> ([], Died, db))"

definition mainLoop ::
  "unicode \<Rightarrow> 't env \<Rightarrow> (nat \<Rightarrow> io_outcome \<times> io_outcome \<times> io_outcome) \<Rightarrow> 't sqldb \<Rightarrow> string \<Rightarrow>
   reply list \<times> ending \<times> 't sqldb" where
  "mainLoop u en ios db stdin = runLines u en ios db (scan_lines stdin)"

text \<open>
  The program on the files of its directory: the database is opened with the zero value of its configuration,
  and an error there is fatal. The log write of the transaction that reads the catalog has an outcome too.
\<close>

definition zeroConfig :: SsTableConfig where
  "zeroConfig = \<lparr>cfg_DataFilesDirectory = '''', cfg_BlockLength = 0, cfg_SkipIndex = False\<rparr>"

definition main_go ::
  "unicode \<Rightarrow> 't env \<Rightarrow> io_outcome \<Rightarrow> (nat \<Rightarrow> io_outcome \<times> io_outcome \<times> io_outcome) \<Rightarrow> (string \<rightharpoonup> bytes) \<Rightarrow> disk \<Rightarrow>
   string \<Rightarrow> (reply list \<times> ending \<times> 't sqldb) result" where
  "main_go u en io ios walFiles d stdin =
     rbind (NewDB en io walFiles d '''' zeroConfig) (\<lambda>db. Ok (mainLoop u en ios db stdin))"

end
