(* ===== verification/ShellProps.thy ===== *)
theory ShellProps
  imports SqlScan Shell
begin

text \<open>
  What a session promises: a value that was put is read back, in the same session and after a crash; and where the
  loop ends, hangs, or drops what the user typed.
\<close>

section \<open>Arguments\<close>

lemma splitN_no_sep: "sep \<notin> set s \<Longrightarrow> splitN sep (Suc n) s = [s]"
  by (cases n) simp_all

lemma splitN_sep: "sep \<notin> set x \<Longrightarrow> splitN sep (Suc (Suc n)) (x @ sep # s) = x # splitN sep (Suc n) s"
proof -
  assume x: "sep \<notin> set x"
  then have "takeWhile (\<lambda>c. c \<noteq> sep) (x @ sep # s) = x" "dropWhile (\<lambda>c. c \<noteq> sep) (x @ sep # s) = sep # s"
    by (induction x) auto
  then show ?thesis by simp
qed

definition space_free :: "string \<Rightarrow> bool" where
  "space_free s \<longleftrightarrow> CHR '' '' \<notin> set s"

lemma get_args: "space_free k \<Longrightarrow> splitN CHR '' '' 3 (''GET '' @ k) = [''GET'', k]"
  using splitN_sep [of "CHR '' ''" "''GET''" 1 k] splitN_no_sep [of "CHR '' ''" k 1]
  by (simp add: space_free_def eval_nat_numeral)

lemma put_args: "space_free k \<Longrightarrow> splitN CHR '' '' 3 (''PUT '' @ k @ '' '' @ v) = [''PUT'', k, v]"
  using splitN_sep [of "CHR '' ''" "''PUT''" 1 "k @ '' '' @ v"] splitN_sep [of "CHR '' ''" k 0 v]
  by (simp add: space_free_def eval_nat_numeral)

section \<open>GET and PUT\<close>

lemma get_line:
  assumes "env_ok en" "holds (en_bt en) (sq_db db) k v" "v \<noteq> ''''" "space_free k"
  shows "\<exists>db'. runLine u en ios db (''GET '' @ k) = Goes_on (GetReturned k v) db'"
proof -
  have "fst (db_Get (en_bt en) (sq_db db) k) = Ok v"
    using holds_get [OF runtime_okD(1) [OF env_okD(1) [OF assms(1)]] assms(2)]
    by (simp add: db_Get_def db_Begin_eq)
  then obtain d where "db_Get (en_bt en) (sq_db db) k = (Ok v, d)" by (metis prod.collapse)
  with assms(3) get_args [OF assms(4)] show ?thesis
    by (simp add: runLine_def cmdGet_def Let_def)
qed

lemma put_line:
  assumes "sq_Put en io db k v = (Ok (), db')" "space_free k" "fst ios = io"
  shows "runLine u en ios db (''PUT '' @ k @ '' '' @ v) = Goes_on (PutReply (Done ())) db'"
  using assms put_args [OF assms(2), of v] by (simp add: runLine_def cmdPut_def replies_def Let_def)

section \<open>Opening the database again\<close>

lemma holds_mono:
  assumes "holds bt db k v" "mt_entries bt (db_memTable db') = mt_entries bt (db_memTable db)"
    and "\<forall>e \<in> set (mt_entries bt (db_memTable db)). TxnId e < nextTransactionId (db_tm db') \<and> TxnId e \<notin> activeTransactionsMap (db_tm db')"
  shows "holds bt db' k v"
  using assms unfolding holds_def by metis

text \<open>The transaction that reads the catalog leaves the memtable as it is, whether its log record is written or not.\<close>

lemma reload_keeps:
  assumes env: "env_ok en" and small: "\<not> ShouldFlush (db_memTable (sq_db db))" and next_id: "nextTransactionId (db_tm (sq_db db)) \<noteq> 0"
    and ok: "getTableNameVsSchemaMap en io db = (Ok m, db')"
  shows "db_memTable (sq_db db') = db_memTable (sq_db db)"
    "nextTransactionId (db_tm (sq_db db')) = nextTransactionId (db_tm (sq_db db)) + 1"
    "activeTransactionsMap (db_tm (sq_db db')) \<subseteq> insert (nextTransactionId (db_tm (sq_db db))) (activeTransactionsMap (db_tm (sq_db db)))"
proof -
  let ?bt = "en_bt en"
  obtain txn d where b: "db_Begin (sq_db db) = (txn, d)" by fastforce
  then have t: "txn = new_txn (db_tm (sq_db db))" "d = (sq_db db)\<lparr>db_tm := tm_begin (db_tm (sq_db db))\<rparr>" by (auto simp: db_Begin_eq)
  have own: "owns_locks txn (db_tm d)"
    using next_id by (auto simp: t owns_locks_def new_txn_def)
  have "en_rngM en Map.empty = []"
    using runtime_okD(3) [OF env_okD(1) [OF env]] unfolding range_order_def enumerates_def
    by (metis dom_empty finite.emptyI map_of_eq_empty_iff)
  then have "committed_memtable ?bt (en_rngM en) txn d = db_memTable (sq_db db)"
    by (simp add: committed_memtable_def t new_txn_def commit_puts_def Memtable_Puts_def)
  with small have committed: "committed ?bt (en_rngW en) (en_rngM en) txn d =
      d\<lparr>db_wal := snd (WriteEntry IoOk (db_wal d) (commit_payload (txn_id txn, en_rngW en (bufferedWriteMap txn))))\<rparr>"
    by (simp add: committed_def Let_def t)
  have "\<exists>r txn' db2. sq_Commit en io txn (db\<lparr>sq_db := d\<rparr>) = (r, txn', db2) \<and> r \<noteq> Panic \<and>
      db_memTable (sq_db db2) = db_memTable d \<and>
      nextTransactionId (db_tm (sq_db db2)) = nextTransactionId (db_tm d) \<and>
      activeTransactionsMap (db_tm (sq_db db2)) \<subseteq> activeTransactionsMap (db_tm d)"
  proof (cases io)
    case IoOk
    from txn_Commit_eq [OF own, of ?bt "en_rngA en" "en_rngW en" "en_rngM en"] obtain bnd where
      "txn_Commit ?bt (en_rngA en) (en_rngW en) (en_rngM en) IoOk txn d =
        (Ok bnd, ended txn, d\<lparr>db_wal := snd (WriteEntry IoOk (db_wal d) (commit_payload (txn_id txn, en_rngW en (bufferedWriteMap txn)))),
          db_tm := tm_end txn (db_tm d)\<rparr>)" unfolding committed by auto
    then show ?thesis
      unfolding IoOk sq_Commit_def by (simp add: tm_end_def)
  next
    case (IoFail n)
    show ?thesis
      unfolding IoFail sq_Commit_def by (simp add: txn_Commit_fail)
  qed
  then obtain r txn' db2 where c: "sq_Commit en io txn (db\<lparr>sq_db := d\<rparr>) = (r, txn', db2)" "r \<noteq> Panic"
    "db_memTable (sq_db db2) = db_memTable d" "nextTransactionId (db_tm (sq_db db2)) = nextTransactionId (db_tm d)"
    "activeTransactionsMap (db_tm (sq_db db2)) \<subseteq> activeTransactionsMap (db_tm d)" by blast
  have "db' = db2"
    using ok c(1,2) by (cases "readCatalog (txn_Get ?bt txn d)"; cases r)
      (simp_all add: getTableNameVsSchemaMap_def b Let_def)
  then show "db_memTable (sq_db db') = db_memTable (sq_db db)"
    "nextTransactionId (db_tm (sq_db db')) = nextTransactionId (db_tm (sq_db db)) + 1"
    "activeTransactionsMap (db_tm (sq_db db')) \<subseteq> insert (nextTransactionId (db_tm (sq_db db))) (activeTransactionsMap (db_tm (sq_db db)))"
    using c(3-5) by (simp_all add: t tm_begin_def)
qed

lemma reopen_holds:
  fixes db' :: "'t sqldb"
  assumes env: "env_ok en" and reach: "store_reachable en s"
    and open_db: "NewDB en io [defaultWalPath \<mapsto> f_content (wal_file (db_wal (sy_db s)))] (db_disk (sy_db s)) '''' config = Ok db'"
    and holds: "holds (en_bt en) (sy_db s) k v" and room: "room (sy_db s) 0"
    and next_id: "unat (nextTransactionId (db_tm (sy_db s))) + 1 < 2 ^ 64"
  shows "holds (en_bt en) (sq_db db') k v"
proof -
  let ?bt = "en_bt en" and ?w = "[defaultWalPath \<mapsto> f_content (wal_file (db_wal (sy_db s)))]"
  obtain m x where m: "fst (buildMemtableFromWal ?bt (openWal (f_content (wal_file (db_wal (sy_db s)))))) = Ok (m, x)"
    "mt_entries ?bt m = mt_entries ?bt (db_memTable (sy_db s))" "\<forall>e \<in> set (mt_entries ?bt m). TxnId e \<le> x"
    "x < nextTransactionId (db_tm (sy_db s))" "mt_size m = total_size (mt_entries ?bt m)"
    using recover_memtable [OF env_okD(1) [OF env] reach] by blast
  have "NewWal ?w '''' = openWal (f_content (wal_file (db_wal (sy_db s))))"
    by (simp add: NewWal_def openWal_def)
  with m(1) obtain w where w: "buildMemtableFromWal ?bt (NewWal ?w '''') = (Ok (m, x), w)"
    by (metis prod.collapse)
  from open_db obtain d where d': "openDB ?bt ?w (db_disk (sy_db s)) '''' config = Ok d"
    "(case getTableNameVsSchemaMap en io \<lparr>sq_db = d, tableNameVsSchemaMap = Map.empty, sq_started = []\<rparr> of
         (Ok m, db) \<Rightarrow> Ok (db\<lparr>tableNameVsSchemaMap := m\<rparr>) | (Err er, db) \<Rightarrow> Err er | (Panic, db) \<Rightarrow> Panic) = Ok db'"
    unfolding NewDB_def rbind_Ok_iff by blast
  from d'(1) w have d: "db_memTable d = m" "nextTransactionId (db_tm d) = x + 1" "activeTransactionsMap (db_tm d) = {}"
    by (auto simp: openDB_def rbind_Ok_iff)
  from d'(2) obtain mp db1 where
    reload: "getTableNameVsSchemaMap en io \<lparr>sq_db = d, tableNameVsSchemaMap = Map.empty, sq_started = []\<rparr> = (Ok mp, db1)"
      "sq_db db' = sq_db db1"
    by (auto split: prod.splits result.splits)
  have "unat x + 2 < 2 ^ 64"
    using m(4) next_id by (simp add: word_less_nat_alt)
  then have ids: "x + 1 \<noteq> 0" "x + 1 + 1 \<noteq> 0"
    using no_wrap [of x 1] no_wrap [of x 2] by (simp_all add: add.assoc)
  have later: "y < x + 1 + 1 \<and> y \<noteq> x + 1" if "y \<le> x" for y
    using that word_next [OF ids(1), of y] word_next [OF ids(2), of y] by auto
  have "mt_size m = mt_size (db_memTable (sy_db s))"
    using m(2,5) mt_size_reachable [OF env_okD(1) [OF env] reach] by simp
  with room have "\<not> ShouldFlush m" by (simp add: room_def ShouldFlush_def)
  with reload_keeps [OF env _ _ reload(1)] d ids(1) have keeps: "db_memTable (sq_db db') = m"
    "nextTransactionId (db_tm (sq_db db')) = x + 1 + 1" "activeTransactionsMap (db_tm (sq_db db')) \<subseteq> {x + 1}"
    by (auto simp: reload(2))
  show ?thesis
  proof (rule holds_mono [OF holds])
    show "mt_entries ?bt (db_memTable (sq_db db')) = mt_entries ?bt (db_memTable (sy_db s))" using keeps(1) m(2) by simp
    show "\<forall>e \<in> set (mt_entries ?bt (db_memTable (sy_db s))). TxnId e < nextTransactionId (db_tm (sq_db db')) \<and>
        TxnId e \<notin> activeTransactionsMap (db_tm (sq_db db'))"
      using m(2,3) keeps(2,3) later by fastforce
  qed
qed

section \<open>Sessions\<close>

text \<open>A line that the scanner yields as it was typed.\<close>

definition plain_line :: "string \<Rightarrow> bool" where
  "plain_line l \<longleftrightarrow> length l < maxLine \<and> CHR 0x0A \<notin> set l \<and> (l = [] \<or> last l \<noteq> CHR 0x0D)"

lemma scan_line:
  assumes "plain_line l"
  shows "scan_lines (l @ CHR 0x0A # s) = l # scan_lines s"
proof -
  have "takeWhile (\<lambda>c. c \<noteq> CHR 0x0A) (l @ CHR 0x0A # s) = l"
    using assms by (subst takeWhile_append2) (auto simp: plain_line_def)
  moreover have "dropCR l = l" using assms by (auto simp: plain_line_def dropCR_def)
  ultimately show ?thesis
    using assms by (subst scan_lines.simps) (simp add: plain_line_def Let_def)
qed

lemma scan_lines_plain: "\<forall>l \<in> set ls. plain_line l \<Longrightarrow> scan_lines (concat (map (\<lambda>l. l @ [CHR 0x0A]) ls)) = ls"
  by (induction ls) (simp_all add: scan_line scan_lines.simps [of "[]"])

text \<open>A line that is too long ends the loop without a message, with everything behind it.\<close>

lemma scan_line_too_long:
  "\<lbrakk>maxLine \<le> length l; CHR 0x0A \<notin> set l\<rbrakk> \<Longrightarrow> scan_lines (l @ CHR 0x0A # s) = []"
proof -
  assume l: "maxLine \<le> length l" "CHR 0x0A \<notin> set l"
  then have "takeWhile (\<lambda>c. c \<noteq> CHR 0x0A) (l @ CHR 0x0A # s) = l"
    by (subst takeWhile_append2) auto
  with l(1) show ?thesis by (subst scan_lines.simps) (simp add: Let_def)
qed

text \<open>
  C1. A value that is put is durable. In any state of the store, when the log can be written, the lock of the key
  is free and the memtable has room, the session \<open>PUT k v\<close>, \<open>GET k\<close> succeeds and returns the value; and if the
  program is killed after the \<open>PUT\<close> and started again on the files it left, \<open>GET k\<close> returns the value
  in the new session, if the database can be opened.
\<close>

theorem put_is_durable:
  fixes db :: "'t sqldb"
  assumes env: "env_ok en" and reach: "store_reachable en s" and db: "sq_db db = sy_db s"
    and free: "holder (db_tm (sy_db s)) k = 0" and ids: "unat (nextTransactionId (db_tm (sy_db s))) + 2 < 2 ^ 64"
    and room: "room (sy_db s) (length k + length v)" and log: "fst (ios 0) = IoOk"
    and args: "space_free k" "v \<noteq> ''''" "plain_line (''PUT '' @ k @ '' '' @ v)" "plain_line (''GET '' @ k)"
  defines "put \<equiv> ''PUT '' @ k @ '' '' @ v @ [CHR 0x0A]" and "get \<equiv> ''GET '' @ k @ [CHR 0x0A]"
  shows "\<exists>db1 db2. mainLoop u en ios db put = ([PutReply (Done ())], EndOfInput, db1) \<and>
    mainLoop u en ios db (put @ get) = ([PutReply (Done ()), GetReturned k v], EndOfInput, db2) \<and>
    (\<forall>u' io ios' db'. NewDB en io [defaultWalPath \<mapsto> f_content (wal_file (db_wal (sq_db db1)))] (db_disk (sq_db db1)) '''' zeroConfig = Ok db' \<longrightarrow>
      fst (mainLoop u' en ios' db' get) = [GetReturned k v])"
proof -
  let ?put = "''PUT '' @ k @ '' '' @ v" and ?get = "''GET '' @ k"
  have next_id: "nextTransactionId (db_tm (sy_db s)) + 1 \<noteq> 0" using no_wrap [of "nextTransactionId (db_tm (sy_db s))" 1] ids by simp
  have "room (sy_db s) (length k + length v + 0)" using room by simp
  from Put_run [OF env reach db free next_id this] obtain s1 :: "'t sys" and db1 where
    r: "sq_Put en IoOk db k v = (Ok (), db1)" "(store_step en)\<^sup>*\<^sup>* s s1" "sq_db db1 = sy_db s1" "room (sy_db s1) 0"
      "nextTransactionId (db_tm (sy_db s1)) = nextTransactionId (db_tm (sy_db s)) + 1"
      "holds (en_bt en) (sy_db s1) k v" by metis
  have line1: "runLine u en (ios 0) db ?put = Goes_on (PutReply (Done ())) db1"
    by (rule put_line [OF r(1) args(1) log])
  have get: "\<exists>d'. runLine u en i d ?get = Goes_on (GetReturned k v) d'" if "holds (en_bt en) (sq_db d) k v" for u i and d :: "'t sqldb"
    by (rule get_line [OF env that args(2,1)])
  then obtain db2 where line2: "runLine u en (ios 1) db1 ?get = Goes_on (GetReturned k v) db2"
    using r(3,6) by metis
  have lines: "scan_lines put = [?put]" "scan_lines get = [?get]" "scan_lines (put @ get) = [?put, ?get]"
    using scan_lines_plain [of "[?put]"] scan_lines_plain [of "[?get]"] scan_lines_plain [of "[?put, ?get]"] args(3,4)
    by (simp_all add: put_def get_def)
  have reach1: "store_reachable en s1" by (rule reachable_steps [OF reach r(2)])
  have "unat (nextTransactionId (db_tm (sy_db s1))) = unat (nextTransactionId (db_tm (sy_db s))) + 1"
    unfolding r(5) using unatSuc [of "nextTransactionId (db_tm (sy_db s))"] next_id by (simp add: add.commute)
  with ids have ids1: "unat (nextTransactionId (db_tm (sy_db s1))) + 1 < 2 ^ 64" by simp
  have "fst (mainLoop u' en ios' db' get) = [GetReturned k v]"
    if "NewDB en io [defaultWalPath \<mapsto> f_content (wal_file (db_wal (sq_db db1)))] (db_disk (sq_db db1)) '''' zeroConfig = Ok db'"
    for u' io ios' and db' :: "'t sqldb"
  proof -
    have "holds (en_bt en) (sq_db db') k v"
      by (rule reopen_holds [OF env reach1 that [unfolded r(3)] r(6,4) ids1])
    with get [of db' u' "ios' 0"] obtain d where "runLine u' en (ios' 0) db' ?get = Goes_on (GetReturned k v) d" by blast
    then show ?thesis by (simp only: mainLoop_def lines runLines.simps line_result.case apfst_conv fst_conv)
  qed
  moreover have "mainLoop u en ios db put = ([PutReply (Done ())], EndOfInput, db1)"
    by (simp only: mainLoop_def lines runLines.simps line1 line_result.case apfst_conv)
  moreover have "mainLoop u en ios db (put @ get) = ([PutReply (Done ()), GetReturned k v], EndOfInput, db2)"
    using line2 by (simp only: mainLoop_def lines runLines.simps line1 line_result.case apfst_conv One_nat_def)
  ultimately show ?thesis by blast
qed

text \<open>A database that has neither tables nor files can be opened.\<close>

lemma reopen_without_tables:
  assumes env: "env_ok en" and reach: "store_reachable en s"
    and st: "NewSsTable config (db_disk (sy_db s)) = Ok st" "firstLevelFiles st = []"
    and no_catalog: "\<forall>e \<in> set (mt_entries (en_bt en) (db_memTable (sy_db s))). Key e \<noteq> CatalogKey"
  shows "\<exists>db'. NewDB en io [defaultWalPath \<mapsto> f_content (wal_file (db_wal (sy_db s)))] (db_disk (sy_db s)) '''' config = Ok db'"
proof -
  let ?bt = "en_bt en" and ?w = "[defaultWalPath \<mapsto> f_content (wal_file (db_wal (sy_db s)))]"
  obtain m x where m: "fst (buildMemtableFromWal ?bt (openWal (f_content (wal_file (db_wal (sy_db s)))))) = Ok (m, x)"
    "mt_entries ?bt m = mt_entries ?bt (db_memTable (sy_db s))" "x < nextTransactionId (db_tm (sy_db s))"
    using recover_memtable [OF env_okD(1) [OF env] reach] by blast
  have "NewWal ?w '''' = openWal (f_content (wal_file (db_wal (sy_db s))))" by (simp add: NewWal_def openWal_def)
  with m(1) obtain w where w: "buildMemtableFromWal ?bt (NewWal ?w '''') = (Ok (m, x), w)" by (metis prod.collapse)
  obtain d where d: "openDB ?bt ?w (db_disk (sy_db s)) '''' config = Ok d" "db_memTable d = m" "db_ssTable d = st"
    "nextTransactionId (db_tm d) = x + 1" using w st(1) by (auto simp: openDB_def)
  let ?db = "\<lparr>sq_db = d, tableNameVsSchemaMap = Map.empty, sq_started = []\<rparr>"
  have "x \<noteq> - 1" using m(3) by auto
  then have next_id: "nextTransactionId (db_tm (sq_db ?db)) \<noteq> 0" using d(4) by (simp add: eq_neg_iff_add_eq_0)
  obtain txn d1 where b: "db_Begin (sq_db ?db) = (txn, d1)" by fastforce
  then have t: "bufferedWriteMap txn = Map.empty" "db_memTable d1 = m" "db_ssTable d1 = st" using d by (auto simp: db_Begin_eq new_txn_def)
  have "Memtable_Get ?bt m CatalogKey i a = ('''', False)" for i a
  proof -
    have "latest_version CatalogKey i a (mt_entries ?bt m) = None"
      using no_catalog m(2) by (auto simp: latest_version_None)
    then show ?thesis by (simp add: Memtable_Get_eq [OF runtime_okD(1) [OF env_okD(1) [OF env]]])
  qed
  then have "readCatalog (txn_Get ?bt txn d1) = Ok Map.empty"
    by (simp add: readCatalog_def txn_Get_def t getWithSnapshot_def SsTable_Get_def st(2))
  moreover from fresh_commit [OF next_id b]
  obtain r txn' db2 where "sq_Commit en io txn (?db\<lparr>sq_db := d1\<rparr>) = (r, txn', db2)" "r \<noteq> Panic" by blast
  ultimately obtain db2 where "getTableNameVsSchemaMap en io ?db = (Ok Map.empty, db2)"
    using b by (cases r) (auto simp: getTableNameVsSchemaMap_def)
  with d(1) show ?thesis by (auto simp: NewDB_def)
qed

theorem put_is_durable_witness:
  "\<forall>u. \<exists>db1 db2 db3. mainLoop u sample_env (\<lambda>_. (IoOk, IoOk, IoOk)) empty_db (''PUT k v'' @ [CHR 0x0A]) =
      ([PutReply (Done ())], EndOfInput, db1) \<and>
    mainLoop u sample_env (\<lambda>_. (IoOk, IoOk, IoOk)) empty_db (''PUT k v'' @ [CHR 0x0A] @ ''GET k'' @ [CHR 0x0A]) =
      ([PutReply (Done ()), GetReturned ''k'' ''v''], EndOfInput, db2) \<and>
    NewDB sample_env IoOk [defaultWalPath \<mapsto> f_content (wal_file (db_wal (sq_db db1)))] (db_disk (sq_db db1)) '''' zeroConfig = Ok db3 \<and>
    fst (mainLoop u sample_env (\<lambda>_. (IoOk, IoOk, IoOk)) db3 (''GET k'' @ [CHR 0x0A])) = [GetReturned ''k'' ''v'']"
proof (rule allI)
  fix u
  let ?i = "\<lambda>_ :: nat. (IoOk, IoOk, IoOk)" and ?put = "''PUT '' @ ''k'' @ '' '' @ ''v'' @ [CHR 0x0A]" and ?get = "''GET '' @ ''k'' @ [CHR 0x0A]"
  have free: "holder (db_tm (sy_db sample_sys0)) ''k'' = 0" by (rule sample_sys0_tm(1))
  have next_id: "nextTransactionId (db_tm (sy_db sample_sys0)) + 1 \<noteq> 0" "unat (nextTransactionId (db_tm (sy_db sample_sys0))) + 2 < 2 ^ 64"
    by (simp_all add: sample_sys0_tm)
  have room: "room (sy_db sample_sys0) (length ''k'' + length ''v'')" "room (sy_db sample_sys0) (length ''k'' + length ''v'' + 0)"
    by (simp_all add: room_def sample_sys0_def sys_init_def NewMemtable_def memtableSizeLimit_def)
  have args: "space_free ''k''" "''v'' \<noteq> ''''" "plain_line (''PUT '' @ ''k'' @ '' '' @ ''v'')" "plain_line (''GET '' @ ''k'')"
    by (simp_all add: space_free_def plain_line_def maxLine_def)
  from put_is_durable [OF sample_env_ok sample_sys0_reachable sample_created(2) free next_id(2) room(1) _ args, of ?i u]
  obtain db1 db2 where d: "mainLoop u sample_env ?i empty_db ?put = ([PutReply (Done ())], EndOfInput, db1)"
    "mainLoop u sample_env ?i empty_db (?put @ ?get) = ([PutReply (Done ()), GetReturned ''k'' ''v''], EndOfInput, db2)"
    "\<And>io ios' db'. NewDB sample_env io [defaultWalPath \<mapsto> f_content (wal_file (db_wal (sq_db db1)))] (db_disk (sq_db db1)) '''' zeroConfig = Ok db' \<Longrightarrow>
      fst (mainLoop u sample_env ios' db' ?get) = [GetReturned ''k'' ''v'']"
    by auto
  from Put_run [OF sample_env_ok sample_sys0_reachable sample_created(2) free next_id(1) room(2)]
  obtain s1 :: "entry_tree sys" and db1' where r: "sq_Put sample_env IoOk empty_db ''k'' ''v'' = (Ok (), db1')"
    "(store_step sample_env)\<^sup>*\<^sup>* sample_sys0 s1" "sq_db db1' = sy_db s1" "db_disk (sy_db s1) = db_disk (sy_db sample_sys0)"
    "set (mt_entries (en_bt sample_env) (db_memTable (sy_db s1))) = set (mt_entries (en_bt sample_env) (db_memTable (sy_db sample_sys0))) \<union>
      writes_of (write_txn (sy_db sample_sys0) [(''k'', ''v'')])" by metis
  have "scan_lines ?put = [''PUT '' @ ''k'' @ '' '' @ ''v'']" using scan_lines_plain [of "[''PUT '' @ ''k'' @ '' '' @ ''v'']"] args(3) by simp
  with put_line [OF r(1) args(1), of "?i 0"] d(1) have db1: "db1 = db1'"
    by (simp add: mainLoop_def)
  have "db_disk (sy_db s1) = disk_of ''d'' []" using r(4) by (simp add: sample_sys0_def sys_init_def)
  then obtain st where st: "NewSsTable zeroConfig (db_disk (sy_db s1)) = Ok st" "firstLevelFiles st = []"
    by (simp add: NewSsTable_def getDirectoryMetadata_def getManifest_def disk_of_def zeroConfig_def dataFilesDefaultDirectory_def
        manifestPath_def manifestJsonFileName_def Let_def)
  have "\<forall>e \<in> set (mt_entries (en_bt sample_env) (db_memTable (sy_db s1))). Key e \<noteq> CatalogKey"
    using r(5) by (auto simp: sample_env_def sample_sys0_tm writes_of_def write_txn_def CatalogKey_def mk_entry_def split: if_splits)
  from reopen_without_tables [OF sample_env_ok reachable_steps [OF sample_sys0_reachable r(2)] st this, of IoOk]
  obtain db3 where n: "NewDB sample_env IoOk [defaultWalPath \<mapsto> f_content (wal_file (db_wal (sq_db db1)))] (db_disk (sq_db db1)) '''' zeroConfig = Ok db3"
    unfolding db1 r(3) by blast
  show "\<exists>db1 db2 db3. mainLoop u sample_env ?i empty_db (''PUT k v'' @ [CHR 0x0A]) = ([PutReply (Done ())], EndOfInput, db1) \<and>
    mainLoop u sample_env ?i empty_db (''PUT k v'' @ [CHR 0x0A] @ ''GET k'' @ [CHR 0x0A]) =
      ([PutReply (Done ()), GetReturned ''k'' ''v''], EndOfInput, db2) \<and>
    NewDB sample_env IoOk [defaultWalPath \<mapsto> f_content (wal_file (db_wal (sq_db db1)))] (db_disk (sq_db db1)) '''' zeroConfig = Ok db3 \<and>
    fst (mainLoop u sample_env ?i db3 (''GET k'' @ [CHR 0x0A])) = [GetReturned ''k'' ''v'']"
    by (rule exI [of _ db1], rule exI [of _ db2], rule exI [of _ db3])
      (use d(1,2) d(3) [OF n] n in simp)
qed

text \<open>\<open>SELECT\<close> never reaches the database: its line is refused, or answered as not implemented.\<close>

lemma select_not_reached:
  assumes "splitN CHR '' '' 3 line ! 0 = ''SELECT''"
  shows "runLine u en ios db line = Goes_on CommandNotSupported db \<or>
    runLine u en ios db line = Goes_on (SelectReply (Failed NotImplemented)) db"
  using assms by (simp add: runLine_def cmdSelectFromTable_def replies_def Let_def)

end
