(* ===== verification/SsTableLinear.thy ===== *)
theory SsTableLinear
  imports SsTable
begin

text \<open>
  The lookup without an index, which tables opened with \<open>SkipIndex\<close> use (\<open>linearSearch\<close> of \<open>sstable.go\<close>). It reads a
  file through the handle that the writer left at the end of the file, and expects lines of three words. The
  position of every handle is part of the state.
\<close>

fun linearSearch_entries :: "string \<Rightarrow> string list \<Rightarrow> string result" where
  "linearSearch_entries key [] = Ok ''''"
| "linearSearch_entries key (payload # entries) =
     (let cmds = split_on CHR '' '' payload in
      if length cmds \<le> 1 then Panic
      else if cmds ! 1 = key then if length cmds \<le> 2 then Panic else Ok (cmds ! 2)
      else linearSearch_entries key entries)"

text \<open>One read into a buffer of the size of the file; what it does not fill stays zero.\<close>

definition linearSearchFile :: "bytes \<Rightarrow> nat \<Rightarrow> string \<Rightarrow> string result \<times> nat" where
  "linearSearchFile content pos key =
     (let n = drop pos content;
          buf = n @ replicate (length content - length n) CHR 0x00
      in (linearSearch_entries key (split_on CHR 0x0A buf), pos + length n))"

fun linearSearch_loop ::
  "SsTable \<Rightarrow> disk \<Rightarrow> (string \<Rightarrow> nat) \<Rightarrow> string \<Rightarrow> nat \<Rightarrow> string result \<times> (string \<Rightarrow> nat)" where
  "linearSearch_loop st d pos key 0 = (Ok '''', pos)"
| "linearSearch_loop st d pos key (Suc i) =
     (let f = firstLevelFiles st ! i;
          content = (case d_files d f of None \<Rightarrow> [] | Some c \<Rightarrow> c);
          (r, p) = linearSearchFile content (pos f) key;
          pos = pos(f := p)
      in case r of
           Ok value \<Rightarrow> if value \<noteq> '''' then (Ok value, pos) else linearSearch_loop st d pos key i
         | r \<Rightarrow> (r, pos))"

definition linearSearch :: "SsTable \<Rightarrow> disk \<Rightarrow> (string \<Rightarrow> nat) \<Rightarrow> string \<Rightarrow> string result \<times> (string \<Rightarrow> nat)" where
  "linearSearch st d pos key = linearSearch_loop st d pos key (length (firstLevelFiles st))"

text \<open>\<open>Get\<close> with its first branch. Everything else in the development has tables with an index.\<close>

definition SsTable_Get_handles ::
  "SsTable \<Rightarrow> disk \<Rightarrow> (string \<Rightarrow> nat) \<Rightarrow> string \<Rightarrow> u64 \<Rightarrow> u64 set \<Rightarrow> string result \<times> (string \<Rightarrow> nat)" where
  "SsTable_Get_handles st d pos key txnId activeTxnMap =
     (if skipIndex st then linearSearch st d pos key else (SsTable_Get st d key txnId activeTxnMap, pos))"

text \<open>
  A lookup without an index panics as soon as the newest file has been written or read by this process: its handle
  stands at the end, the buffer stays zero, and a buffer of zeros has no second word.
\<close>

theorem linearSearch_panics:
  assumes "skipIndex st" "firstLevelFiles st \<noteq> []"
    and "d_files d (last (firstLevelFiles st)) = Some content" "length content \<le> pos (last (firstLevelFiles st))"
  shows "fst (SsTable_Get_handles st d pos key txnId activeTxnMap) = Panic"
proof -
  let ?f = "last (firstLevelFiles st)"
  obtain i where i: "length (firstLevelFiles st) = Suc i" using assms(2) by (cases "firstLevelFiles st") auto
  then have f: "firstLevelFiles st ! i = ?f" using assms(2) by (simp add: last_conv_nth)
  have "split_on CHR 0x0A (replicate n CHR 0x00) = [replicate n CHR 0x00]"
    "split_on CHR '' '' (replicate n CHR 0x00) = [replicate n CHR 0x00]" for n
    by (auto intro!: split_on_no_sep)
  then have "fst (linearSearchFile content (pos ?f) key) = Panic"
    using assms(4) by (simp add: linearSearchFile_def Let_def)
  then obtain p where "linearSearchFile content (pos ?f) key = (Panic, p)" by (metis prod.collapse)
  then show ?thesis
    using assms(1,3) by (simp add: SsTable_Get_handles_def linearSearch_def i f Let_def)
qed

end
