(* ===== verification/Spec2Isabelle.thy ===== *)
theory Spec2Isabelle
  imports CommitSteps CompactionRace ParserProps SqlCodecProps SqlStaleIndex ShellProps SsTableLinear
begin

text \<open>
  A verification library for \<open>saardb\<close>, a relational store on a log-structured key-value engine, written in Go.

  \<^bold>\<open>The program.\<close> A session (\<open>main.go\<close>) reads commands. \<open>GET\<close> and \<open>PUT\<close> go to the transactional key-value store
  (\<open>db/db.go\<close>, \<open>db/transaction.go\<close>): a transaction takes a write lock per key, buffers its writes, and commits by
  appending one record to the write-ahead log (\<open>wal/wal.go\<close>) and then putting its writes, tagged with its id, into
  the memtable (\<open>memtable/memtable.go\<close>). A memtable of 1000 bytes or more is flushed into a table file
  (\<open>sstable/sstable.go\<close>, \<open>sstable/manifest.go\<close>), and when there are enough files a goroutine merges them
  (\<open>sstable/compaction.go\<close>). A reader sees the versions of the transactions that had ended when it began. \<open>CREATE TABLE\<close>
  and \<open>INSERT\<close> are parsed (\<open>sql_parser/\<close>) and become entries of the store (\<open>db/create.go\<close>, \<open>db/db.go\<close>); \<open>SELECT\<close>
  (\<open>db/select.go\<close>) reads rows by key, by a scan, or through a secondary index.

  \<^bold>\<open>Theories and code.\<close> State is a record with the fields of the Go struct; an operation takes the state and returns
  it updated; \<open>error\<close> returns are \<open>Err\<close>, run-time panics are \<open>Panic\<close>, calls that do not return are \<open>None\<close>.
    \<^item> \<open>Prelude\<close>: byte strings, big-endian integers, files and readers, results. \<open>Versions\<close>: entries with versions and
      the rule that says which version a reader sees (\<open>latest_version\<close>), and the locales \<open>version_store\<close> and
      \<open>scannable_store\<close> that memtable and tables implement.
    \<^item> \<open>Codec\<close>: the command encoding of \<open>db.go\<close> and \<open>transaction.go\<close>, with the locales \<open>codec\<close> and \<open>codec_pair\<close>
      (an exact decoder law, closed under sequences) that every other byte format of the program interprets.
      \<open>Wal\<close>: the log file, its records and checksums. \<open>Memtable\<close>: the memtable over an ordered tree.
    \<^item> \<open>SsTable\<close>: table files, index, manifest, lookups and scans as the code has them; \<open>SsTableFormat\<close>: what a written
      file contains and that it is read back; \<open>SsTableRead\<close>: what lookups and scans return; \<open>SsTableLinear\<close>: the lookup
      without an index. \<open>Compaction\<close>: the merge, as
      a whole and in the phases between which flushes run; \<open>TableSteps\<close>: every interleaving of them with one compaction
      at a time; \<open>CompactionRace\<close>: with several, which the code does not exclude.
    \<^item> \<open>Db\<close>: locks, transactions, flush, recovery; \<open>Locks\<close>: the locale \<open>lock_manager\<close>, what transactions rely on, which the
      lock map implements; \<open>DbRecovery\<close>: replaying whole and torn logs; \<open>DbSteps\<close>: the step
      relation of the store with any number of transactions, and its invariant; \<open>DbProps\<close> and \<open>DbIsolation\<close>:
      recovery, exclusion, atomicity and snapshots over arbitrary runs. \<open>CommitSteps\<close>: the single steps of commits that
      interleave with each other, with beginnings and with flushes.
    \<^item> \<open>Tokeniser\<close>, \<open>Parser\<close>, \<open>ParserProps\<close>: tokens, statements, and that every rendering of a statement is parsed back.
    \<^item> \<open>SqlCodec\<close>, \<open>SqlCodecProps\<close>: the stored forms of schemas, indexes and rows. \<open>SqlDb\<close>: \<open>CREATE TABLE\<close>, \<open>INSERT\<close> and
      the reload of the catalog; \<open>SqlDbProps\<close>: they are runs of the store; \<open>SqlCatalog\<close>: the catalog invariant and that
      it survives a crash. \<open>SqlSelect\<close>: queries; \<open>SqlScan\<close> and \<open>SqlSelectProps\<close>: scans, filters, the choice of an index
      and the equivalence of the lookup through an index with the filtered table; \<open>SqlStaleIndex\<close>: where it fails.
    \<^item> \<open>Shell\<close>: the session; \<open>ShellProps\<close>: what is put is read back, also after a crash.

  \<^bold>\<open>What the theorems show.\<close> Positive results: every byte format is decoded exactly; torn and damaged log records are
  detected, but for two cuts; recovery rebuilds the memtable in every reachable state; at most one writer per
  key; commits are atomic, also to readers that begin in the middle of them, rollbacks leave no trace, snapshots are
  stable while no compaction overtakes them; scans are exact under
  every interleaving of flushes and compactions; the catalog equals the schemas in memory and survives a crash;
  a row that is inserted is selected, and an index that is consistent gives the same rows as the filtered
  table. Negative results, each with a concrete run: a lookup through the sparse index misses older versions
  that lie in the block before; an empty value reads as an older one; compaction drops versions that a
  snapshot still needs; transaction ids start again after a flush and a restart; a refused row is reported
  as inserted; an unknown character makes \<open>INSERT\<close> hang; a row that is overwritten leaves its old index entry; a
  flush in the middle of a commit clears its log record, so that a crash tears it; two compactions that overlap
  leave their files in the wrong order, so that a lookup returns an overwritten value.

  \<^bold>\<open>Parameters and hypotheses.\<close> The B-tree of \<open>github.com/google/btree\<close> is a record of operations with its documented
  behaviour as hypothesis (\<open>btree_ok\<close>), instantiated by ordered lists; the order in which Go ranges over a map is a function that
  enumerates it (\<open>range_order\<close>), instantiated by the sorted order; the Unicode tables beyond ASCII are the record
  \<open>unicode\<close>; each write to the log has an outcome (\<open>io_outcome\<close>: all bytes, or a failure after some). Steps of
  the store assume that ids do not wrap around, that a log record is at most 1 MB (what the reader accepts), and that a flush
  stays below 2 GB and has no empty key. No definition uses fuel: loops that always end are
  functions with a termination proof, and \<open>INSERT\<close>'s parser, which may run forever, is a partial function.

  \<^bold>\<open>Not modelled.\<close> Mutexes and data races (every operation is one atomic step; the phases of a compaction and the
  steps of a commit are separate in \<open>TableSteps\<close> and \<open>CommitSteps\<close>), failures of the file system other than short log writes, closing of files, log output, and the texts
  that the session prints. The lookup without index (\<open>SsTableLinear\<close>), which only a benchmark uses, is modelled by
  itself: everything else is about tables that are opened with an index, as \<open>main.go\<close> does.
\<close>

end
